(* ===== verification/Prelude.thy ===== *)
theory Prelude
  imports Main "HOL-Library.Word"
begin

text \<open>
  What every component shares: the machine integer types of the code, the outcome of a C++
  call (a value, a thrown exception, undefined behaviour, or a loop that has used up its
  fuel), the byte buffers that \<^verbatim>\<open>memcpy\<close> moves data between, and the
  generic lemmas on them.

  The platform of the model is the Unix one with 64 bit \<open>long\<close> and \<open>size_t\<close>:
  \<open>tuint32\<close> is \<open>32 word\<close>, \<open>tuint64\<close> is \<open>64 word\<close>. A \<open>tint64\<close> that only carries a
  count or -1 is an \<open>int\<close>; where its arithmetic can leave the 64 bit range the definition
  says so. Allocation succeeds unless a definition takes the answer of the allocator as an
  argument.
\<close>

unbundle bit_operations_syntax

type_synonym byte = "8 word"
type_synonym u8 = "8 word"
type_synonym u16 = "16 word"
type_synonym u32 = "32 word"
type_synonym u64 = "64 word"

named_theorems buf_simps \<open>equations of the byte buffers\<close>
named_theorems law_intros \<open>introduction rules that discharge the interface laws\<close>

section \<open>Outcomes of a call\<close>

datatype 'a outcome =
    Ret 'a            \<comment> \<open>the call returns\<close>
  | Throw string      \<comment> \<open>the call throws an \<^verbatim>\<open>Exception2\<close> with this message\<close>
  | Undef             \<comment> \<open>undefined behaviour: an access outside an object, a division by 0, ...\<close>
  | Fuel              \<comment> \<open>a loop of the model has used up its fuel\<close>

fun obind :: "'a outcome \<Rightarrow> ('a \<Rightarrow> 'b outcome) \<Rightarrow> 'b outcome" where
  "obind (Ret x) f = f x"
| "obind (Throw m) f = Throw m"
| "obind Undef f = Undef"
| "obind Fuel f = Fuel"

text \<open>\<open>catch (...)\<close>: a handler that does not look at the exception.\<close>

fun catch_all :: "'a outcome \<Rightarrow> 'a outcome \<Rightarrow> 'a outcome" where
  "catch_all (Throw m) h = h"
| "catch_all (Ret x) h = Ret x"
| "catch_all Undef h = Undef"
| "catch_all Fuel h = Fuel"

fun returns :: "'a outcome \<Rightarrow> bool" where
  "returns (Ret x) = True"
| "returns _ = False"

fun_cases obind_RetE: "obind m f = Ret y" and obind_FuelE: "obind m f = Fuel"
fun_cases returnsE: "returns m"

lemma obind_Ret_eq: "obind m f = Ret y \<longleftrightarrow> (\<exists>x. m = Ret x \<and> f x = Ret y)"
  by (auto elim: obind_RetE)

lemma obind_Fuel_eq: "obind m f = Fuel \<longleftrightarrow> m = Fuel \<or> (\<exists>x. m = Ret x \<and> f x = Fuel)"
  by (auto elim: obind_FuelE)

lemma obind_cong [fundef_cong]:
  "m = m' \<Longrightarrow> (\<And>x. m' = Ret x \<Longrightarrow> f x = f' x) \<Longrightarrow> obind m f = obind m' f'"
  by (cases m') auto

lemma returns_iff: "returns m \<longleftrightarrow> (\<exists>x. m = Ret x)"
  by (auto elim: returnsE)

section \<open>Byte buffers\<close>

text \<open>
  \<open>store buf bs\<close>: the buffer after a callee has put \<open>bs\<close> at its beginning.
  \<open>blit buf p bs\<close>: after \<^verbatim>\<open>memcpy(buf + p, bs, length bs)\<close>.
  \<open>slice buf p n\<close>: the \<open>n\<close> bytes from index \<open>p\<close>. The definitions that use them check
  the bounds first and answer \<open>Undef\<close> outside.
\<close>

definition blit :: "byte list \<Rightarrow> nat \<Rightarrow> byte list \<Rightarrow> byte list" where
  "blit buf p bs = take p buf @ bs @ drop (p + length bs) buf"

definition slice :: "byte list \<Rightarrow> nat \<Rightarrow> nat \<Rightarrow> byte list" where
  "slice buf p n = take n (drop p buf)"

definition store :: "byte list \<Rightarrow> byte list \<Rightarrow> byte list" where
  "store buf bs = bs @ drop (length bs) buf"

lemma length_blit [buf_simps]:
  "p + length bs \<le> length buf \<Longrightarrow> length (blit buf p bs) = length buf"
  by (simp add: blit_def)

lemma length_slice [buf_simps]: "p + n \<le> length buf \<Longrightarrow> length (slice buf p n) = n"
  by (simp add: slice_def)

lemma length_store [buf_simps]: "length bs \<le> length buf \<Longrightarrow> length (store buf bs) = length buf"
  by (simp add: store_def)

lemma take_store [buf_simps]: "take (length bs) (store buf bs) = bs"
  by (simp add: store_def)

lemma slice_0 [buf_simps]: "slice buf p 0 = []"
  by (simp add: slice_def)

lemma take_blit [buf_simps]:
  "p + length bs \<le> length buf \<Longrightarrow> take (p + length bs) (blit buf p bs) = take p buf @ bs"
  by (simp add: blit_def)

lemma blit_0 [buf_simps]: "blit buf 0 bs = store buf bs"
  by (simp add: blit_def store_def)

lemma slice_append:
  "p + (n + m) \<le> length buf \<Longrightarrow> slice buf p (n + m) = slice buf p n @ slice buf (p + n) m"
  by (simp add: slice_def take_add add.commute [of n p])

section \<open>Words\<close>

lemma unat_of_nat_u32 [simp]: "n < 2 ^ 32 \<Longrightarrow> unat (of_nat n :: u32) = n"
  by (simp add: unsigned_of_nat take_bit_nat_eq_self)

lemma unat_of_nat_u8: "n < 2 ^ 8 \<Longrightarrow> unat (of_nat n :: u8) = n"
  by (simp add: unsigned_of_nat take_bit_nat_eq_self)

lemma uint_of_nat_u32 [simp]: "n < 2 ^ 32 \<Longrightarrow> uint (of_nat n :: u32) = int n"
  by (simp add: unsigned_of_nat take_bit_nat_eq_self)

lemma unat_of_nat_u64 [simp]: "n < 2 ^ 64 \<Longrightarrow> unat (of_nat n :: u64) = n"
  by (simp add: unsigned_of_nat take_bit_nat_eq_self)

lemma unat_lt_u32: "unat (x :: u32) < 2 ^ 32"
  by (rule order_less_le_trans [OF unsigned_less]) simp

lemma unat_lt_u64: "unat (x :: u64) < 2 ^ 64"
  by (rule order_less_le_trans [OF unsigned_less]) simp

lemma unat_u32_add: "unat (x :: u32) + unat y < 2 ^ 32 \<Longrightarrow> unat (x + y) = unat x + unat y"
  by (simp add: unat_word_ariths)

lemma unat_u32_diff: "unat (y :: u32) \<le> unat x \<Longrightarrow> unat (x - y) = unat x - unat y"
  by (simp add: unat_sub word_le_nat_alt)

lemma unat_u64_diff: "unat (y :: u64) \<le> unat x \<Longrightarrow> unat (x - y) = unat x - unat y"
  by (simp add: unat_sub word_le_nat_alt)

lemma of_int_of_nat_u32 [simp]: "of_int (int n) = (of_nat n :: u32)"
  by simp

text \<open>The shifts \<^verbatim>\<open><<\<close> and \<^verbatim>\<open>>>\<close> on an unsigned word, by less than its width.\<close>

definition shl :: "'a::len word \<Rightarrow> nat \<Rightarrow> 'a word" where
  "shl x k = push_bit k x"

definition shr :: "'a::len word \<Rightarrow> nat \<Rightarrow> 'a word" where
  "shr x k = drop_bit k x"

lemma bit_shl: "bit (shl (x :: 'a::len word) k) n \<longleftrightarrow> k \<le> n \<and> n < LENGTH('a) \<and> bit x (n - k)"
  by (auto simp: shl_def bit_push_bit_iff dest: bit_imp_le_length)

lemma bit_shr: "bit (shr (x :: 'a::len word) k) n \<longleftrightarrow> bit x (n + k)"
  by (simp add: shr_def bit_drop_bit_eq add.commute)

lemma bit_high: "bit (x :: u32) n \<Longrightarrow> n < 32"
  using bit_imp_le_length [of x n] by simp

lemma word32_eqI: "(\<And>n. n < 32 \<Longrightarrow> bit (x :: u32) n \<longleftrightarrow> bit y n) \<Longrightarrow> x = y"
  by (rule bit_word_eqI) simp

lemma of_nat_unat_same [simp]: "of_nat (unat (x :: 'a::len word)) = x"
  by simp

end
