(* ===== verification/Streams.thy ===== *)
theory Streams
  imports Prelude
begin

text \<open>
  The stream interfaces of \<^verbatim>\<open>include/ckcore/stream.hh\<close>: an abstract class is a record
  of its virtual functions over the state of the object, and the contract its documentation
  states is a locale. \<open>in_contract\<close> is an input stream whose reads may fail, \<open>in_source\<close> one
  whose reads do not; \<open>out_contract\<close> and \<open>out_sink\<close> are the same for output streams. Every
  stream class of the library interprets one of them in its own theory, and the clients
  (the copy functions, the buffered streams, the line reader) are proved once, over them.
\<close>

section \<open>Input streams\<close>

datatype StreamWhence = ckSTREAM_CURRENT | ckSTREAM_BEGIN

text \<open>
  \<open>is_read c s\<close> answers the returned \<open>tint64\<close>, the bytes the call has put at the beginning
  of the caller's buffer, and the new state.
\<close>

record 's in_stream =
  is_read :: "u32 \<Rightarrow> 's \<Rightarrow> (int \<times> byte list \<times> 's) outcome"
  is_size :: "'s \<Rightarrow> int"
  is_end :: "'s \<Rightarrow> bool"
  is_seek :: "u32 \<Rightarrow> StreamWhence \<Rightarrow> 's \<Rightarrow> (bool \<times> 's) outcome"

text \<open>
  The contract: \<open>rem s\<close> are the bytes the stream still has to give. A read of at least one
  byte, and of at most \<open>cmax\<close> (some of the classes overflow on huge requests), either fails
  with -1 or gives a prefix of them, at least one byte unless there is none left; \<open>end\<close> says
  whether there is none left.
\<close>

locale in_contract =
  fixes I :: "'s in_stream" and rem :: "'s \<Rightarrow> byte list" and inv :: "'s \<Rightarrow> bool"
    and cmax :: nat
  assumes end_law: "inv s \<Longrightarrow> is_end I s \<longleftrightarrow> rem s = []"
    and read_law: "inv s \<Longrightarrow> 0 < unat c \<Longrightarrow> unat c \<le> cmax \<Longrightarrow>
      \<exists>res bs s'. is_read I c s = Ret (res, bs, s') \<and> length bs \<le> unat c \<and> inv s' \<and>
        (res = -1 \<or> (res = int (length bs) \<and> rem s = bs @ rem s' \<and> (rem s \<noteq> [] \<longrightarrow> bs \<noteq> [])))"
begin

lemma read_cases:
  assumes "inv s" and "0 < unat c" and "unat c \<le> cmax"
  obtains (fail) bs s' where "is_read I c s = Ret (-1, bs, s')" "length bs \<le> unat c" "inv s'"
  | (data) bs s' where "is_read I c s = Ret (int (length bs), bs, s')" "length bs \<le> unat c"
      "inv s'" "rem s = bs @ rem s'" "rem s \<noteq> [] \<Longrightarrow> bs \<noteq> []"
  using read_law [OF assms] by blast

end

locale in_source = in_contract +
  assumes read_ok: "inv s \<Longrightarrow> 0 < unat c \<Longrightarrow> unat c \<le> cmax \<Longrightarrow>
      is_read I c s = Ret (res, bs, s') \<Longrightarrow> res \<noteq> -1"
begin

lemma read_data:
  assumes "inv s" and "0 < unat c" and "unat c \<le> cmax"
  obtains bs s' where "is_read I c s = Ret (int (length bs), bs, s')" "length bs \<le> unat c"
      "inv s'" "rem s = bs @ rem s'" "rem s \<noteq> [] \<Longrightarrow> bs \<noteq> []"
  using assms by (rule read_cases) (use assms read_ok in blast)+

text \<open>A property that the reads keep can be put into the invariant.\<close>

lemma keeping:
  assumes "\<And>s c res bs s'. inv s \<Longrightarrow> Q s \<Longrightarrow> 0 < unat c \<Longrightarrow> is_read I c s = Ret (res, bs, s') \<Longrightarrow> Q s'"
  shows "in_source I rem (\<lambda>s. inv s \<and> Q s) cmax"
proof
  fix s c assume a: "inv s \<and> Q s" "0 < unat (c :: u32)" "unat c \<le> cmax"
  then obtain res bs s' where "is_read I c s = Ret (res, bs, s')" "length bs \<le> unat c" "inv s'"
    "res = -1 \<or> (res = int (length bs) \<and> rem s = bs @ rem s' \<and> (rem s \<noteq> [] \<longrightarrow> bs \<noteq> []))"
    using read_law by blast
  with a assms show "\<exists>res bs s'. is_read I c s = Ret (res, bs, s') \<and> length bs \<le> unat c \<and> (inv s' \<and> Q s') \<and>
      (res = -1 \<or> (res = int (length bs) \<and> rem s = bs @ rem s' \<and> (rem s \<noteq> [] \<longrightarrow> bs \<noteq> [])))" by blast
qed (use end_law read_ok in blast)+

end

section \<open>Output streams\<close>

text \<open>
  \<open>os_write bs s\<close> is \<^verbatim>\<open>write(buffer, count)\<close> where \<open>bs\<close> are the \<open>count\<close> bytes at
  \<open>buffer\<close>; it answers the returned \<open>tint64\<close> and the new state.
\<close>

record 's out_stream =
  os_write :: "byte list \<Rightarrow> 's \<Rightarrow> (int \<times> 's) outcome"

text \<open>
  The contract: \<open>abs s\<close> is what the stream has made of the bytes written so far, \<open>app\<close> the
  effect of more bytes on it (an action of the monoid of byte lists), and \<open>fits s n\<close> that
  \<open>n\<close> more bytes are within the limits of the stream. A write fails with -1 and no effect or
  takes all its bytes.
\<close>

locale out_contract =
  fixes W :: "'s out_stream" and abs :: "'s \<Rightarrow> 'a" and app :: "'a \<Rightarrow> byte list \<Rightarrow> 'a"
    and fits :: "'s \<Rightarrow> nat \<Rightarrow> bool" and oinv :: "'s \<Rightarrow> bool"
  assumes app_Nil: "app a [] = a"
    and app_append: "app a (xs @ ys) = app (app a xs) ys"
    and fits_mono: "oinv s \<Longrightarrow> fits s n \<Longrightarrow> m \<le> n \<Longrightarrow> fits s m"
    and write_law: "oinv s \<Longrightarrow> length bs < 2 ^ 32 \<Longrightarrow> fits s (length bs + m) \<Longrightarrow>
      \<exists>res s'. os_write W bs s = Ret (res, s') \<and> oinv s' \<and> fits s' m \<and>
        ((res = -1 \<and> abs s' = abs s) \<or> (res = int (length bs) \<and> abs s' = app (abs s) bs))"
begin

lemma write_cases:
  assumes "oinv s" and "length bs < 2 ^ 32" and "fits s (length bs + m)"
  obtains (fail) s' where "os_write W bs s = Ret (-1, s')" "oinv s'" "fits s' m" "abs s' = abs s"
  | (ok) s' where "os_write W bs s = Ret (int (length bs), s')" "oinv s'" "fits s' m"
      "abs s' = app (abs s) bs"
  using write_law [OF assms] by blast

end

locale out_sink = out_contract +
  assumes write_ok: "oinv s \<Longrightarrow> length bs < 2 ^ 32 \<Longrightarrow> fits s (length bs) \<Longrightarrow>
      os_write W bs s = Ret (res, s') \<Longrightarrow> res \<noteq> -1"
begin

lemma write_data:
  assumes "oinv s" and "length bs < 2 ^ 32" and "fits s (length bs + m)"
  obtains s' where "os_write W bs s = Ret (int (length bs), s')" "oinv s'" "fits s' m"
      "abs s' = app (abs s) bs"
proof -
  have "fits s (length bs)" using fits_mono [OF assms(1,3)] by simp
  then show thesis
    using assms by (cases rule: write_cases [OF assms]) (auto dest: write_ok intro: that)
qed

end

text \<open>A client that writes one piece after the other.\<close>

fun write_all :: "'s out_stream \<Rightarrow> byte list list \<Rightarrow> 's \<Rightarrow> (int list \<times> 's) outcome" where
  "write_all W [] s = Ret ([], s)"
| "write_all W (bs # rest) s = obind (os_write W bs s) (\<lambda>(res, s').
     obind (write_all W rest s') (\<lambda>(rs, s''). Ret (res # rs, s'')))"

text \<open>A stream that may fail: the pieces whose write has not answered -1 are all that arrives.\<close>

definition accepted :: "byte list list \<Rightarrow> int list \<Rightarrow> byte list" where
  "accepted pieces rs = concat (map fst (filter (\<lambda>(bs, r). r \<noteq> -1) (zip pieces rs)))"

context out_contract begin

lemma write_all_cases:
  "oinv s \<Longrightarrow> (\<forall>bs\<in>set pieces. length bs < 2 ^ 32) \<Longrightarrow> fits s (length (concat pieces) + m) \<Longrightarrow>
   \<exists>rs s'. write_all W pieces s = Ret (rs, s') \<and> oinv s' \<and> fits s' m \<and>
     list_all2 (\<lambda>bs r. r = -1 \<or> r = int (length bs)) pieces rs \<and> abs s' = app (abs s) (accepted pieces rs)"
proof (induction pieces arbitrary: s)
  case (Cons bs pieces)
  have l: "length bs < 2 ^ 32" using Cons.prems(2) by simp
  have f: "fits s (length bs + (length (concat pieces) + m))" using Cons.prems(3) by (simp add: add.assoc)
  show ?case
  proof (rule write_cases [OF Cons.prems(1) l f])
    fix s'
    assume fail: "os_write W bs s = Ret (-1, s')" "oinv s'" "fits s' (length (concat pieces) + m)" "abs s' = abs s"
    from Cons.IH [OF fail(2) _ fail(3)] Cons.prems(2) obtain rs s'' where
      "write_all W pieces s' = Ret (rs, s'')" "oinv s''" "fits s'' m"
      "list_all2 (\<lambda>bs r. r = -1 \<or> r = int (length bs)) pieces rs" "abs s'' = app (abs s') (accepted pieces rs)" by auto
    with fail show ?thesis by (simp add: accepted_def)
  next
    fix s'
    assume ok: "os_write W bs s = Ret (int (length bs), s')" "oinv s'" "fits s' (length (concat pieces) + m)"
      "abs s' = app (abs s) bs"
    from Cons.IH [OF ok(2) _ ok(3)] Cons.prems(2) obtain rs s'' where
      "write_all W pieces s' = Ret (rs, s'')" "oinv s''" "fits s'' m"
      "list_all2 (\<lambda>bs r. r = -1 \<or> r = int (length bs)) pieces rs" "abs s'' = app (abs s') (accepted pieces rs)" by auto
    with ok show ?thesis by (simp add: accepted_def app_append)
  qed
qed (simp add: accepted_def app_Nil)

end

context out_sink begin

lemma write_all_spec:
  "oinv s \<Longrightarrow> (\<forall>bs\<in>set pieces. length bs < 2 ^ 32) \<Longrightarrow> fits s (length (concat pieces) + m) \<Longrightarrow>
   \<exists>s'. write_all W pieces s = Ret (map (\<lambda>bs. int (length bs)) pieces, s') \<and> oinv s' \<and> fits s' m \<and>
     abs s' = app (abs s) (concat pieces)"
proof (induction pieces arbitrary: s)
  case (Cons bs pieces)
  have l: "length bs < 2 ^ 32" using Cons.prems(2) by simp
  have f: "fits s (length bs + (length (concat pieces) + m))" using Cons.prems(3) by (simp add: add.assoc)
  obtain s' where s': "os_write W bs s = Ret (int (length bs), s')" "oinv s'"
    "fits s' (length (concat pieces) + m)" "abs s' = app (abs s) bs"
    by (rule write_data [OF Cons.prems(1) l f])
  from Cons.IH [OF s'(2) _ s'(3)] Cons.prems(2) obtain s'' where
    "write_all W pieces s' = Ret (map (\<lambda>bs. int (length bs)) pieces, s'')" "oinv s''" "fits s'' m"
    "abs s'' = app (abs s') (concat pieces)" by auto
  with s' show ?case by (simp add: app_append)
qed (simp add: app_Nil)

end

section \<open>Buffers handed to a stream\<close>

text \<open>
  \<^verbatim>\<open>from.read(buffer, count)\<close> with a caller's buffer: a callee that puts down more bytes
  than the buffer has writes outside it. \<^verbatim>\<open>to.write(buffer, (tuint32)res)\<close> reads
  outside the buffer when the converted count is larger than it.
\<close>

definition read_into :: "'i in_stream \<Rightarrow> u32 \<Rightarrow> byte list \<Rightarrow> 'i \<Rightarrow> (int \<times> byte list \<times> 'i) outcome" where
  "read_into I c buf s = obind (is_read I c s) (\<lambda>(res, bs, s').
     if length bs \<le> length buf then Ret (res, store buf bs, s') else Undef)"

definition write_from :: "'o out_stream \<Rightarrow> u32 \<Rightarrow> byte list \<Rightarrow> 'o \<Rightarrow> (int \<times> 'o) outcome" where
  "write_from W c buf s = (if unat c \<le> length buf then os_write W (take (unat c) buf) s else Undef)"

context in_contract begin

lemma read_into_cases:
  assumes "inv s" and "0 < unat c" and "unat c \<le> cmax" and "unat c \<le> length buf"
  obtains (fail) buf' s' where "read_into I c buf s = Ret (-1, buf', s')" "length buf' = length buf"
      "inv s'"
  | (data) bs s' where "read_into I c buf s = Ret (int (length bs), store buf bs, s')"
      "length bs \<le> unat c" "inv s'" "rem s = bs @ rem s'" "rem s \<noteq> [] \<Longrightarrow> bs \<noteq> []"
proof (cases rule: read_cases [OF assms(1-3)])
  case (1 bs s')
  with assms(4) show thesis
    by (intro fail [of "store buf bs" s']) (auto simp: read_into_def length_store)
next
  case (2 bs s')
  with assms(4) show thesis
    by (intro data [of bs s']) (auto simp: read_into_def)
qed

end

context out_contract begin

lemma write_from_store:
  assumes "length bs \<le> length buf" and "length buf < 2 ^ 32"
  shows "write_from W (of_int (int (length bs))) (store buf bs) s = os_write W bs s"
  using assms by (simp add: write_from_def length_store take_store)

end

end
