(* ===== verification/Progress.thy ===== *)
theory Progress
  imports Prelude
begin

text \<open>
  Progress reporting: the \<^verbatim>\<open>Progress\<close> interface
  (\<^verbatim>\<open>include/ckcore/progress.hh\<close>) as a record of its virtual functions, and the
  class \<^verbatim>\<open>Progresser\<close> (\<^verbatim>\<open>src/progresser.cc\<close>), which turns a count of processed units
  into a percentage with \<open>double\<close> arithmetic. That arithmetic is modelled exactly: every
  operation rounds to 53 significant bits, ties to even.
\<close>

section \<open>The interface\<close>

datatype MessageType = ckINFORMATION | ckWARNING | ckERROR | ckEXTERNAL

record 'p progress_if =
  pg_set_progress :: "u8 \<Rightarrow> 'p \<Rightarrow> 'p"
  pg_set_marquee :: "bool \<Rightarrow> 'p \<Rightarrow> 'p"
  pg_notify :: "MessageType \<Rightarrow> string \<Rightarrow> 'p \<Rightarrow> 'p"
  pg_cancelled :: "'p \<Rightarrow> bool \<times> 'p"

section \<open>Rounding to double precision\<close>

text \<open>
  A finite non-negative \<open>double\<close> is the natural number that is \<open>2 ^ 128\<close> times its value.
  The values of the model are 0, or between \<open>2 ^ -64\<close> and \<open>2 ^ 72\<close>, so that number has at
  least 53 bits and the rounding below is the one of the hardware: \<open>rne n d\<close> is the integer
  nearest to \<open>n / d\<close> (ties to even), \<open>rnd n d\<close> the multiple of the unit in the last place
  nearest to it.
\<close>

fun blen :: "nat \<Rightarrow> nat" where
  "blen n = (if n = 0 then 0 else Suc (blen (n div 2)))"

declare blen.simps [simp del]

definition rne :: "nat \<Rightarrow> nat \<Rightarrow> nat" where
  "rne n d = (let q = n div d; r = n mod d
     in if 2 * r < d \<or> (2 * r = d \<and> even q) then q else q + 1)"

definition rnd :: "nat \<Rightarrow> nat \<Rightarrow> nat" where
  "rnd n d = (let e = blen (n div d) - 53 in rne n (d * 2 ^ e) * 2 ^ e)"

definition double_of_u64 :: "u64 \<Rightarrow> nat" where
  "double_of_u64 c = rnd (unat c * 2 ^ 128) 1"

definition double_div :: "nat \<Rightarrow> nat \<Rightarrow> nat" where
  "double_div a b = rnd (a * 2 ^ 128) b"

definition double_mul100 :: "nat \<Rightarrow> nat" where
  "double_mul100 a = rnd (a * 100) 1"

lemma blen_0 [simp]: "blen 0 = 0"
  by (simp add: blen.simps)

lemma blen_bounds: "0 < n \<Longrightarrow> 2 ^ (blen n - 1) \<le> n \<and> n < 2 ^ blen n"
proof (induction n rule: blen.induct)
  case (1 n)
  show ?case
  proof (cases "n div 2 = 0")
    case True
    with 1(2) have "n = 1" by simp
    then show ?thesis by (simp add: blen.simps)
  next
    case False
    with 1 have ih: "2 ^ (blen (n div 2) - 1) \<le> n div 2" "n div 2 < 2 ^ blen (n div 2)"
      by auto
    have b: "blen n = Suc (blen (n div 2))" using 1(2) by (subst blen.simps) simp
    from False have "blen (n div 2) = Suc (blen (n div 2) - 1)"
      by (subst (1 2) blen.simps) simp
    then have "2 ^ blen (n div 2) = 2 * (2::nat) ^ (blen (n div 2) - 1)"
      by (metis power_Suc)
    with ih show ?thesis unfolding b by simp linarith
  qed
qed

lemma blen_le_iff: "blen n \<le> k \<longleftrightarrow> n < 2 ^ k"
proof (cases "n = 0")
  case False
  then have b: "2 ^ (blen n - 1) \<le> n" "n < 2 ^ blen n" using blen_bounds by auto
  show ?thesis
  proof
    assume "blen n \<le> k"
    then have "(2::nat) ^ blen n \<le> 2 ^ k" by (rule power_increasing) simp
    with b show "n < 2 ^ k" by linarith
  next
    assume "n < 2 ^ k"
    with b have "(2::nat) ^ (blen n - 1) < 2 ^ k" by linarith
    then have "blen n - 1 < k" by (rule power_less_imp_less_exp [rotated]) simp
    then show "blen n \<le> k" by linarith
  qed
qed simp

lemma blen_mono: "n \<le> m \<Longrightarrow> blen n \<le> blen m"
  by (meson blen_le_iff le_less_trans order_refl)

lemma rne_div: "n div d \<le> rne n d" "rne n d \<le> n div d + 1"
  by (auto simp: rne_def Let_def)

lemma rne_upper:
  assumes "0 < d" and "n \<le> d * y"
  shows "rne n d \<le> y"
proof (cases "n = d * y")
  case True
  with assms show ?thesis by (simp add: rne_def)
next
  case False
  with assms have "n < y * d" by (simp add: mult.commute)
  with assms(1) have "n div d < y" by (simp add: less_mult_imp_div_less)
  with rne_div(2) [of n d] show ?thesis by linarith
qed

lemma rne_lower: "0 < d \<Longrightarrow> d * y \<le> n \<Longrightarrow> y \<le> rne n d"
  by (rule order_trans [OF _ rne_div(1)]) (simp add: less_eq_div_iff_mult_less_eq mult.commute)

lemma rne_mono:
  assumes "n \<le> n'"
  shows "rne n d \<le> rne n' d"
proof (cases "n div d = n' div d")
  case True
  have "n mod d \<le> n' mod d"
    using assms True by (metis div_mult_mod_eq nat_add_left_cancel_le)
  with True show ?thesis by (auto simp: rne_def Let_def)
next
  case False
  with div_le_mono [OF assms, of d] have "n div d + 1 \<le> n' div d" by simp
  with rne_div(2) [of n d] rne_div(1) [of n' d] show ?thesis by linarith
qed

text \<open>Rounding never passes a representable value, in either direction.\<close>

lemma rnd_upper:
  assumes d: "0 < d" and le: "n \<le> d * (m * 2 ^ k)" and e: "blen (m * 2 ^ k) \<le> k + 53"
  shows "rnd n d \<le> m * 2 ^ k"
proof -
  let ?e = "blen (n div d) - 53"
  have "n div d \<le> m * 2 ^ k"
    using div_le_mono [OF le, of d] d by simp
  then have ek: "?e \<le> k" using blen_mono e by (meson le_diff_conv order_trans)
  then have p: "m * 2 ^ k = (m * 2 ^ (k - ?e)) * 2 ^ ?e"
    by (metis le_add_diff_inverse2 mult.assoc power_add)
  have "n \<le> (d * 2 ^ ?e) * (m * 2 ^ (k - ?e))"
    using le unfolding p by (simp add: ac_simps)
  then have "rne n (d * 2 ^ ?e) \<le> m * 2 ^ (k - ?e)"
    using d by (intro rne_upper) auto
  then show ?thesis unfolding rnd_def Let_def p by (rule mult_le_mono1)
qed

lemma rnd_lower_pow:
  assumes "0 < n"
  shows "2 ^ (blen n - 1) \<le> rnd n 1"
proof -
  let ?e = "blen n - 53"
  have "?e \<le> blen n - 1" by simp
  then have p: "(2::nat) ^ (blen n - 1) = 2 ^ (blen n - 1 - ?e) * 2 ^ ?e"
    by (metis le_add_diff_inverse2 power_add)
  have "2 ^ ?e * 2 ^ (blen n - 1 - ?e) \<le> n"
    using blen_bounds [OF assms] p by (simp add: mult.commute)
  then have "2 ^ (blen n - 1 - ?e) \<le> rne n (2 ^ ?e)" by (intro rne_lower) auto
  then show ?thesis unfolding p by (simp add: rnd_def Let_def)
qed

lemma rnd_mono:
  assumes "n \<le> n'"
  shows "rnd n 1 \<le> rnd n' 1"
proof (cases "blen n = blen n'")
  case True
  then show ?thesis using rne_mono [OF assms] by (simp add: rnd_def Let_def)
next
  case False
  with blen_mono [OF assms] have lt: "blen n \<le> blen n' - 1" by simp
  with False have n': "0 < n'" using blen_mono [OF assms] by (cases "n' = 0") auto
  have "n \<le> 1 * (1 * 2 ^ blen n)"
    using blen_bounds [of n] by (cases "n = 0") auto
  then have "rnd n 1 \<le> 1 * 2 ^ blen n"
    by (intro rnd_upper) (auto simp: blen_le_iff power_add)
  also have "\<dots> \<le> 2 ^ (blen n' - 1)" using lt by (simp add: power_increasing)
  also have "\<dots> \<le> rnd n' 1" by (rule rnd_lower_pow [OF n'])
  finally show ?thesis .
qed

section \<open>Class Progresser\<close>

record 'p progresser =
  pr_progress :: 'p      \<comment> \<open>the object behind the reference \<open>progress_\<close>\<close>
  pr_total :: u64
  pr_count :: u64

definition Progresser :: "'p \<Rightarrow> u64 \<Rightarrow> 'p progresser" where
  "Progresser p tot = \<lparr>pr_progress = p, pr_total = tot, pr_count = 0\<rparr>"

text \<open>
  \<^verbatim>\<open>(unsigned char)(((double)count_/total_) * 100)\<close>: converting a \<open>double\<close> whose
  integer part is no \<open>unsigned char\<close> (with \<open>total_ = 0\<close> it is no number) is undefined.
\<close>

definition percent :: "u64 \<Rightarrow> u64 \<Rightarrow> u8 outcome" where
  "percent count tot = (if tot = 0 then Undef
     else let v = double_mul100 (double_div (double_of_u64 count) (double_of_u64 tot)) div 2 ^ 128
          in if v < 256 then Ret (of_nat v) else Undef)"

definition progresser_update :: "'p progress_if \<Rightarrow> u64 \<Rightarrow> 'p progresser \<Rightarrow> 'p progresser outcome" where
  "progresser_update P c pr =
     (let pr' = pr\<lparr>pr_count := pr_count pr + c\<rparr>
      in obind (percent (pr_count pr') (pr_total pr'))
           (\<lambda>q. Ret (pr'\<lparr>pr_progress := pg_set_progress P q (pr_progress pr')\<rparr>)))"

definition progresser_notify :: "'p progress_if \<Rightarrow> MessageType \<Rightarrow> string \<Rightarrow> 'p progresser \<Rightarrow> 'p progresser" where
  "progresser_notify P t msg pr = pr\<lparr>pr_progress := pg_notify P t msg (pr_progress pr)\<rparr>"

definition progresser_cancelled :: "'p progress_if \<Rightarrow> 'p progresser \<Rightarrow> bool \<times> 'p progresser" where
  "progresser_cancelled P pr =
     (let (b, p) = pg_cancelled P (pr_progress pr) in (b, pr\<lparr>pr_progress := p\<rparr>))"

lemma double_pos:
  assumes "0 < c"
  shows "0 < double_of_u64 c"
proof -
  have "0 < unat c * 2 ^ 128" using assms by (simp add: word_less_nat_alt)
  then have "2 ^ (blen (unat c * 2 ^ 128) - 1) \<le> rnd (unat c * 2 ^ 128) 1" by (rule rnd_lower_pow)
  moreover have "0 < (2::nat) ^ (blen (unat c * 2 ^ 128) - 1)" by (rule zero_less_power) simp
  ultimately show ?thesis unfolding double_of_u64_def by linarith
qed

lemma percent_value:
  assumes "0 < tot" and "count \<le> tot"
  obtains v where "percent count tot = Ret (of_nat v)" and "v \<le> 100"
proof -
  let ?a = "double_of_u64 count" and ?b = "double_of_u64 tot"
  have "?a \<le> ?b"
    using assms(2) unfolding double_of_u64_def
    by (intro rnd_mono mult_le_mono1) (simp add: word_le_nat_alt)
  then have "?a * 2 ^ 128 \<le> ?b * (1 * 2 ^ 128)" by simp
  then have "double_div ?a ?b \<le> 1 * 2 ^ 128" unfolding double_div_def
    using double_pos [OF assms(1)] by (intro rnd_upper) (auto simp: blen_le_iff)
  then have "double_div ?a ?b * 100 \<le> 1 * (100 * 2 ^ 128)" by simp
  then have "double_mul100 (double_div ?a ?b) \<le> 100 * 2 ^ 128" unfolding double_mul100_def
    by (intro rnd_upper) (auto simp: blen_le_iff)
  then have v: "double_mul100 (double_div ?a ?b) div 2 ^ 128 \<le> 100"
    by (metis div_le_mono nonzero_mult_div_cancel_right power_not_zero zero_neq_numeral)
  with assms(1) show thesis
    by (intro that [of "double_mul100 (double_div ?a ?b) div 2 ^ 128"]) (auto simp: percent_def Let_def)
qed

lemma update_returns:
  assumes "0 < pr_total pr" and "pr_count pr + c \<le> pr_total pr"
  obtains q where "progresser_update P c pr = Ret (pr\<lparr>pr_count := pr_count pr + c,
      pr_progress := pg_set_progress P q (pr_progress pr)\<rparr>)" and "unat q \<le> 100"
proof -
  obtain v where v: "percent (pr_count pr + c) (pr_total pr) = Ret (of_nat v)" "v \<le> 100"
    using assms by (rule percent_value)
  then have "unat (of_nat v :: u8) \<le> 100" by (simp add: unsigned_of_nat take_bit_nat_eq_self)
  with v(1) show thesis
    by (intro that [of "of_nat v"]) (auto simp: progresser_update_def)
qed

lemma update_counts:
  assumes "0 < pr_total pr" and "unat (pr_count pr) + n \<le> unat (pr_total pr)"
  obtains pr' where "progresser_update P (of_int (int n)) pr = Ret pr'" "pr_total pr' = pr_total pr"
    "unat (pr_count pr') = unat (pr_count pr) + n"
proof -
  have n: "n < 2 ^ 64" and sum: "unat (pr_count pr) + n < 2 ^ 64"
    using assms(2) unat_lt_u64 [of "pr_total pr"] by linarith+
  then have c: "unat (pr_count pr + of_nat n) = unat (pr_count pr) + n"
    by (simp add: unat_word_ariths)
  then have "pr_count pr + of_nat n \<le> pr_total pr"
    using assms(2) by (simp add: word_le_nat_alt)
  then obtain q where "progresser_update P (of_nat n) pr = Ret (pr\<lparr>pr_count := pr_count pr + of_nat n,
      pr_progress := pg_set_progress P q (pr_progress pr)\<rparr>)"
    by (rule update_returns [OF assms(1)])
  with c show thesis
    by (intro that [of "pr\<lparr>pr_count := pr_count pr + of_nat n, pr_progress := pg_set_progress P q (pr_progress pr)\<rparr>"]) auto
qed

lemma progresser_cancelled_keeps:
  "progresser_cancelled P pr = (b, pr') \<Longrightarrow> pr_total pr' = pr_total pr \<and> pr_count pr' = pr_count pr \<and>
     b = fst (pg_cancelled P (pr_progress pr))"
  by (auto simp: progresser_cancelled_def split: prod.splits)

lemma rnd_self:
  assumes "0 < a" shows "rnd (a * 2 ^ 128) a = 2 ^ 128"
proof (rule antisym)
  show "rnd (a * 2 ^ 128) a \<le> 2 ^ 128"
    using rnd_upper [of a "a * 2 ^ 128" 1 128] assms by (simp add: blen_le_iff)
  have "blen (2 ^ 128) - 53 \<le> 128" by (simp add: le_diff_conv blen_le_iff)
  then have p: "(2::nat) ^ 128 = 2 ^ (128 - (blen (2 ^ 128) - 53)) * 2 ^ (blen (2 ^ 128) - 53)"
    by (metis le_add_diff_inverse2 power_add)
  have "2 ^ (128 - (blen (2 ^ 128) - 53)) \<le> rne (a * 2 ^ 128) (a * 2 ^ (blen (2 ^ 128) - 53))"
    by (rule rne_lower) (use assms p in \<open>auto simp: ac_simps\<close>)
  then have "2 ^ (128 - (blen (2 ^ 128) - 53)) * 2 ^ (blen (2 ^ 128) - 53) \<le>
     rne (a * 2 ^ 128) (a * 2 ^ (blen (2 ^ 128) - 53)) * 2 ^ (blen (2 ^ 128) - 53)"
    by (rule mult_le_mono1)
  then show "2 ^ 128 \<le> rnd (a * 2 ^ 128) a"
    using assms unfolding p [symmetric] by (simp add: rnd_def Let_def)
qed


lemma blen_100: "blen (2 ^ 128 * 100) = 135"
  by (simp add: blen.simps)

lemma percent_full: "0 < tot \<Longrightarrow> percent tot tot = Ret 100"
  using rnd_self [OF double_pos, of tot]
  by (simp add: percent_def Let_def double_div_def double_mul100_def rnd_def rne_def blen_100 [simplified])

text \<open>While the count stays within the total, \<^verbatim>\<open>Progresser::update\<close> is defined, adds to the
  count, and reports one percentage of at most 100, which is exactly 100 when the count reaches
  the total; the rounding of the \<open>double\<close> arithmetic, also of counts above \<open>2 ^ 53\<close>, does not
  change that.\<close>

theorem update_percent:
  assumes "0 < pr_total pr" and "pr_count pr + c \<le> pr_total pr"
  shows "\<exists>q. progresser_update P c pr = Ret (pr\<lparr>pr_count := pr_count pr + c,
      pr_progress := pg_set_progress P q (pr_progress pr)\<rparr>) \<and> unat q \<le> 100 \<and>
    (pr_count pr + c = pr_total pr \<longrightarrow> q = 100)"
proof (cases "pr_count pr + c = pr_total pr")
  case True
  with assms percent_full [of "pr_total pr"] show ?thesis
    by (intro exI [of _ 100]) (simp add: progresser_update_def)
next
  case False
  with update_returns [OF assms] show ?thesis by metis
qed

theorem update_percent_witness:
  "\<exists>q. progresser_update \<lparr>pg_set_progress = (\<lambda>q p. q # p), pg_set_marquee = (\<lambda>b p. p),
      pg_notify = (\<lambda>t m p. p), pg_cancelled = (\<lambda>p. (False, p))\<rparr> 1 (Progresser [] 3) =
    Ret ((Progresser [] 3)\<lparr>pr_count := pr_count (Progresser ([]::u8 list) 3) + 1,
      pr_progress := q # pr_progress (Progresser [] 3)\<rparr>) \<and> unat q \<le> 100 \<and>
    (pr_count (Progresser ([]::u8 list) 3) + 1 = pr_total (Progresser ([]::u8 list) 3) \<longrightarrow> q = 100)"
  using update_percent [of "Progresser ([]::u8 list) 3" 1 "\<lparr>pg_set_progress = (\<lambda>q p. q # p),
    pg_set_marquee = (\<lambda>b p. p), pg_notify = (\<lambda>t m p. p), pg_cancelled = (\<lambda>p. (False, p))\<rparr>"]
  by (simp add: Progresser_def)

end
