(* ===== verification/Stream_Copy.thy ===== *)
theory Stream_Copy
  imports Streams Progress
begin

text \<open>
  The four functions \<^verbatim>\<open>ckcore::stream::copy\<close> of \<^verbatim>\<open>src/stream.cc\<close>: plain, with
  a \<^verbatim>\<open>Progress\<close>, with a \<^verbatim>\<open>Progresser\<close>, and of an exact size with padding. A
  \<open>while\<close> loop spends one unit of fuel per round; the lemmas say how much is enough.
  \<open>buf\<close> is the heap buffer of 8192 bytes, with the contents it happens to have.
\<close>

abbreviation BUFFER_SIZE :: nat where "BUFFER_SIZE \<equiv> 8192"

section \<open>The functions\<close>

text \<open>The read and the write that the body of every loop starts with; -1 makes it return false.\<close>

definition copy_chunk :: "'i in_stream \<Rightarrow> 'o out_stream \<Rightarrow> u32 \<Rightarrow> byte list \<Rightarrow> 'i \<Rightarrow> 'o
    \<Rightarrow> (int \<times> byte list \<times> 'i \<times> 'o) outcome" where
  "copy_chunk I W c buf i s = obind (read_into I c buf i) (\<lambda>(res, buf', i').
     if res = -1 then Ret (-1, buf', i', s)
     else obind (write_from W (of_int res) buf' s) (\<lambda>(res', s'). Ret (res', buf', i', s')))"

fun copy_loop :: "'i in_stream \<Rightarrow> 'o out_stream \<Rightarrow> nat \<Rightarrow> byte list \<Rightarrow> 'i \<Rightarrow> 'o
    \<Rightarrow> (bool \<times> 'i \<times> 'o) outcome" where
  "copy_loop I W 0 buf i s = Fuel"
| "copy_loop I W (Suc n) buf i s =
     (if is_end I i then Ret (True, i, s)
      else obind (copy_chunk I W 8192 buf i s) (\<lambda>(res, buf', i', s').
        if res = -1 then Ret (False, i', s') else copy_loop I W n buf' i' s'))"

definition copy :: "'i in_stream \<Rightarrow> 'o out_stream \<Rightarrow> nat \<Rightarrow> byte list \<Rightarrow> 'i \<Rightarrow> 'o
    \<Rightarrow> (bool \<times> 'i \<times> 'o) outcome" where
  "copy I W fuel buf i s = copy_loop I W fuel buf i s"

text \<open>
  With a \<^verbatim>\<open>Progress\<close>: \<open>(written * 100)/total\<close> is computed in \<open>tint64\<close>, so an
  overflow and a total of 0 are undefined; the division truncates.
\<close>

definition c_div :: "int \<Rightarrow> int \<Rightarrow> int" where
  "c_div a b = sgn a * sgn b * (\<bar>a\<bar> div \<bar>b\<bar>)"

definition copy_percent :: "int \<Rightarrow> int \<Rightarrow> u8 outcome" where
  "copy_percent written tot =
     (if tot = 0 \<or> written * 100 < - (2 ^ 63) \<or> 2 ^ 63 \<le> written * 100 then Undef
      else Ret (of_int (c_div (written * 100) tot)))"

fun copy_progress_loop :: "'i in_stream \<Rightarrow> 'o out_stream \<Rightarrow> 'p progress_if \<Rightarrow> int \<Rightarrow> nat \<Rightarrow> int
    \<Rightarrow> byte list \<Rightarrow> 'i \<Rightarrow> 'o \<Rightarrow> 'p \<Rightarrow> (bool \<times> 'i \<times> 'o \<times> 'p) outcome" where
  "copy_progress_loop I W P tot 0 written buf i s p = Fuel"
| "copy_progress_loop I W P tot (Suc n) written buf i s p =
     (if is_end I i then
        Ret (True, i, s, if tot \<noteq> -1 then pg_set_progress P 100 p else p)
      else case pg_cancelled P p of (cancelled, p1) \<Rightarrow>
        if cancelled then Ret (False, i, s, p1)
        else obind (copy_chunk I W 8192 buf i s) (\<lambda>(res, buf', i', s').
          if res = -1 then Ret (False, i', s', p1)
          else if tot = -1 then copy_progress_loop I W P tot n written buf' i' s' p1
          else obind (copy_percent (written + res) tot) (\<lambda>q.
            copy_progress_loop I W P tot n (written + res) buf' i' s' (pg_set_progress P q p1))))"

definition copy_progress :: "'i in_stream \<Rightarrow> 'o out_stream \<Rightarrow> 'p progress_if \<Rightarrow> nat \<Rightarrow> byte list
    \<Rightarrow> 'i \<Rightarrow> 'o \<Rightarrow> 'p \<Rightarrow> (bool \<times> 'i \<times> 'o \<times> 'p) outcome" where
  "copy_progress I W P fuel buf i s p =
     (let tot = is_size I i
      in copy_progress_loop I W P tot fuel 0 buf i s (pg_set_marquee P (tot = -1) p))"

text \<open>With a \<^verbatim>\<open>Progresser\<close>.\<close>

fun copy_progresser_loop :: "'i in_stream \<Rightarrow> 'o out_stream \<Rightarrow> 'p progress_if \<Rightarrow> nat
    \<Rightarrow> byte list \<Rightarrow> 'i \<Rightarrow> 'o \<Rightarrow> 'p progresser \<Rightarrow> (bool \<times> 'i \<times> 'o \<times> 'p progresser) outcome" where
  "copy_progresser_loop I W P 0 buf i s pr = Fuel"
| "copy_progresser_loop I W P (Suc n) buf i s pr =
     (if is_end I i then Ret (True, i, s, pr)
      else case progresser_cancelled P pr of (cancelled, pr1) \<Rightarrow>
        if cancelled then Ret (False, i, s, pr1)
        else obind (copy_chunk I W 8192 buf i s) (\<lambda>(res, buf', i', s').
          if res = -1 then Ret (False, i', s', pr1)
          else obind (progresser_update P (of_int res) pr1)
            (\<lambda>pr2. copy_progresser_loop I W P n buf' i' s' pr2)))"

definition copy_progresser :: "'i in_stream \<Rightarrow> 'o out_stream \<Rightarrow> 'p progress_if \<Rightarrow> nat
    \<Rightarrow> byte list \<Rightarrow> 'i \<Rightarrow> 'o \<Rightarrow> 'p progresser \<Rightarrow> (bool \<times> 'i \<times> 'o \<times> 'p progresser) outcome" where
  "copy_progresser I W P fuel buf i s pr = copy_progresser_loop I W P fuel buf i s pr"

text \<open>
  Exactly \<open>sz\<close> bytes: the first loop copies, the second pads with zero bytes. The chunk sz
  is the smaller of the two, converted to \<open>tuint32\<close>.
\<close>

definition chunk_size :: "u64 \<Rightarrow> u32" where
  "chunk_size sz = (if sz < 8192 then ucast sz else 8192)"

fun pad_loop :: "'o out_stream \<Rightarrow> 'p progress_if \<Rightarrow> nat \<Rightarrow> u64 \<Rightarrow> 'o \<Rightarrow> 'p progresser
    \<Rightarrow> (bool \<times> 'o \<times> 'p progresser) outcome" where
  "pad_loop W P 0 sz s pr = Fuel"
| "pad_loop W P (Suc n) sz s pr =
     (if \<not> 0 < sz then Ret (True, s, pr)
      else obind (write_from W (chunk_size sz) (replicate BUFFER_SIZE 0) s) (\<lambda>(res, s').
        if res = -1 then Ret (False, s', pr)
        else obind (progresser_update P (of_int res) pr)
          (\<lambda>pr'. pad_loop W P n (sz - of_int res) s' pr')))"

fun copy_sized_loop :: "'i in_stream \<Rightarrow> 'o out_stream \<Rightarrow> 'p progress_if \<Rightarrow> nat \<Rightarrow> nat \<Rightarrow> u64
    \<Rightarrow> byte list \<Rightarrow> 'i \<Rightarrow> 'o \<Rightarrow> 'p progresser \<Rightarrow> (bool \<times> 'i \<times> 'o \<times> 'p progresser) outcome" where
  "copy_sized_loop I W P m 0 sz buf i s pr = Fuel"
| "copy_sized_loop I W P m (Suc n) sz buf i s pr =
     (if is_end I i \<or> \<not> 0 < sz then
        obind (pad_loop W P m sz s pr) (\<lambda>(b, s', pr'). Ret (b, i, s', pr'))
      else case progresser_cancelled P pr of (cancelled, pr1) \<Rightarrow>
        if cancelled then Ret (False, i, s, pr1)
        else obind (copy_chunk I W (chunk_size sz) buf i s) (\<lambda>(res, buf', i', s').
          if res = -1 then Ret (False, i', s', pr1)
          else obind (progresser_update P (of_int res) pr1)
            (\<lambda>pr2. copy_sized_loop I W P m n (sz - of_int res) buf' i' s' pr2)))"

definition copy_sized :: "'i in_stream \<Rightarrow> 'o out_stream \<Rightarrow> 'p progress_if \<Rightarrow> nat
    \<Rightarrow> byte list \<Rightarrow> 'i \<Rightarrow> 'o \<Rightarrow> 'p progresser \<Rightarrow> u64 \<Rightarrow> (bool \<times> 'i \<times> 'o \<times> 'p progresser) outcome" where
  "copy_sized I W P fuel buf i s pr sz = copy_sized_loop I W P fuel fuel sz buf i s pr"

section \<open>Chunk sizes and percentages\<close>

lemma unat_chunk_size: "unat (chunk_size sz) = min (unat sz) BUFFER_SIZE"
proof (cases "sz < 8192")
  case True
  then have "unat sz < 8192" by (simp add: word_less_nat_alt)
  then show ?thesis using True
    by (simp add: chunk_size_def unsigned_ucast_eq take_bit_nat_eq_self)
next
  case False
  then have "8192 \<le> unat sz" by (simp add: word_le_nat_alt not_less)
  with False show ?thesis by (simp add: chunk_size_def)
qed

lemma chunk_size_pos: "0 < sz \<Longrightarrow> 0 < unat (chunk_size sz)"
  by (simp add: unat_chunk_size word_less_nat_alt)

lemma chunk_size_le: "unat (chunk_size sz) \<le> BUFFER_SIZE"
  by (simp add: unat_chunk_size)

lemma copy_percent_returns:
  assumes "0 < tot" and "0 \<le> written" and "written \<le> tot" and "tot * 100 < 2 ^ 63"
  obtains q where "copy_percent written tot = Ret q" and "unat q \<le> 100"
proof -
  let ?v = "written * 100 div tot"
  have "written * 100 \<le> 100 * tot" using assms(3) by simp
  then have v: "?v \<le> 100" "0 \<le> ?v"
    using assms(1,2) zdiv_mono1 [of "written * 100" "100 * tot" tot]
    by (auto simp: pos_imp_zdiv_nonneg_iff)
  have "c_div (written * 100) tot = ?v"
    using assms(1,2) by (cases "written = 0") (auto simp: c_div_def sgn_mult)
  moreover obtain k where k: "?v = int k" using v(2) nonneg_int_cases by blast
  then have "unat (of_int ?v :: u8) \<le> 100" using v(1) unfolding k
    by (simp add: unsigned_of_nat take_bit_nat_eq_self)
  ultimately show thesis
    using assms by (intro that [of "of_int ?v"]) (auto simp: copy_percent_def)
qed

section \<open>One chunk\<close>

text \<open>
  A locale for the clients of a pair of streams: \<open>copy_link\<close> under the failing contracts,
  \<open>copy_sound\<close> where neither stream fails.
\<close>

locale copy_link = in_contract I rem inv cmax + out_contract W abs app fits oinv
  for I :: "'i in_stream" and rem :: "'i \<Rightarrow> byte list" and inv :: "'i \<Rightarrow> bool"
    and cmax :: nat and W :: "'o out_stream" and abs :: "'o \<Rightarrow> 'a" and app :: "'a \<Rightarrow> byte list \<Rightarrow> 'a"
    and fits :: "'o \<Rightarrow> nat \<Rightarrow> bool" and oinv :: "'o \<Rightarrow> bool" +
  assumes cmax_ge: "BUFFER_SIZE \<le> cmax"
begin

lemma chunk_cases:
  assumes "inv i" "oinv s" "0 < unat c" "unat c \<le> length buf" "length buf = BUFFER_SIZE"
    and fits: "fits s k" and k: "min (unat c) (length (rem i)) \<le> k"
  obtains (fail) buf' i' s' where "copy_chunk I W c buf i s = Ret (-1, buf', i', s')"
      "inv i'" "oinv s'" "abs s' = abs s"
  | (data) bs i' s' where "copy_chunk I W c buf i s = Ret (int (length bs), store buf bs, i', s')"
      "inv i'" "oinv s'" "length bs \<le> unat c" "rem i = bs @ rem i'" "rem i \<noteq> [] \<Longrightarrow> bs \<noteq> []"
      "abs s' = app (abs s) bs" "fits s' (k - length bs)"
proof -
  have cm: "unat c \<le> cmax" using assms(4,5) cmax_ge by simp
  show thesis
  proof (cases rule: read_into_cases [OF assms(1,3) cm assms(4)])
    case (1 buf' i')
    with assms(2) show thesis by (intro fail [of buf' i' s]) (auto simp: copy_chunk_def)
  next
    case (2 bs i')
    then have bs: "length bs \<le> k" "length bs \<le> length buf"
      using assms(4) k by auto
    have w: "write_from W (of_nat (length bs)) (store buf bs) s = os_write W bs s"
      using write_from_store [of bs buf s] bs(2) assms(5) by simp
    have f: "fits s (length bs + (k - length bs))" using fits bs(1) by simp
    have lt: "length bs < 2 ^ 32" using bs(2) assms(5) by simp
    show thesis
    proof (cases rule: write_cases [OF assms(2) lt f])
      case w1: (1 s')
      with 2 w show thesis by (intro fail [of "store buf bs" i' s']) (auto simp: copy_chunk_def)
    next
      case w2: (2 s')
      with 2 w show thesis by (intro data [of bs i' s']) (auto simp: copy_chunk_def)
    qed
  qed
qed

section \<open>The loops on streams that may fail\<close>

text \<open>A round of a loop that is not at the end of its input.\<close>

lemma round_cases:
  assumes "inv i" "oinv s" "length buf = BUFFER_SIZE" "fits s (length (rem i))" "length (rem i) < Suc n" "rem i \<noteq> []"
  obtains (fail) buf' i' s' where "copy_chunk I W 8192 buf i s = Ret (-1, buf', i', s')" "inv i'" "oinv s'" "abs s' = abs s"
  | (data) bs i' s' where "copy_chunk I W 8192 buf i s = Ret (int (length bs), store buf bs, i', s')"
      "inv i'" "oinv s'" "rem i = bs @ rem i'" "0 < length bs" "abs s' = app (abs s) bs" "fits s' (length (rem i'))"
      "length (store buf bs) = BUFFER_SIZE" "length (rem i') < n" "length (rem i) = length bs + length (rem i')"
proof -
  have c: "0 < unat (8192::u32)" "unat (8192::u32) \<le> length buf" using assms(3) by auto
  show thesis
  proof (cases rule: chunk_cases [OF assms(1,2) c assms(3,4) min.cobounded2])
    case (1 buf' i' s')
    then show thesis by (rule fail)
  next
    case (2 bs i' s')
    have l: "length (rem i) = length bs + length (rem i')" using 2(5) by simp
    have b: "0 < length bs" using 2(6) assms(6) by simp
    have st: "length (store buf bs) = BUFFER_SIZE" using 2(4) assms(3) by (simp add: length_store)
    have f: "fits s' (length (rem i'))" using 2(8) l by simp
    have n: "length (rem i') < n" using l b assms(5) by linarith
    show thesis by (rule data [OF 2(1-3,5) b 2(7) f st n l])
  qed
qed

text \<open>What has been written is always a prefix of the input, and all of it on success.\<close>

lemma copy_loop_spec:
  assumes "inv i" "oinv s" "length buf = BUFFER_SIZE" "fits s (length (rem i))" "length (rem i) < n"
  shows "\<exists>b i' s' pre suf. copy_loop I W n buf i s = Ret (b, i', s') \<and> inv i' \<and> oinv s' \<and>
    rem i = pre @ suf \<and> abs s' = app (abs s) pre \<and> (b \<longrightarrow> suf = [])"
  using assms
proof (induction n arbitrary: buf i s)
  case (Suc n)
  show ?case
  proof (cases "rem i = []")
    case True
    with Suc.prems end_law [of i] app_Nil show ?thesis by (intro exI [of _ True]) auto
  next
    case False
    then have ne: "\<not> is_end I i" using end_law Suc.prems(1) by simp
    show ?thesis
    proof (cases rule: round_cases [OF Suc.prems False])
      case (1 buf' i' s')
      with ne app_Nil show ?thesis
        by (intro exI [of _ False] exI [of _ i'] exI [of _ s'] exI [of _ "[]"] exI [of _ "rem i"]) auto
    next
      case (2 bs i' s')
      from Suc.IH [OF 2(2,3,8,7,9)] obtain b i'' s'' pre suf where
        "copy_loop I W n (store buf bs) i' s' = Ret (b, i'', s'')" "inv i''" "oinv s''"
        "rem i' = pre @ suf" "abs s'' = app (abs s') pre" "b \<longrightarrow> suf = []" by blast
      with 2 ne app_append show ?thesis
        by (intro exI [of _ b] exI [of _ i''] exI [of _ s''] exI [of _ "bs @ pre"] exI [of _ suf]) simp
    qed
  qed
qed simp

text \<open>The loop with a \<^verbatim>\<open>Progresser\<close> also counts exactly what it has written.\<close>

lemma copy_progresser_loop_spec:
  assumes "inv i" "oinv s" "length buf = BUFFER_SIZE" "fits s (length (rem i))" "length (rem i) < n"
    and "0 < pr_total pr" "unat (pr_count pr) + length (rem i) \<le> unat (pr_total pr)"
  shows "\<exists>b i' s' pr' pre suf. copy_progresser_loop I W P n buf i s pr = Ret (b, i', s', pr') \<and>
    rem i = pre @ suf \<and> abs s' = app (abs s) pre \<and> (b \<longrightarrow> suf = []) \<and>
    unat (pr_count pr') = unat (pr_count pr) + length pre"
  using assms
proof (induction n arbitrary: buf i s pr)
  case (Suc n)
  show ?case
  proof (cases "rem i = []")
    case True
    with Suc.prems end_law [of i] app_Nil show ?thesis by (intro exI [of _ True]) auto
  next
    case False
    then have ne: "\<not> is_end I i" using end_law Suc.prems(1) by simp
    obtain cl pr1 where pc: "progresser_cancelled P pr = (cl, pr1)" by fastforce
    note k = progresser_cancelled_keeps [OF pc]
    show ?thesis
    proof (cases cl)
      case True
      with ne pc k app_Nil show ?thesis
        by (intro exI [of _ False] exI [of _ i] exI [of _ s] exI [of _ pr1] exI [of _ "[]"]
            exI [of _ "rem i"]) auto
    next
      case cl: False
      show ?thesis
      proof (cases rule: round_cases [OF Suc.prems(1-5) False])
        case (1 buf' i' s')
        with ne cl pc k app_Nil show ?thesis
          by (intro exI [of _ False] exI [of _ i'] exI [of _ s'] exI [of _ pr1] exI [of _ "[]"]
              exI [of _ "rem i"]) auto
      next
        case (2 bs i' s')
        have "0 < pr_total pr1" "unat (pr_count pr1) + length bs \<le> unat (pr_total pr1)"
          using Suc.prems 2 k by auto
        then obtain pr2 where u: "progresser_update P (of_int (int (length bs))) pr1 = Ret pr2"
          "pr_total pr2 = pr_total pr1" "unat (pr_count pr2) = unat (pr_count pr1) + length bs"
          by (rule update_counts)
        have t: "0 < pr_total pr2" "unat (pr_count pr2) + length (rem i') \<le> unat (pr_total pr2)"
          using u k 2(10) Suc.prems(6,7) by auto
        from Suc.IH [OF 2(2,3,8,7,9) t] obtain b i'' s'' pr' pre suf where
          "copy_progresser_loop I W P n (store buf bs) i' s' pr2 = Ret (b, i'', s'', pr')"
          "rem i' = pre @ suf" "abs s'' = app (abs s') pre" "b \<longrightarrow> suf = []"
          "unat (pr_count pr') = unat (pr_count pr2) + length pre" by blast
        with 2 ne cl pc k u app_append show ?thesis
          by (intro exI [of _ b] exI [of _ i''] exI [of _ s''] exI [of _ pr'] exI [of _ "bs @ pre"]
              exI [of _ suf]) simp
      qed
    qed
  qed
qed simp

text \<open>The loop with a \<^verbatim>\<open>Progress\<close>, on a stream that says its size or -1.\<close>

lemma progress_round:
  assumes "\<not> is_end I i" "pg_cancelled P p = (False, p1)"
    and "copy_chunk I W 8192 buf i s = Ret (int (length bs), buf', i', s')" "0 < length bs"
    and "tot = -1 \<or> (0 \<le> written \<and> written + int (length bs) \<le> tot \<and> tot * 100 < 2 ^ 63)"
  obtains p2 where "copy_progress_loop I W P tot (Suc n) written buf i s p =
    copy_progress_loop I W P tot n (if tot = -1 then written else written + int (length bs)) buf' i' s' p2"
proof (cases "tot = -1")
  case True
  with assms(1-3) show ?thesis by (intro that [of p1]) simp
next
  case False
  have "0 < int (length bs)" using assms(4) by (simp only: of_nat_0_less_iff)
  with False assms(5) have "0 < tot" "0 \<le> written + int (length bs)"
    "written + int (length bs) \<le> tot" "tot * 100 < 2 ^ 63" by linarith+
  then obtain q where "copy_percent (written + int (length bs)) tot = Ret q"
    by (rule copy_percent_returns)
  with assms(1-3) False show ?thesis by (intro that [of "pg_set_progress P q p1"]) simp
qed

lemma copy_progress_loop_spec:
  assumes "inv i" "oinv s" "length buf = BUFFER_SIZE" "fits s (length (rem i))" "length (rem i) < n"
    and "tot = -1 \<or> (0 \<le> written \<and> written + int (length (rem i)) \<le> tot \<and> tot * 100 < 2 ^ 63)"
  shows "\<exists>b i' s' p' pre suf. copy_progress_loop I W P tot n written buf i s p = Ret (b, i', s', p') \<and>
    rem i = pre @ suf \<and> abs s' = app (abs s) pre \<and>
    (b \<longrightarrow> suf = [] \<and> (tot \<noteq> -1 \<longrightarrow> (\<exists>q. p' = pg_set_progress P 100 q)))"
  using assms
proof (induction n arbitrary: buf i s p written)
  case (Suc n)
  show ?case
  proof (cases "rem i = []")
    case True
    with Suc.prems end_law [of i] app_Nil show ?thesis by (intro exI [of _ True]) auto
  next
    case False
    then have ne: "\<not> is_end I i" using end_law Suc.prems(1) by simp
    obtain cl p1 where pc: "pg_cancelled P p = (cl, p1)" by fastforce
    show ?thesis
    proof (cases cl)
      case True
      with ne pc app_Nil show ?thesis
        by (intro exI [of _ False] exI [of _ i] exI [of _ s] exI [of _ p1] exI [of _ "[]"]
            exI [of _ "rem i"]) auto
    next
      case cl: False
      show ?thesis
      proof (cases rule: round_cases [OF Suc.prems(1-5) False])
        case (1 buf' i' s')
        with ne cl pc app_Nil show ?thesis
          by (intro exI [of _ False] exI [of _ i'] exI [of _ s'] exI [of _ p1] exI [of _ "[]"]
              exI [of _ "rem i"]) auto
      next
        case (2 bs i' s')
        let ?w = "if tot = -1 then written else written + int (length bs)"
        have w: "tot = -1 \<or> (0 \<le> written \<and> written + int (length bs) \<le> tot \<and> tot * 100 < 2 ^ 63)"
          and w': "tot = -1 \<or> (0 \<le> ?w \<and> ?w + int (length (rem i')) \<le> tot \<and> tot * 100 < 2 ^ 63)"
          using Suc.prems(6) 2(10) by auto
        have pc': "pg_cancelled P p = (False, p1)" using pc cl by simp
        obtain p2 where step: "copy_progress_loop I W P tot (Suc n) written buf i s p =
            copy_progress_loop I W P tot n ?w (store buf bs) i' s' p2"
          by (rule progress_round [OF ne pc' 2(1,5) w])
        from Suc.IH [OF 2(2,3,8,7,9) w'] obtain b i'' s'' p' pre suf where
          "copy_progress_loop I W P tot n ?w (store buf bs) i' s' p2 = Ret (b, i'', s'', p')"
          "rem i' = pre @ suf" "abs s'' = app (abs s') pre"
          "b \<longrightarrow> suf = [] \<and> (tot \<noteq> -1 \<longrightarrow> (\<exists>q. p' = pg_set_progress P 100 q))" by blast
        with 2 step app_append show ?thesis
          by (intro exI [of _ b] exI [of _ i''] exI [of _ s''] exI [of _ p'] exI [of _ "bs @ pre"]
              exI [of _ suf]) simp
      qed
    qed
  qed
qed simp

end

section \<open>The loops on streams that do not fail\<close>

context out_sink begin

lemma pad_loop_spec:
  assumes "oinv s" "fits s (unat sz)" "unat sz < m"
    and "0 < pr_total pr" "unat (pr_count pr) + unat sz \<le> unat (pr_total pr)"
  shows "\<exists>s' pr'. pad_loop W P m sz s pr = Ret (True, s', pr') \<and> oinv s' \<and>
    abs s' = app (abs s) (replicate (unat sz) 0) \<and>
    unat (pr_count pr') = unat (pr_count pr) + unat sz"
  using assms
proof (induction m arbitrary: sz s pr)
  case (Suc m)
  show ?case
  proof (cases "sz = 0")
    case True
    with Suc.prems(1) app_Nil show ?thesis by simp
  next
    case False
    then have pos: "0 < sz" by (simp add: word_gt_0)
    define k where "k = unat (chunk_size sz)"
    have k: "0 < k" "k \<le> BUFFER_SIZE" "k \<le> unat sz"
      using chunk_size_pos [OF pos] by (auto simp: k_def unat_chunk_size)
    let ?z = "replicate k (0::byte)"
    have w: "write_from W (chunk_size sz) (replicate BUFFER_SIZE 0) s = os_write W ?z s"
      using k(2) by (simp add: write_from_def k_def [symmetric] min_def)
    have f: "fits s (length ?z + (unat sz - k))" and lt: "length ?z < 2 ^ 32"
      using Suc.prems(2) k by auto
    obtain s' where s': "os_write W ?z s = Ret (int (length ?z), s')" "oinv s'" "fits s' (unat sz - k)"
      "abs s' = app (abs s) ?z"
      by (rule write_data [OF Suc.prems(1) lt f])
    obtain pr' where u: "progresser_update P (of_int (int k)) pr = Ret pr'"
      "pr_total pr' = pr_total pr" "unat (pr_count pr') = unat (pr_count pr) + k"
      using Suc.prems(4,5) k(3) by (elim update_counts [where n = k]) auto
    have sz': "unat (sz - of_nat k) = unat sz - k"
      using k(3) unat_lt_u64 [of sz] by (subst unat_u64_diff) auto
    have "\<exists>s'' pr''. pad_loop W P m (sz - of_nat k) s' pr' = Ret (True, s'', pr'') \<and> oinv s'' \<and>
        abs s'' = app (abs s') (replicate (unat (sz - of_nat k)) 0) \<and>
        unat (pr_count pr'') = unat (pr_count pr') + unat (sz - of_nat k)"
      using Suc.prems s' u k sz' by (intro Suc.IH) auto
    then obtain s'' pr'' where r: "pad_loop W P m (sz - of_nat k) s' pr' = Ret (True, s'', pr'')"
      "oinv s''" "abs s'' = app (abs s') (replicate (unat sz - k) 0)"
      "unat (pr_count pr'') = unat (pr_count pr') + (unat sz - k)" unfolding sz' by blast
    have "replicate (unat sz) (0::byte) = ?z @ replicate (unat sz - k) 0"
      using k(3) by (simp add: replicate_add [symmetric])
    with r s' u w pos k show ?thesis
      by (intro exI [of _ s''] exI [of _ pr'']) (simp add: app_append)
  qed
qed simp

end

locale copy_sound = in_source I rem inv cmax + out_sink W abs app fits oinv
  for I :: "'i in_stream" and rem :: "'i \<Rightarrow> byte list" and inv :: "'i \<Rightarrow> bool"
    and cmax :: nat and W :: "'o out_stream" and abs :: "'o \<Rightarrow> 'a" and app :: "'a \<Rightarrow> byte list \<Rightarrow> 'a"
    and fits :: "'o \<Rightarrow> nat \<Rightarrow> bool" and oinv :: "'o \<Rightarrow> bool" +
  assumes cmax_sound: "BUFFER_SIZE \<le> cmax"
begin

sublocale copy_link I rem inv cmax W abs app fits oinv
  by unfold_locales (rule cmax_sound)

lemma chunk_data:
  assumes "inv i" "oinv s" "0 < unat c" "unat c \<le> length buf" "length buf = BUFFER_SIZE"
    and fits: "fits s k" and k: "min (unat c) (length (rem i)) \<le> k"
  obtains bs i' s' where "copy_chunk I W c buf i s = Ret (int (length bs), store buf bs, i', s')"
      "inv i'" "oinv s'" "length bs \<le> unat c" "rem i = bs @ rem i'" "rem i \<noteq> [] \<Longrightarrow> bs \<noteq> []"
      "abs s' = app (abs s) bs" "fits s' (k - length bs)"
proof -
  have cm: "unat c \<le> cmax" using assms(4,5) cmax_sound by simp
  obtain bs i' where r: "is_read I c i = Ret (int (length bs), bs, i')" "length bs \<le> unat c" "inv i'"
    "rem i = bs @ rem i'" "rem i \<noteq> [] \<Longrightarrow> bs \<noteq> []"
    by (rule read_data [OF assms(1,3) cm]) blast
  then have bs: "length bs \<le> k" "length bs \<le> BUFFER_SIZE" using assms(4,5) k by auto
  have w: "write_from W (of_nat (length bs)) (store buf bs) s = os_write W bs s"
    using write_from_store [of bs buf s] bs(2) assms(5) by simp
  have f: "fits s (length bs + (k - length bs))" using fits bs(1) by simp
  have lt: "length bs < 2 ^ 32" using bs(2) by simp
  obtain s' where "os_write W bs s = Ret (int (length bs), s')" "oinv s'" "fits s' (k - length bs)"
    "abs s' = app (abs s) bs"
    by (rule write_data [OF assms(2) lt f])
  with r bs w assms(5) show thesis
    by (intro that [of bs i' s']) (auto simp: copy_chunk_def read_into_def)
qed

lemma chunk_no_fail:
  assumes "inv i" "oinv s" "length buf = BUFFER_SIZE" "fits s (length (rem i))"
  shows "copy_chunk I W 8192 buf i s \<noteq> Ret (-1, buf', i', s')"
proof -
  have c: "0 < unat (8192::u32)" "unat (8192::u32) \<le> length buf" using assms(3) by auto
  show ?thesis by (rule chunk_data [OF assms(1,2) c assms(3,4) min.cobounded2]) simp
qed

text \<open>The plain copy gives everything to the output and says so.\<close>

lemma copy_complete:
  assumes "inv i" "oinv s" "length buf = BUFFER_SIZE" "fits s (length (rem i))" "length (rem i) < n"
  shows "\<exists>i' s'. copy I W n buf i s = Ret (True, i', s') \<and> inv i' \<and> oinv s' \<and> rem i' = [] \<and>
    abs s' = app (abs s) (rem i) \<and> fits s' 0"
  unfolding copy_def using assms
proof (induction n arbitrary: buf i s)
  case (Suc n)
  show ?case
  proof (cases "rem i = []")
    case True
    with Suc.prems end_law [of i] app_Nil show ?thesis by simp
  next
    case False
    then have ne: "\<not> is_end I i" using end_law Suc.prems(1) by simp
    show ?thesis
    proof (cases rule: round_cases [OF Suc.prems False])
      case (1 buf' i' s')
      with chunk_no_fail [OF Suc.prems(1-4)] show ?thesis by blast
    next
      case (2 bs i' s')
      from Suc.IH [OF 2(2,3,8,7,9)] 2 ne app_append show ?thesis by auto
    qed
  qed
qed simp

text \<open>
  The sized copy writes the first \<open>sz\<close> bytes of the input, padded with zero bytes, and counts
  them; only a cancelled one answers false.
\<close>

lemma copy_sized_loop_spec:
  assumes "inv i" "oinv s" "length buf = BUFFER_SIZE" "fits s (unat sz)" "unat sz < n" "unat sz < m"
    and "0 < pr_total pr" "unat (pr_count pr) + unat sz \<le> unat (pr_total pr)"
    and "\<forall>p. \<not> fst (pg_cancelled P p)"
  shows "\<exists>i' s' pr'. copy_sized_loop I W P m n sz buf i s pr = Ret (True, i', s', pr') \<and>
    abs s' = app (abs s) (take (unat sz) (rem i) @ replicate (unat sz - length (rem i)) 0) \<and>
    unat (pr_count pr') = unat (pr_count pr) + unat sz"
  using assms(1-8)
proof (induction n arbitrary: buf i s pr sz)
  case (Suc n)
  show ?case
  proof (cases "rem i = [] \<or> sz = 0")
    case True
    then have e: "is_end I i \<or> \<not> 0 < sz" using end_law [OF Suc.prems(1)] by auto
    obtain s' pr' where "pad_loop W P m sz s pr = Ret (True, s', pr')"
      "abs s' = app (abs s) (replicate (unat sz) 0)" "unat (pr_count pr') = unat (pr_count pr) + unat sz"
      using pad_loop_spec [OF Suc.prems(2,4,6,7,8)] by blast
    with e True show ?thesis by auto
  next
    case False
    then have pos: "0 < sz" and ne: "\<not> (is_end I i \<or> \<not> 0 < sz)"
      using end_law Suc.prems(1) by (auto simp: word_gt_0)
    have c: "0 < unat (chunk_size sz)" "unat (chunk_size sz) \<le> length buf"
      "min (unat (chunk_size sz)) (length (rem i)) \<le> unat sz"
      using chunk_size_pos [OF pos] Suc.prems(3) by (auto simp: unat_chunk_size)
    obtain pr1 where pc: "progresser_cancelled P pr = (False, pr1)"
      using assms(9) by (cases "progresser_cancelled P pr") (use progresser_cancelled_keeps in fastforce)
    note k = progresser_cancelled_keeps [OF pc]
    obtain bs i' s' where r: "copy_chunk I W (chunk_size sz) buf i s = Ret (int (length bs), store buf bs, i', s')"
      "inv i'" "oinv s'" "length bs \<le> unat (chunk_size sz)" "rem i = bs @ rem i'"
      "rem i \<noteq> [] \<Longrightarrow> bs \<noteq> []" "abs s' = app (abs s) bs" "fits s' (unat sz - length bs)"
      by (rule chunk_data [OF Suc.prems(1,2) c(1,2) Suc.prems(3,4) c(3)]) blast
    from r False have l: "0 < length bs" by simp
    have l': "length bs \<le> unat sz" "length bs \<le> BUFFER_SIZE" using r(4) by (auto simp: unat_chunk_size)
    have up: "0 < pr_total pr1" "unat (pr_count pr1) + length bs \<le> unat (pr_total pr1)"
      using Suc.prems(7,8) l' k by auto
    obtain pr2 where u: "progresser_update P (of_int (int (length bs))) pr1 = Ret pr2"
      "pr_total pr2 = pr_total pr1" "unat (pr_count pr2) = unat (pr_count pr1) + length bs"
      by (rule update_counts [OF up])
    have sz': "unat (sz - of_nat (length bs)) = unat sz - length bs"
      using l' unat_lt_u64 [of sz] by (subst unat_u64_diff) auto
    have lt: "unat sz - length bs < n" using Suc.prems(5) l l'(1) by linarith
    have "\<exists>i'' s'' pr'. copy_sized_loop I W P m n (sz - of_nat (length bs)) (store buf bs) i' s' pr2 =
          Ret (True, i'', s'', pr') \<and>
        abs s'' = app (abs s') (take (unat (sz - of_nat (length bs))) (rem i') @
          replicate (unat (sz - of_nat (length bs)) - length (rem i')) 0) \<and>
        unat (pr_count pr') = unat (pr_count pr2) + unat (sz - of_nat (length bs))"
      using Suc.prems r u k sz' lt l' by (intro Suc.IH) (auto simp: length_store)
    then obtain i'' s'' pr' where
      "copy_sized_loop I W P m n (sz - of_nat (length bs)) (store buf bs) i' s' pr2 = Ret (True, i'', s'', pr')"
      "abs s'' = app (abs s') (take (unat sz - length bs) (rem i') @
          replicate (unat sz - length bs - length (rem i')) 0)"
      "unat (pr_count pr') = unat (pr_count pr2) + (unat sz - length bs)" unfolding sz' by blast
    with r u k ne pc l' show ?thesis
      by (intro exI [of _ i''] exI [of _ s''] exI [of _ pr']) (simp add: app_append)
  qed
qed simp

end

end
