(* ===== verification/Memory_Stream.thy ===== *)
theory Memory_Stream
  imports Streams
begin

text \<open>
  The in-memory streams of \<^verbatim>\<open>src/memorystream.cc\<close> and the null stream of
  \<^verbatim>\<open>src/nullstream.cc\<close>. Positions and sizes are \<open>tuint32\<close> and wrap; a
  \<^verbatim>\<open>memcpy\<close> outside the objects it works on is \<open>Undef\<close>.
\<close>

section \<open>MemoryInStream\<close>

record memory_in =
  mi_data :: "byte list"   \<comment> \<open>the object \<open>data_\<close> points to\<close>
  mi_count :: u32
  mi_pos :: u32

definition MemoryInStream :: "byte list \<Rightarrow> u32 \<Rightarrow> memory_in" where
  "MemoryInStream data count = \<lparr>mi_data = data, mi_count = count, mi_pos = 0\<rparr>"

definition memory_in_end :: "memory_in \<Rightarrow> bool" where
  "memory_in_end s \<longleftrightarrow> mi_count s \<le> mi_pos s"

definition memory_in_seek :: "u32 \<Rightarrow> StreamWhence \<Rightarrow> memory_in \<Rightarrow> (bool \<times> memory_in) outcome" where
  "memory_in_seek distance whence s =
     (let pos = (if whence = ckSTREAM_BEGIN then 0 else mi_pos s)
      in Ret (True, s\<lparr>mi_pos := pos + distance\<rparr>))"

definition memory_in_read :: "u32 \<Rightarrow> memory_in \<Rightarrow> (int \<times> byte list \<times> memory_in) outcome" where
  "memory_in_read count s =
     (let to_read = (if mi_count s < mi_pos s + count then mi_count s - mi_pos s else count)
      in if unat (mi_pos s) + unat to_read \<le> length (mi_data s)
         then Ret (int (unat to_read), slice (mi_data s) (unat (mi_pos s)) (unat to_read),
                   s\<lparr>mi_pos := mi_pos s + to_read\<rparr>)
         else Undef)"

definition memory_in_size :: "memory_in \<Rightarrow> int" where
  "memory_in_size s = int (unat (mi_count s))"

definition memory_in_stream :: "memory_in in_stream" where
  "memory_in_stream = \<lparr>is_read = memory_in_read, is_size = memory_in_size,
     is_end = memory_in_end, is_seek = memory_in_seek\<rparr>"

text \<open>
  The stream keeps its contract while the position is within the data and the requests do not
  push the 32 bit sum \<open>pos_ + count\<close> over its range.
\<close>

definition memory_rem :: "memory_in \<Rightarrow> byte list" where
  "memory_rem s = drop (unat (mi_pos s)) (mi_data s)"

definition memory_inv :: "nat \<Rightarrow> memory_in \<Rightarrow> bool" where
  "memory_inv cmax s \<longleftrightarrow> unat (mi_count s) = length (mi_data s) \<and> mi_pos s \<le> mi_count s \<and>
     length (mi_data s) + cmax < 2 ^ 32"

lemma memory_in_read_eq:
  assumes inv: "memory_inv cmax s" and c: "unat c \<le> cmax"
  defines "n \<equiv> min (unat c) (length (memory_rem s))"
  shows "memory_in_read c s = Ret (int n, take n (memory_rem s), s\<lparr>mi_pos := mi_pos s + of_nat n\<rparr>)"
    and "memory_inv cmax (s\<lparr>mi_pos := mi_pos s + of_nat n\<rparr>)"
    and "memory_rem (s\<lparr>mi_pos := mi_pos s + of_nat n\<rparr>) = drop n (memory_rem s)"
proof -
  have p: "unat (mi_pos s) \<le> length (mi_data s)" and l: "unat (mi_count s) = length (mi_data s)"
    and b: "length (mi_data s) + cmax < 2 ^ 32"
    using inv by (auto simp: memory_inv_def word_le_nat_alt)
  have sum: "unat (mi_pos s + c) = unat (mi_pos s) + unat c"
    using p c b by (intro unat_u32_add) linarith
  define t where "t = (if mi_count s < mi_pos s + c then mi_count s - mi_pos s else c)"
  have t: "unat t = n"
    using sum p l by (auto simp: t_def n_def memory_rem_def word_less_nat_alt unat_u32_diff)
  then have tn: "t = of_nat n" by (metis of_nat_unat ucast_id)
  have n: "unat (mi_pos s) + n \<le> length (mi_data s)" using p by (auto simp: n_def memory_rem_def)
  have u: "unat (mi_pos s + of_nat n) = unat (mi_pos s) + n"
    using n b t tn by (subst unat_u32_add) auto
  show "memory_in_read c s = Ret (int n, take n (memory_rem s), s\<lparr>mi_pos := mi_pos s + of_nat n\<rparr>)"
    using n t by (simp add: memory_in_read_def Let_def t_def [symmetric] slice_def memory_rem_def tn [symmetric])
  show "memory_inv cmax (s\<lparr>mi_pos := mi_pos s + of_nat n\<rparr>)"
    using l b n u by (simp add: memory_inv_def word_le_nat_alt)
  show "memory_rem (s\<lparr>mi_pos := mi_pos s + of_nat n\<rparr>) = drop n (memory_rem s)"
    using u by (simp add: memory_rem_def add.commute)
qed

lemma memory_inv_init:
  "length data + cmax < 2 ^ 32 \<Longrightarrow> memory_inv cmax (MemoryInStream data (of_nat (length data)))"
  by (simp add: memory_inv_def MemoryInStream_def)

lemma memory_rem_init: "memory_rem (MemoryInStream data c) = data"
  by (simp add: memory_rem_def MemoryInStream_def)

interpretation mem_in: in_source memory_in_stream memory_rem "memory_inv cmax" cmax for cmax
proof
  fix s assume "memory_inv cmax s"
  then show "is_end memory_in_stream s \<longleftrightarrow> memory_rem s = []"
    by (simp add: memory_in_stream_def memory_in_end_def memory_inv_def memory_rem_def word_le_nat_alt)
next
  fix s c assume a: "memory_inv cmax s" "0 < unat (c::u32)" "unat c \<le> cmax"
  let ?n = "min (unat c) (length (memory_rem s))"
  show "\<exists>res bs s'. is_read memory_in_stream c s = Ret (res, bs, s') \<and> length bs \<le> unat c \<and>
      memory_inv cmax s' \<and> (res = -1 \<or> (res = int (length bs) \<and> memory_rem s = bs @ memory_rem s' \<and>
      (memory_rem s \<noteq> [] \<longrightarrow> bs \<noteq> [])))"
    using memory_in_read_eq [OF a(1,3)] a(2)
    by (intro exI [of _ "int ?n"] exI [of _ "take ?n (memory_rem s)"]
        exI [of _ "s\<lparr>mi_pos := mi_pos s + of_nat ?n\<rparr>"]) (auto simp: memory_in_stream_def)
next
  fix s c res bs s'
  assume "memory_inv cmax s" "unat (c::u32) \<le> cmax" "is_read memory_in_stream c s = Ret (res, bs, s')"
  then show "res \<noteq> -1"
    using memory_in_read_eq(1) by (auto simp: memory_in_stream_def)
qed

section \<open>MemoryOutStream\<close>

text \<open>
  \<open>alloc n\<close> says whether the allocation of \<open>n\<close> bytes succeeds (the code tests for a null
  pointer). The bytes of a fresh buffer are never read by the class and are 0 here.
\<close>

record memory_out =
  mo_buffer :: "byte list option"   \<comment> \<open>\<open>None\<close> is the null pointer\<close>
  mo_size :: u32
  mo_pos :: u32

definition MemoryOutStream :: "(u32 \<Rightarrow> bool) \<Rightarrow> u32 \<Rightarrow> memory_out" where
  "MemoryOutStream alloc buffer_size =
     (let n = (if buffer_size = 0 then 1024 else buffer_size)
      in if alloc n then \<lparr>mo_buffer = Some (replicate (unat n) 0), mo_size = n, mo_pos = 0\<rparr>
         else \<lparr>mo_buffer = None, mo_size = 0, mo_pos = 0\<rparr>)"

definition MemoryOutStream_default :: "(u32 \<Rightarrow> bool) \<Rightarrow> memory_out" where
  "MemoryOutStream_default alloc =
     (if alloc 1024 then \<lparr>mo_buffer = Some (replicate 1024 0), mo_size = 1024, mo_pos = 0\<rparr>
      else \<lparr>mo_buffer = None, mo_size = 0, mo_pos = 0\<rparr>)"

text \<open>
  The loop that doubles the buffer until \<open>need\<close> bytes fit. The doubled size wraps at 2 ^ 32; a
  new buffer smaller than the old contents is overrun by the \<^verbatim>\<open>memcpy\<close>. With a size of 0
  the loop would not end, which is \<open>Fuel\<close>.
\<close>

function grow :: "(u32 \<Rightarrow> bool) \<Rightarrow> u32 \<Rightarrow> byte list \<Rightarrow> u32 \<Rightarrow> (bool \<times> byte list \<times> u32) outcome" where
  "grow alloc need buf sz =
     (if need \<le> sz then Ret (True, buf, sz)
      else if sz = 0 then Fuel
      else let sz' = sz * 2 in
        if \<not> alloc sz' then Ret (False, buf, sz)
        else if sz' \<le> sz then Undef
        else grow alloc need (store (replicate (unat sz') 0) (take (unat sz) buf)) sz')"
  by pat_completeness auto
termination
  by (relation "measure (\<lambda>(alloc, need, buf, sz). 2 ^ 32 - unat sz)")
    (auto simp: not_le word_less_nat_alt intro!: diff_less_mono2 unat_lt_u32 [simplified])

declare grow.simps [simp del]

text \<open>From 2 GiB on the doubled size is 0, and the old contents are copied into an empty buffer.\<close>

lemma grow_wraps: "0x80000000 < need \<Longrightarrow> alloc 0 \<Longrightarrow> grow alloc need buf 0x80000000 = Undef"
proof -
  assume a: "0x80000000 < need" "alloc 0"
  have "(0x80000000 * 2 :: u32) = 0" by simp
  with a show ?thesis by (subst grow.simps) (simp only: Let_def, simp)
qed

definition memory_out_write :: "(u32 \<Rightarrow> bool) \<Rightarrow> byte list \<Rightarrow> memory_out \<Rightarrow> (int \<times> memory_out) outcome" where
  "memory_out_write alloc bs s = (case mo_buffer s of
       None \<Rightarrow> Ret (-1, s)
     | Some buf \<Rightarrow> let count = of_nat (length bs) in
         obind (grow alloc (mo_pos s + count) buf (mo_size s)) (\<lambda>(ok, buf', sz').
           let s' = s\<lparr>mo_buffer := Some buf', mo_size := sz'\<rparr> in
           if \<not> ok then Ret (-1, s')
           else if unat (mo_pos s) + length bs \<le> length buf'
             then Ret (int (length bs), s'\<lparr>mo_buffer := Some (blit buf' (unat (mo_pos s)) bs),
                                          mo_pos := mo_pos s + count\<rparr>)
             else Undef))"

definition memory_out_data :: "memory_out \<Rightarrow> byte list option" where
  "memory_out_data s = mo_buffer s"

definition memory_out_count :: "memory_out \<Rightarrow> u32" where
  "memory_out_count s = mo_pos s"

definition memory_out_destroy :: "memory_out \<Rightarrow> memory_out" where
  "memory_out_destroy s = (if mo_buffer s \<noteq> None then s\<lparr>mo_buffer := None\<rparr> else s)"

definition memory_out_stream :: "(u32 \<Rightarrow> bool) \<Rightarrow> memory_out out_stream" where
  "memory_out_stream alloc = \<lparr>os_write = memory_out_write alloc\<rparr>"

text \<open>
  What has been written: the first \<open>count()\<close> bytes of \<open>data()\<close>. Up to 2 GiB in total no size
  of the doubling wraps.
\<close>

definition memory_contents :: "memory_out \<Rightarrow> byte list" where
  "memory_contents s = (case memory_out_data s of None \<Rightarrow> [] | Some buf \<Rightarrow> take (unat (memory_out_count s)) buf)"

definition memory_fits :: "memory_out \<Rightarrow> nat \<Rightarrow> bool" where
  "memory_fits s n \<longleftrightarrow> unat (mo_pos s) + n \<le> 2 ^ 31"

definition memory_oinv :: "memory_out \<Rightarrow> bool" where
  "memory_oinv s \<longleftrightarrow> (case mo_buffer s of None \<Rightarrow> False
     | Some buf \<Rightarrow> length buf = unat (mo_size s) \<and> 0 < mo_size s \<and> mo_pos s \<le> mo_size s)"

lemma grow_spec:
  assumes "length buf = unat sz" "0 < sz" "unat need \<le> 2 ^ 31"
  shows "\<exists>ok buf' sz'. grow alloc need buf sz = Ret (ok, buf', sz') \<and> length buf' = unat sz' \<and>
    sz \<le> sz' \<and> take (unat sz) buf' = buf \<and> (ok \<longrightarrow> need \<le> sz') \<and> ((\<forall>n. alloc n) \<longrightarrow> ok)"
  using assms
proof (induction alloc need buf sz rule: grow.induct)
  case (1 alloc need buf sz)
  show ?case
  proof (cases "need \<le> sz \<or> \<not> alloc (sz * 2)")
    case True
    with 1(2,3) show ?thesis
      by (intro exI [of _ "need \<le> sz"] exI [of _ buf] exI [of _ sz])
        (auto simp: grow.simps [of alloc need buf sz] word_gt_0)
  next
    case False
    then have "unat sz < 2 ^ 31" using 1(4) by (simp add: word_le_nat_alt)
    then have d: "unat (sz * 2) = 2 * unat sz" by (simp add: unat_word_ariths)
    with 1(3) have gt: "\<not> sz * 2 \<le> sz" "sz \<noteq> 0"
      by (auto simp: word_le_nat_alt word_less_nat_alt)
    let ?b = "store (replicate (unat (sz * 2)) 0) (take (unat sz) buf)"
    have b: "length ?b = unat (sz * 2)" "take (unat sz) ?b = buf" using 1(2) d by (auto simp: store_def)
    have "\<exists>ok buf' sz'. grow alloc need ?b (sz * 2) = Ret (ok, buf', sz') \<and> length buf' = unat sz' \<and>
        sz * 2 \<le> sz' \<and> take (unat (sz * 2)) buf' = ?b \<and> (ok \<longrightarrow> need \<le> sz') \<and> ((\<forall>n. alloc n) \<longrightarrow> ok)"
      using False gt b 1(4) by (intro 1(1)) (auto simp: word_gt_0 not_le)
    then obtain ok buf' sz' where r: "grow alloc need ?b (sz * 2) = Ret (ok, buf', sz')"
      "length buf' = unat sz'" "sz * 2 \<le> sz'" "take (unat (sz * 2)) buf' = ?b" "ok \<longrightarrow> need \<le> sz'"
      "(\<forall>n. alloc n) \<longrightarrow> ok" by blast
    have "take (unat sz) buf' = take (unat sz) ?b"
      unfolding r(4) [symmetric] using d by (simp add: min_def)
    moreover have "sz \<le> sz'" using r(3) gt by simp
    moreover have "grow alloc need buf sz = grow alloc need ?b (sz * 2)"
      using False gt by (subst grow.simps) (simp add: Let_def)
    ultimately show ?thesis using r b by (intro exI [of _ ok] exI [of _ buf'] exI [of _ sz']) simp
  qed
qed

lemma memory_out_write_spec:
  assumes inv: "memory_oinv s" and fits: "memory_fits s (length bs + m)"
  shows "\<exists>res s'. memory_out_write alloc bs s = Ret (res, s') \<and> memory_oinv s' \<and> memory_fits s' m \<and>
    ((res = -1 \<and> memory_contents s' = memory_contents s) \<or>
     (res = int (length bs) \<and> memory_contents s' = memory_contents s @ bs)) \<and>
    ((\<forall>n. alloc n) \<longrightarrow> res \<noteq> -1)"
proof -
  obtain buf where buf: "mo_buffer s = Some buf" "length buf = unat (mo_size s)" "0 < mo_size s"
    "unat (mo_pos s) \<le> unat (mo_size s)"
    using inv by (auto simp: memory_oinv_def word_le_nat_alt split: option.splits)
  have "length bs < 2 ^ 32" using fits by (simp add: memory_fits_def)
  then have c: "unat (mo_pos s + of_nat (length bs)) = unat (mo_pos s) + length bs"
    using fits by (subst unat_u32_add) (auto simp: memory_fits_def)
  have "\<exists>ok buf' sz'. grow alloc (mo_pos s + of_nat (length bs)) buf (mo_size s) = Ret (ok, buf', sz') \<and>
      length buf' = unat sz' \<and> mo_size s \<le> sz' \<and> take (unat (mo_size s)) buf' = buf \<and>
      (ok \<longrightarrow> mo_pos s + of_nat (length bs) \<le> sz') \<and> ((\<forall>n. alloc n) \<longrightarrow> ok)"
    using buf fits c by (intro grow_spec) (auto simp: memory_fits_def)
  then obtain ok buf' sz' where g: "grow alloc (mo_pos s + of_nat (length bs)) buf (mo_size s) = Ret (ok, buf', sz')"
    "length buf' = unat sz'" "unat (mo_size s) \<le> unat sz'" "take (unat (mo_size s)) buf' = buf"
    "ok \<longrightarrow> unat (mo_pos s) + length bs \<le> unat sz'" "(\<forall>n. alloc n) \<longrightarrow> ok"
    using c by (auto simp: word_le_nat_alt)
  have t: "take (unat (mo_pos s)) buf' = take (unat (mo_pos s)) buf"
    unfolding g(4) [symmetric] using buf(4) by (simp add: min_def)
  show ?thesis
  proof (cases ok)
    case True
    with g buf c fits t show ?thesis
      by (auto simp: memory_out_write_def Let_def memory_oinv_def memory_fits_def memory_contents_def
          memory_out_data_def memory_out_count_def word_le_nat_alt word_less_nat_alt buf_simps)
  next
    case False
    with g buf fits t show ?thesis
      by (auto simp: memory_out_write_def Let_def memory_oinv_def memory_fits_def memory_contents_def
          memory_out_data_def memory_out_count_def word_le_nat_alt word_less_nat_alt)
  qed
qed

interpretation mem_out: out_contract "memory_out_stream alloc" memory_contents "(@)" memory_fits memory_oinv
  for alloc
proof
  fix s :: memory_out and bs :: "byte list" and m
  assume "memory_oinv s" "memory_fits s (length bs + m)"
  then show "\<exists>res s'. os_write (memory_out_stream alloc) bs s = Ret (res, s') \<and> memory_oinv s' \<and>
      memory_fits s' m \<and> (res = -1 \<and> memory_contents s' = memory_contents s \<or>
      res = int (length bs) \<and> memory_contents s' = memory_contents s @ bs)"
    using memory_out_write_spec [of s bs m alloc] by (auto simp: memory_out_stream_def)
qed (auto simp: memory_fits_def)

abbreviation alloc_ok :: "u32 \<Rightarrow> bool" where "alloc_ok \<equiv> (\<lambda>_. True)"

interpretation mem_sink: out_sink "memory_out_stream alloc_ok" memory_contents "(@)" memory_fits memory_oinv
proof
  fix s s' :: memory_out and bs :: "byte list" and res
  assume "memory_oinv s" "memory_fits s (length bs)" "os_write (memory_out_stream alloc_ok) bs s = Ret (res, s')"
  then show "res \<noteq> -1"
    using memory_out_write_spec [of s bs 0 alloc_ok] by (auto simp: memory_out_stream_def)
qed

lemma memory_oinv_init: "memory_oinv (MemoryOutStream alloc_ok n)"
  by (simp add: memory_oinv_def MemoryOutStream_def Let_def word_gt_0)

lemma memory_contents_init: "memory_contents (MemoryOutStream alloc n) = []"
  by (simp add: memory_contents_def MemoryOutStream_def Let_def memory_out_data_def memory_out_count_def)

lemma memory_fits_init: "n \<le> 2 ^ 31 \<Longrightarrow> memory_fits (MemoryOutStream alloc k) n"
  by (simp add: memory_fits_def MemoryOutStream_def Let_def)

text \<open>C11: The object is well formed after every sequence of writes, whatever the allocator answers: the buffer has
  exactly the size the object says, and the position is within it. No write is undefined, each answers
  -1 or its count, and the contents are the pieces that were not refused.\<close>

theorem memory_out_well_formed:
  assumes "alloc (if n = 0 then 1024 else n)" "length (concat pieces) \<le> 2 ^ 31"
  shows "\<exists>rs s buf. write_all (memory_out_stream alloc) pieces (MemoryOutStream alloc n) = Ret (rs, s) \<and>
    mo_buffer s = Some buf \<and> length buf = unat (mo_size s) \<and> mo_pos s \<le> mo_size s \<and>
    list_all2 (\<lambda>bs r. r = -1 \<or> r = int (length bs)) pieces rs \<and> memory_contents s = accepted pieces rs"
proof -
  have i: "memory_oinv (MemoryOutStream alloc n)"
    using assms(1) by (auto simp: memory_oinv_def MemoryOutStream_def Let_def word_gt_0)
  have "length bs < 2 ^ 32" if "bs \<in> set pieces" for bs
  proof -
    have "length bs \<le> length (concat pieces)" using that by (induction pieces) auto
    with assms(2) show ?thesis by simp
  qed
  moreover have "memory_fits (MemoryOutStream alloc n) (length (concat pieces) + 0)"
    using assms(2) by (intro memory_fits_init) simp
  ultimately obtain rs s where r: "write_all (memory_out_stream alloc) pieces (MemoryOutStream alloc n) = Ret (rs, s)"
    "memory_oinv s" "list_all2 (\<lambda>bs r. r = -1 \<or> r = int (length bs)) pieces rs"
    "memory_contents s = accepted pieces rs"
    using mem_out.write_all_cases [OF i, of pieces 0 alloc] by (auto simp: memory_contents_init)
  obtain buf where "mo_buffer s = Some buf" "length buf = unat (mo_size s)" "mo_pos s \<le> mo_size s"
    using r(2) by (auto simp: memory_oinv_def split: option.splits)
  with r show ?thesis by blast
qed

theorem memory_out_well_formed_witness:
  "\<exists>rs s buf. write_all (memory_out_stream (\<lambda>k. k \<le> 4)) [[1, 2, 3], [4, 5], [6]] (MemoryOutStream (\<lambda>k. k \<le> 4) 2) = Ret (rs, s) \<and>
    mo_buffer s = Some buf \<and> length buf = unat (mo_size s) \<and> mo_pos s \<le> mo_size s \<and>
    list_all2 (\<lambda>bs r. r = -1 \<or> r = int (length bs)) [[1, 2, 3], [4, 5], [6 :: byte]] rs \<and>
    memory_contents s = accepted [[1, 2, 3], [4, 5], [6]] rs"
  by (rule memory_out_well_formed) simp_all

section \<open>NullStream\<close>

record null_stream =
  ns_written :: u64

definition NullStream :: null_stream where
  "NullStream = \<lparr>ns_written = 0\<rparr>"

definition null_written :: "null_stream \<Rightarrow> u64" where
  "null_written s = ns_written s"

definition null_write :: "byte list \<Rightarrow> null_stream \<Rightarrow> (int \<times> null_stream) outcome" where
  "null_write bs s = (let count = of_nat (length bs) :: u32
     in Ret (int (unat count), s\<lparr>ns_written := ns_written s + ucast count\<rparr>))"

definition null_out_stream :: "null_stream out_stream" where
  "null_out_stream = \<lparr>os_write = null_write\<rparr>"

interpretation null_sink: out_sink null_out_stream null_written
  "\<lambda>w bs. w + of_nat (length bs)" "\<lambda>_ _. True" "\<lambda>_. True"
proof
  fix s :: null_stream and bs :: "byte list"
  assume l: "length bs < 2 ^ 32"
  have "ucast (of_nat (length bs) :: u32) = (of_nat (length bs) :: u64)"
    using l by (subst of_nat_unat [symmetric]) simp
  with l show "\<exists>res s'. os_write null_out_stream bs s = Ret (res, s') \<and> True \<and> True \<and>
      (res = -1 \<and> null_written s' = null_written s \<or>
       res = int (length bs) \<and> null_written s' = null_written s + of_nat (length bs))"
    by (simp add: null_out_stream_def null_write_def null_written_def Let_def)
qed (auto simp: null_out_stream_def null_write_def Let_def)

end
