(* ===== verification/Crc_Stream.thy ===== *)
theory Crc_Stream
  imports Streams
begin

text \<open>
  The checksum stream of \<^verbatim>\<open>src/crcstream.cc\<close>: the constructor that builds the
  256 entry table, and the table driven \<^verbatim>\<open>write\<close>. The specification is the bit at a time
  algorithm: one shift register step per message bit.
\<close>

section \<open>The class\<close>

datatype CrcType = ckCRC_16 | ckCRC_32 | ckCRC_CCITT

record crc_stream =
  cs_reflect :: bool
  cs_order :: nat
  cs_mask :: u32
  cs_initial :: u32
  cs_final :: u32
  cs_checksum :: u32
  cs_table :: "u32 list"

text \<open>\<open>CrcStream::reflect\<close>: the \<open>for\<close> loop moves \<open>i\<close> down and \<open>j\<close> up one bit a round.\<close>

lemma unat_half: "i \<noteq> 0 \<Longrightarrow> unat (shr (i :: u32) (Suc 0)) < unat i"
  by (simp add: shr_def drop_bit_eq_div unat_div unat_gt_0)

function reflect_loop :: "u32 \<Rightarrow> u32 \<Rightarrow> u32 \<Rightarrow> u32 \<Rightarrow> u32" where
  "reflect_loop crc i j result =
     (if i = 0 then result
      else reflect_loop crc (shr i 1) (shl j 1) (if crc AND i \<noteq> 0 then result OR j else result))"
  by pat_completeness auto
termination
  by (relation "measure (\<lambda>(crc, i, j, result). unat i)") (auto simp: unat_half)

declare reflect_loop.simps [simp del]

definition reflect :: "u32 \<Rightarrow> nat \<Rightarrow> u32" where
  "reflect crc n = reflect_loop crc (shl 1 (n - 1)) 1 0"

text \<open>One round of the inner loop of the constructor, and an entry of the table.\<close>

definition table_round :: "u32 \<Rightarrow> u32 \<Rightarrow> u32 \<Rightarrow> u32" where
  "table_round high poly crc = (if crc AND high \<noteq> 0 then shl crc 1 XOR poly else shl crc 1)"

definition table_entry :: "bool \<Rightarrow> nat \<Rightarrow> u32 \<Rightarrow> u32 \<Rightarrow> nat \<Rightarrow> u32" where
  "table_entry rfl order poly msk i =
     (let high = shl 1 (order - 1);
          crc0 = shl (if rfl then reflect (of_nat i) 8 else of_nat i) (order - 8);
          crc = (table_round high poly ^^ 8) crc0
      in (if rfl then reflect crc order else crc) AND msk)"

definition crc_poly :: "CrcType \<Rightarrow> u32" where
  "crc_poly t = (case t of ckCRC_16 \<Rightarrow> 0x8005 | ckCRC_32 \<Rightarrow> 0x04c11db7 | ckCRC_CCITT \<Rightarrow> 0x1021)"

definition CrcStream :: "CrcType \<Rightarrow> crc_stream" where
  "CrcStream t =
     (let rfl = (t \<noteq> ckCRC_CCITT);
          order = (case t of ckCRC_32 \<Rightarrow> 32 | _ \<Rightarrow> 16);
          initv = (case t of ckCRC_16 \<Rightarrow> 0xffff | ckCRC_32 \<Rightarrow> 0xffffffff | ckCRC_CCITT \<Rightarrow> 0);
          high = shl (1::u32) (order - 1);
          msk = shl (high - 1) 1 OR 1
      in \<lparr>cs_reflect = rfl, cs_order = order, cs_mask = msk, cs_initial = initv, cs_final = initv,
          cs_checksum = initv, cs_table = map (table_entry rfl order (crc_poly t) msk) [0..<256]\<rparr>)"

definition crc_reset :: "crc_stream \<Rightarrow> crc_stream" where
  "crc_reset s = s\<lparr>cs_checksum := cs_initial s\<rparr>"

definition crc_checksum :: "crc_stream \<Rightarrow> u32" where
  "crc_checksum s = cs_checksum s XOR cs_final s"

definition crc_step :: "crc_stream \<Rightarrow> u32 \<Rightarrow> byte \<Rightarrow> u32" where
  "crc_step s c b = (if cs_reflect s
     then shr c 8 XOR cs_table s ! unat ((c AND 0xff) XOR ucast b)
     else (shl c 8 XOR cs_table s ! unat ((shr c (cs_order s - 8) AND 0xff) XOR ucast b)) AND cs_mask s)"

definition crc_write :: "byte list \<Rightarrow> crc_stream \<Rightarrow> (int \<times> crc_stream) outcome" where
  "crc_write bs s = Ret (int (length bs), s\<lparr>cs_checksum := foldl (crc_step s) (cs_checksum s) bs\<rparr>)"

definition crc_out_stream :: "crc_stream out_stream" where
  "crc_out_stream = \<lparr>os_write = crc_write\<rparr>"

section \<open>The specification: one bit at a time\<close>

text \<open>
  Most significant bit first in an \<open>n\<close> bit register, and the mirrored least significant bit
  first form, which the reflected types use.
\<close>

definition bit_step_msb :: "nat \<Rightarrow> u32 \<Rightarrow> u32 \<Rightarrow> u32" where
  "bit_step_msb n poly c = take_bit n (if bit c (n - 1) then shl c 1 XOR poly else shl c 1)"

definition bit_step_lsb :: "u32 \<Rightarrow> u32 \<Rightarrow> u32" where
  "bit_step_lsb rpoly c = (if bit c 0 then shr c 1 XOR rpoly else shr c 1)"

definition crc_byte :: "CrcType \<Rightarrow> u32 \<Rightarrow> byte \<Rightarrow> u32" where
  "crc_byte t c b = (case t of
      ckCRC_16 \<Rightarrow> (bit_step_lsb 0xa001 ^^ 8) (c XOR ucast b)
    | ckCRC_32 \<Rightarrow> (bit_step_lsb 0xedb88320 ^^ 8) (c XOR ucast b)
    | ckCRC_CCITT \<Rightarrow> (bit_step_msb 16 0x1021 ^^ 8) (c XOR shl (ucast b) 8))"

section \<open>Reflection\<close>

lemma bit_one_shl: "bit (shl (1::u32) m) k \<longleftrightarrow> k = m \<and> m < 32"
  by (auto simp: bit_shl bit_1_iff)

lemma and_one_shl: "m < 32 \<Longrightarrow> (crc::u32) AND shl 1 m \<noteq> 0 \<longleftrightarrow> bit crc m"
proof -
  assume m: "m < 32"
  have "crc AND shl 1 m = 0 \<longleftrightarrow> (\<forall>n<32. \<not> bit (crc AND shl 1 m) n)"
    by (auto intro: word32_eqI)
  then show ?thesis using m by (auto simp: bit_and_iff bit_one_shl)
qed

lemma one_shl_0: "m < 32 \<Longrightarrow> shl (1::u32) m \<noteq> 0"
  using bit_one_shl [of m m] by auto

lemma shl_one_shifts: "shr (shl (1::u32) (Suc m)) 1 = (if m < 31 then shl 1 m else 0)"
  "shl (shl (1::u32) t) 1 = shl 1 (Suc t)" "shr (shl (1::u32) 0) 1 = 0"
  by (auto intro!: word32_eqI simp: bit_shr bit_shl bit_1_iff)

lemma reflect_loop_0 [simp]: "reflect_loop crc 0 j result = result"
  by (simp add: reflect_loop.simps)

lemma reflect_loop_bit:
  "m + t < 32 \<Longrightarrow> bit (reflect_loop crc (shl 1 m) (shl 1 t) result) k \<longleftrightarrow>
     bit result k \<or> (t \<le> k \<and> k \<le> t + m \<and> bit crc (m - (k - t)))"
proof (induction m arbitrary: t result)
  case 0
  have "reflect_loop crc (shl 1 0) (shl 1 t) result =
      (if crc AND shl 1 0 \<noteq> 0 then result OR shl 1 t else result)"
    using one_shl_0 [of 0, simplified] by (subst reflect_loop.simps) (simp only: shl_one_shifts reflect_loop_0 if_False)
  with 0 show ?case by (auto simp: and_one_shl bit_or_iff bit_one_shl)
next
  case (Suc m)
  have "reflect_loop crc (shl 1 (Suc m)) (shl 1 t) result = reflect_loop crc (shl 1 m) (shl 1 (Suc t))
      (if crc AND shl 1 (Suc m) \<noteq> 0 then result OR shl 1 t else result)"
    using Suc.prems one_shl_0 [of "Suc m"] by (subst reflect_loop.simps) (simp add: shl_one_shifts [simplified])
  then have "bit (reflect_loop crc (shl 1 (Suc m)) (shl 1 t) result) k \<longleftrightarrow>
      bit (if crc AND shl 1 (Suc m) \<noteq> 0 then result OR shl 1 t else result) k \<or>
      (Suc t \<le> k \<and> k \<le> Suc t + m \<and> bit crc (m - (k - Suc t)))"
    using Suc.prems Suc.IH [of "Suc t"] by simp
  also have "\<dots> \<longleftrightarrow> bit result k \<or> (t \<le> k \<and> k \<le> t + Suc m \<and> bit crc (Suc m - (k - t)))"
    using Suc.prems by (cases "k = t") (auto simp: and_one_shl bit_or_iff bit_one_shl Suc_diff_Suc)
  finally show ?case .
qed

lemma bit_reflect: "0 < n \<Longrightarrow> n \<le> 32 \<Longrightarrow> bit (reflect crc n) k \<longleftrightarrow> k < n \<and> bit crc (n - Suc k)"
  using reflect_loop_bit [of "n - 1" 0 crc 0 k] by (auto simp: reflect_def shl_def)

lemma reflect_xor: "0 < n \<Longrightarrow> n \<le> 32 \<Longrightarrow> reflect (a XOR b) n = reflect a n XOR reflect b n"
  by (auto intro!: word32_eqI simp: bit_reflect bit_xor_iff)

lemma bit_of_byte: "i < 256 \<Longrightarrow> bit (of_nat i :: u32) k \<Longrightarrow> k < 8"
proof (rule ccontr)
  assume i: "i < 256" and b: "bit (of_nat i :: u32) k" and k: "\<not> k < 8"
  have "take_bit 8 (of_nat i :: u32) = of_nat i"
    using i by (simp add: take_bit_of_nat take_bit_nat_eq_self)
  with b k show False by (metis bit_take_bit_iff)
qed

lemma reflect_byte:
  assumes "i < 256" "8 \<le> n" "n \<le> 32"
  shows "reflect (shl (reflect (of_nat i) 8) (n - 8)) n = of_nat i"
proof (rule word32_eqI)
  fix k :: nat assume "k < 32"
  show "bit (reflect (shl (reflect (of_nat i) 8) (n - 8)) n) k = bit (of_nat i :: u32) k"
  proof (cases "k < 8")
    case True
    then have "n - Suc k - (n - 8) = 7 - k" "n - 8 \<le> n - Suc k" "8 - Suc (7 - k) = k"
      using assms by linarith+
    moreover have "n - Suc k < 32" "7 - k < 8" using assms by linarith+
    ultimately show ?thesis using True assms by (simp add: bit_reflect bit_shl)
  next
    case False
    with assms bit_of_byte [OF assms(1), of k] show ?thesis by (auto simp: bit_reflect bit_shl)
  qed
qed

lemma reflect_round:
  assumes "0 < n" "n \<le> 32"
  shows "reflect (table_round (shl 1 (n - Suc 0)) poly c) n = bit_step_lsb (reflect poly n) (reflect c n)"
proof -
  have b0: "bit (reflect c n) 0 \<longleftrightarrow> bit c (n - Suc 0)" using assms by (simp add: bit_reflect)
  have sh: "reflect (shl c 1) n = shr (reflect c n) 1"
  proof (rule word32_eqI)
    fix k :: nat
    show "bit (reflect (shl c 1) n) k = bit (shr (reflect c n) 1) k"
      using assms by (cases "Suc k < n") (auto simp: bit_reflect bit_shl bit_shr)
  qed
  have "n - Suc 0 < 32" using assms by simp
  then show ?thesis using assms b0 sh
    by (simp add: table_round_def bit_step_lsb_def and_one_shl reflect_xor)
qed

lemma reflect_rounds:
  "0 < n \<Longrightarrow> n \<le> 32 \<Longrightarrow>
   reflect ((table_round (shl 1 (n - Suc 0)) poly ^^ j) c) n = (bit_step_lsb (reflect poly n) ^^ j) (reflect c n)"
  by (induction j) (simp_all add: reflect_round)

section \<open>Linearity\<close>

lemma bit_step_lsb_xor: "bit_step_lsb p (a XOR b) = bit_step_lsb p a XOR bit_step_lsb p b"
  by (rule word32_eqI) (auto simp: bit_step_lsb_def bit_xor_iff bit_shr)

lemma bit_steps_lsb_xor: "(bit_step_lsb p ^^ j) (a XOR b) = (bit_step_lsb p ^^ j) a XOR (bit_step_lsb p ^^ j) b"
  by (induction j) (simp_all add: bit_step_lsb_xor)

lemma bit_steps_lsb_zero: "(\<forall>k<j. \<not> bit h k) \<Longrightarrow> (bit_step_lsb p ^^ j) h = shr h j"
proof (induction j)
  case (Suc j)
  then have "\<not> bit (shr h j) 0" by (simp add: bit_shr)
  then have "bit_step_lsb p (shr h j) = shr h (Suc j)"
    by (auto intro!: word32_eqI simp: bit_step_lsb_def bit_shr)
  with Suc show ?case by simp
qed (simp add: shr_def)

lemma bit_step_msb_xor: "bit_step_msb n p (a XOR b) = bit_step_msb n p a XOR bit_step_msb n p b"
  by (rule word32_eqI) (auto simp: bit_step_msb_def bit_xor_iff bit_take_bit_iff bit_shl)

lemma bit_steps_msb_xor: "(bit_step_msb n p ^^ j) (a XOR b) = (bit_step_msb n p ^^ j) a XOR (bit_step_msb n p ^^ j) b"
  by (induction j) (simp_all add: bit_step_msb_xor)

lemma bit_steps_msb_zero:
  "j \<le> n \<Longrightarrow> n \<le> 32 \<Longrightarrow> (\<And>k. bit h k \<Longrightarrow> k < n - j) \<Longrightarrow> (bit_step_msb n p ^^ j) h = shl h j"
proof (induction j)
  case (Suc j)
  have ih: "(bit_step_msb n p ^^ j) h = shl h j"
    using Suc.prems by (intro Suc.IH) (auto dest: Suc.prems(3))
  have "\<not> bit h (n - Suc j)" using Suc.prems(3) [of "n - Suc j"] by blast
  then have "\<not> bit (shl h j) (n - 1)" using Suc.prems(1) by (simp add: bit_shl)
  moreover have "bit h k \<Longrightarrow> k + Suc j < n" for k
    using Suc.prems(1) Suc.prems(3) [of k] by linarith
  ultimately have "bit_step_msb n p (shl h j) = shl h (Suc j)"
    by (intro word32_eqI) (fastforce simp: bit_step_msb_def bit_take_bit_iff bit_shl)
  with ih show ?case by simp
qed (simp add: shl_def)

lemma rounds_msb:
  assumes "0 < n" "n \<le> 32"
  shows "take_bit n ((table_round (shl 1 (n - Suc 0)) p ^^ j) c) = (bit_step_msb n p ^^ j) (take_bit n c)"
proof (induction j)
  case (Suc j)
  define x where "x = (table_round (shl 1 (n - Suc 0)) p ^^ j) c"
  have "n - Suc 0 < 32" "n - Suc 0 < n" using assms by simp_all
  then have "take_bit n (table_round (shl 1 (n - Suc 0)) p x) = bit_step_msb n p (take_bit n x)"
    by (intro word32_eqI) (auto simp: table_round_def bit_step_msb_def and_one_shl bit_take_bit_iff
        bit_shl bit_xor_iff)
  with Suc show ?case by (simp add: x_def)
qed simp

section \<open>The table is the specification applied to one byte\<close>

text \<open>The reflected types take the mirrored polynomial.\<close>

definition crc_rpoly :: "CrcType \<Rightarrow> u32" where
  "crc_rpoly t = (case t of ckCRC_16 \<Rightarrow> 0xa001 | _ \<Rightarrow> 0xedb88320)"

lemma mask_values:
  "shl (shl (1::u32) (16 - 1) - 1) 1 OR 1 = 0xffff"
  "shl (shl (1::u32) (32 - 1) - 1) 1 OR 1 = 0xffffffff"
  by (simp_all add: shl_def)

lemma reflect_polys: "reflect 0x8005 16 = 0xa001" "reflect 0x04c11db7 32 = 0xedb88320"
  by (simp_all add: reflect_def reflect_loop.simps shl_def shr_def)

lemma and_ffff: "x AND 0xffff = take_bit 16 (x :: u32)"
  by (simp add: take_bit_eq_mask mask_eq_exp_minus_1)

lemma and_ff: "x AND 0xff = take_bit 8 (x :: u32)"
  by (simp add: take_bit_eq_mask mask_eq_exp_minus_1)

lemma and_ffffffff: "x AND 0xffffffff = (x :: u32)"
proof -
  have "(0xffffffff :: u32) = NOT 0" by simp
  then show ?thesis by (metis bit.conj_one_right bit.compl_zero)
qed

lemma table_entry_lsb:
  assumes "i < 256" "n = 16 \<or> n = 32"
  shows "reflect ((table_round (shl 1 (n - Suc 0)) p ^^ 8) (shl (reflect (of_nat i) 8) (n - 8))) n =
    (bit_step_lsb (reflect p n) ^^ 8) (of_nat i)"
proof -
  have n: "8 \<le> n" "n \<le> 32" "0 < n" using assms(2) by auto
  show ?thesis unfolding reflect_rounds [OF n(3,2)] reflect_byte [OF assms(1) n(1,2)] ..
qed

lemma reflect_masked: "reflect c 16 AND 0xffff = reflect c 16"
  unfolding and_ffff by (auto intro!: word32_eqI simp: bit_take_bit_iff bit_reflect)

lemma crc_table_nth:
  "i < 256 \<Longrightarrow> cs_table (CrcStream ckCRC_16) ! i =
     reflect ((table_round (shl 1 (16 - Suc 0)) 0x8005 ^^ 8) (shl (reflect (of_nat i) 8) (16 - 8))) 16"
  "i < 256 \<Longrightarrow> cs_table (CrcStream ckCRC_32) ! i =
     reflect ((table_round (shl 1 (32 - Suc 0)) 0x04c11db7 ^^ 8) (shl (reflect (of_nat i) 8) (32 - 8))) 32"
  "i < 256 \<Longrightarrow> cs_table (CrcStream ckCRC_CCITT) ! i =
     take_bit 16 ((table_round (shl 1 (16 - Suc 0)) 0x1021 ^^ 8) (shl (of_nat i) (16 - 8)))"
  by (simp_all add: CrcStream_def Let_def table_entry_def crc_poly_def mask_values [simplified]
      reflect_masked [unfolded and_ffff] and_ffffffff and_ffff del: upt.simps)

lemma crc_table_lsb:
  assumes "i < 256" "t \<noteq> ckCRC_CCITT"
  shows "cs_table (CrcStream t) ! i = (bit_step_lsb (crc_rpoly t) ^^ 8) (of_nat i)"
  using assms by (cases t)
    (simp_all only: crc_table_nth table_entry_lsb reflect_polys crc_rpoly_def CrcType.case simp_thms)

lemma crc_table_msb:
  assumes "i < 256"
  shows "cs_table (CrcStream ckCRC_CCITT) ! i = (bit_step_msb 16 0x1021 ^^ 8) (shl (of_nat i) 8)"
proof -
  have "take_bit 16 (shl (of_nat i :: u32) 8) = shl (of_nat i) 8"
    using bit_of_byte [OF assms] by (intro word32_eqI) (fastforce simp: bit_take_bit_iff bit_shl)
  then show ?thesis
    using crc_table_nth(3) [OF assms] rounds_msb [where n = 16 and p = "0x1021" and j = 8 and c = "shl (of_nat i) 8"] by simp
qed

section \<open>The table driven step\<close>

lemma bit_byte: "bit (ucast (b::byte) :: u32) k \<Longrightarrow> k < 8"
  using bit_imp_le_length [of b k] by (simp add: bit_ucast_iff)

lemma low_byte: "take_bit 8 (c XOR ucast (b::byte)) = (take_bit 8 c XOR ucast b :: u32)"
  by (rule word32_eqI) (auto simp: bit_take_bit_iff bit_xor_iff dest: bit_byte)

lemma unat_low_byte: "unat (take_bit 8 (x :: u32)) < 256"
  by (simp add: unsigned_take_bit_eq take_bit_nat_less_exp [of 8, simplified])

lemma lsb_byte_step:
  "(bit_step_lsb p ^^ 8) (c XOR ucast (b::byte)) =
    shr c 8 XOR (bit_step_lsb p ^^ 8) (take_bit 8 c XOR ucast b)"
proof -
  define x where "x = (c XOR ucast b :: u32)"
  have "x = shl (shr x 8) 8 XOR take_bit 8 x"
    by (rule word32_eqI) (auto simp: bit_xor_iff bit_take_bit_iff bit_shl bit_shr)
  moreover have "(bit_step_lsb p ^^ 8) (shl (shr x 8) 8) = shr (shl (shr x 8) 8) 8"
    by (rule bit_steps_lsb_zero) (auto simp: bit_shl)
  moreover have "shr (shl (shr x 8) 8) 8 = shr c 8"
    by (rule word32_eqI) (auto simp: x_def bit_shl bit_shr bit_xor_iff dest: bit_byte bit_high)
  ultimately show ?thesis
    using low_byte [of c b] unfolding x_def by (metis bit_steps_lsb_xor)
qed

lemma msb_byte_step:
  assumes c: "\<forall>k. bit c k \<longrightarrow> k < 16"
  shows "(bit_step_msb 16 p ^^ 8) (c XOR shl (ucast (b::byte)) 8) =
    take_bit 16 (shl c 8) XOR (bit_step_msb 16 p ^^ 8) (shl (take_bit 8 (shr c 8) XOR ucast b) 8)"
proof -
  have "c XOR shl (ucast b) 8 = take_bit 8 c XOR shl (take_bit 8 (shr c 8) XOR ucast b) 8"
    by (rule word32_eqI)
      (auto simp: bit_xor_iff bit_take_bit_iff bit_shl bit_shr dest: c [rule_format] bit_byte)
  moreover have "(bit_step_msb 16 p ^^ 8) (take_bit 8 c) = shl (take_bit 8 c) 8"
    by (rule bit_steps_msb_zero) (auto simp: bit_take_bit_iff)
  moreover have "shl (take_bit 8 c) 8 = take_bit 16 (shl c 8)"
    by (rule word32_eqI) (auto simp: bit_take_bit_iff bit_shl)
  ultimately show ?thesis by (metis bit_steps_msb_xor)
qed

definition crc_inv :: "CrcType \<Rightarrow> crc_stream \<Rightarrow> bool" where
  "crc_inv t s \<longleftrightarrow> (\<exists>c. s = CrcStream t\<lparr>cs_checksum := c\<rparr>) \<and>
     take_bit (cs_order s) (cs_checksum s) = cs_checksum s"

lemma crc_stream_consts:
  "cs_reflect (CrcStream t) = (t \<noteq> ckCRC_CCITT)"
  "cs_order (CrcStream t) = (case t of ckCRC_32 \<Rightarrow> 32 | _ \<Rightarrow> 16)"
  "cs_mask (CrcStream t) = (case t of ckCRC_32 \<Rightarrow> 0xffffffff | _ \<Rightarrow> 0xffff)"
  by (cases t; simp add: CrcStream_def Let_def mask_values [simplified])+

lemma low_index: "unat (take_bit 8 c XOR ucast (b::byte) :: u32) < 256"
  unfolding low_byte [symmetric] by (rule unat_low_byte)

lemma crc_step_lsb:
  assumes "t \<noteq> ckCRC_CCITT"
  shows "crc_step (CrcStream t\<lparr>cs_checksum := c0\<rparr>) c b = (bit_step_lsb (crc_rpoly t) ^^ 8) (c XOR ucast b)"
proof -
  have "crc_step (CrcStream t\<lparr>cs_checksum := c0\<rparr>) c b =
      shr c 8 XOR cs_table (CrcStream t) ! unat (take_bit 8 c XOR ucast b)"
    using assms unfolding crc_step_def and_ff by (simp add: crc_stream_consts)
  also have "\<dots> = shr c 8 XOR (bit_step_lsb (crc_rpoly t) ^^ 8) (take_bit 8 c XOR ucast b)"
    unfolding crc_table_lsb [OF low_index assms] of_nat_unat_same ..
  also have "\<dots> = (bit_step_lsb (crc_rpoly t) ^^ 8) (c XOR ucast b)"
    by (rule lsb_byte_step [symmetric])
  finally show ?thesis .
qed

lemma take_bit_msb: "take_bit n ((bit_step_msb n p ^^ Suc j) x) = (bit_step_msb n p ^^ Suc j) x"
  by (simp add: bit_step_msb_def)

lemma crc_step_msb:
  assumes "take_bit 16 c = c"
  shows "crc_step (CrcStream ckCRC_CCITT\<lparr>cs_checksum := c0\<rparr>) c b =
     (bit_step_msb 16 0x1021 ^^ 8) (c XOR shl (ucast b) 8)"
proof -
  have c: "\<forall>k. bit c k \<longrightarrow> k < 16" using assms by (metis bit_take_bit_iff)
  have t: "take_bit 16 ((bit_step_msb 16 p ^^ 8) x) = (bit_step_msb 16 p ^^ 8) x" for p x
    using take_bit_msb [of 16 7 p x] by simp
  let ?i = "take_bit 8 (shr c 8) XOR ucast b"
  have "crc_step (CrcStream ckCRC_CCITT\<lparr>cs_checksum := c0\<rparr>) c b =
      take_bit 16 (shl c 8 XOR cs_table (CrcStream ckCRC_CCITT) ! unat ?i)"
    unfolding crc_step_def and_ff by (simp add: crc_stream_consts and_ffff)
  also have "\<dots> = take_bit 16 (shl c 8) XOR take_bit 16 ((bit_step_msb 16 0x1021 ^^ 8) (shl ?i 8))"
    unfolding crc_table_msb [OF low_index] of_nat_unat_same take_bit_xor ..
  also have "\<dots> = (bit_step_msb 16 0x1021 ^^ 8) (c XOR shl (ucast b) 8)"
    unfolding t msb_byte_step [OF c] ..
  finally show ?thesis .
qed

text \<open>The register of a 16 bit type keeps its high half clear.\<close>

lemma bit_steps_lsb_range:
  "(\<And>k. bit p k \<Longrightarrow> k < n) \<Longrightarrow> (\<And>k. bit c k \<Longrightarrow> k < n) \<Longrightarrow> bit ((bit_step_lsb p ^^ j) c) k \<Longrightarrow> k < n"
proof (induction j arbitrary: k)
  case (Suc j)
  define x where "x = (bit_step_lsb p ^^ j) c"
  have x: "bit x k \<Longrightarrow> k < n" for k using Suc.IH Suc.prems(1,2) unfolding x_def by blast
  from Suc.prems(3) have "bit p k \<or> bit x (Suc k)" unfolding funpow.simps comp_def x_def [symmetric]
    by (auto simp: bit_step_lsb_def bit_shr bit_xor_iff split: if_splits)
  with Suc.prems(1) x [of "Suc k"] show ?case by fastforce
qed simp

lemma take_bit_range: "take_bit n x = x \<longleftrightarrow> (\<forall>k. bit (x::u32) k \<longrightarrow> k < n)"
proof
  assume "take_bit n x = x"
  then show "\<forall>k. bit x k \<longrightarrow> k < n" by (metis bit_take_bit_iff)
qed (auto intro!: word32_eqI simp: bit_take_bit_iff)

lemma crc_byte_range:
  assumes "take_bit 16 c = c" "t \<noteq> ckCRC_32"
  shows "take_bit 16 (crc_byte t c b) = crc_byte t c b"
proof (cases t)
  case ckCRC_16
  have p: "bit (0xa001 :: u32) k \<Longrightarrow> k < 16" for k
    using take_bit_range [of 16 "0xa001"] by simp
  have "bit (c XOR ucast b) k \<Longrightarrow> k < 16" for k
    using assms(1) by (auto simp: take_bit_range bit_xor_iff dest: bit_byte)
  with p show ?thesis unfolding take_bit_range ckCRC_16 crc_byte_def CrcType.case
    using bit_steps_lsb_range by blast
next
  case ckCRC_CCITT
  then show ?thesis unfolding crc_byte_def CrcType.case
    using take_bit_msb [of 16 7 "0x1021" "c XOR shl (ucast b) 8"] by simp
qed (use assms in simp)

lemma crc_step_byte:
  assumes "crc_inv t s"
  shows "crc_step (s\<lparr>cs_checksum := x\<rparr>) (cs_checksum s) b = crc_byte t (cs_checksum s) b"
    and "crc_inv t (s\<lparr>cs_checksum := crc_byte t (cs_checksum s) b\<rparr>)"
proof -
  obtain c where s: "s = CrcStream t\<lparr>cs_checksum := c\<rparr>" and r: "take_bit (cs_order s) c = c"
    using assms by (auto simp: crc_inv_def)
  then have r': "t \<noteq> ckCRC_32 \<Longrightarrow> take_bit 16 c = c" by (cases t) (auto simp: crc_stream_consts)
  show "crc_step (s\<lparr>cs_checksum := x\<rparr>) (cs_checksum s) b = crc_byte t (cs_checksum s) b"
    using r' crc_step_lsb [of t x c b] crc_step_msb [of c x b]
    by (cases t) (simp_all add: s crc_byte_def crc_rpoly_def)
  have "take_bit 32 x = x" for x :: u32 by (simp add: take_bit_range bit_high)
  moreover have "t \<noteq> ckCRC_32 \<Longrightarrow> take_bit 16 (crc_byte t c b) = crc_byte t c b"
    using r' by (rule crc_byte_range)
  ultimately show "crc_inv t (s\<lparr>cs_checksum := crc_byte t (cs_checksum s) b\<rparr>)"
    by (cases t) (auto simp: crc_inv_def s crc_stream_consts)
qed

lemma crc_fold:
  "crc_inv t s \<Longrightarrow> foldl (crc_step s) (cs_checksum s) bs = foldl (crc_byte t) (cs_checksum s) bs \<and>
    crc_inv t (s\<lparr>cs_checksum := foldl (crc_byte t) (cs_checksum s) bs\<rparr>)"
proof (induction bs arbitrary: s)
  case (Cons b bs)
  let ?c = "crc_byte t (cs_checksum s) b" and ?s = "s\<lparr>cs_checksum := crc_byte t (cs_checksum s) b\<rparr>"
  have step: "crc_step ?s = crc_step s" by (intro ext) (simp add: crc_step_def)
  have "crc_step s (cs_checksum s) b = ?c"
    using crc_step_byte(1) [OF Cons.prems, of "cs_checksum s" b] by simp
  with Cons.IH [OF crc_step_byte(2) [OF Cons.prems, of b]] step show ?case by simp
qed simp

interpretation crc_sink: out_sink crc_out_stream cs_checksum "foldl (crc_byte t)" "\<lambda>_ _. True" "crc_inv t"
  for t
proof
  fix s bs assume "crc_inv t s"
  then show "\<exists>res s'. os_write crc_out_stream bs s = Ret (res, s') \<and> crc_inv t s' \<and> True \<and>
      (res = -1 \<and> cs_checksum s' = cs_checksum s \<or>
       res = int (length bs) \<and> cs_checksum s' = foldl (crc_byte t) (cs_checksum s) bs)"
    using crc_fold [of t s bs] by (simp add: crc_out_stream_def crc_write_def)
qed (auto simp: crc_out_stream_def crc_write_def)

lemma crc_inv_init: "crc_inv t (CrcStream t)"
  unfolding crc_inv_def
  by (intro conjI exI [of _ "cs_checksum (CrcStream t)"])
    (cases t; simp add: CrcStream_def Let_def)+

end
