(* ===== verification/Stream_Clients.thy ===== *)
theory Stream_Clients
  imports Stream_Copy Memory_Stream Crc_Stream
begin

text \<open>
  The copy functions on the concrete streams of the library: the link locales of
  \<open>Stream_Copy\<close> are interpreted on memory to memory (with an allocator that may fail, and with
  one that does not), memory to checksum and memory to null stream, and the theorems about the
  copies and about the streams themselves are read off.
\<close>

interpretation mem_link: copy_link memory_in_stream memory_rem "memory_inv 8192" 8192
    "memory_out_stream alloc" memory_contents "(@)" memory_fits memory_oinv
  for alloc
  by unfold_locales simp

interpretation mem_copy: copy_sound memory_in_stream memory_rem "memory_inv 8192" 8192
    "memory_out_stream alloc_ok" memory_contents "(@)" memory_fits memory_oinv
  by unfold_locales simp

interpretation crc_copy: copy_sound memory_in_stream memory_rem "memory_inv 8192" 8192
    crc_out_stream cs_checksum "foldl (crc_byte t)" "\<lambda>_ _. True" "crc_inv t"
  for t
  by unfold_locales simp

interpretation null_copy: copy_sound memory_in_stream memory_rem "memory_inv 8192" 8192
    null_out_stream null_written "\<lambda>w bs. w + of_nat (length bs)" "\<lambda>_ _. True" "\<lambda>_. True"
  by unfold_locales simp

lemmas stream_inits = memory_inv_init memory_rem_init memory_oinv_init memory_contents_init
  memory_fits_init crc_inv_init

abbreviation memory_source :: "byte list \<Rightarrow> memory_in" where
  "memory_source data \<equiv> MemoryInStream data (of_nat (length data))"

section \<open>Copies\<close>

text \<open>C1: \<^verbatim>\<open>copy\<close> from a memory stream to a memory stream answers true and the output holds
  exactly the input, for every input of up to 2 GiB and whatever the copy buffer and the
  initial size of the output buffer are; one round of the loop per input byte is enough
  fuel.\<close>

theorem memory_copy_complete:
  assumes "length data \<le> 2 ^ 31" "length buf = BUFFER_SIZE" "length data < n"
  shows "\<exists>i' s'. copy memory_in_stream (memory_out_stream alloc_ok) n buf (memory_source data)
      (MemoryOutStream alloc_ok k) = Ret (True, i', s') \<and>
    memory_in_end i' \<and> memory_contents s' = data \<and> memory_out_count s' = of_nat (length data)"
proof -
  have l: "length data + 8192 < 2 ^ 32" using assms(1) by simp
  obtain i' s' where r: "copy memory_in_stream (memory_out_stream alloc_ok) n buf (memory_source data)
      (MemoryOutStream alloc_ok k) = Ret (True, i', s')" "memory_inv 8192 i'" "memory_oinv s'"
    "memory_rem i' = []" "memory_contents s' = data"
    using mem_copy.copy_complete [OF memory_inv_init [OF l] memory_oinv_init assms(2), of k n]
      assms by (auto simp: stream_inits)
  have "memory_in_end i'" using mem_in.end_law [OF r(2)] r(4) by (simp add: memory_in_stream_def)
  moreover have "length (memory_contents s') = unat (memory_out_count s')" using r(3)
    by (auto simp: memory_oinv_def memory_contents_def memory_out_data_def memory_out_count_def
        word_le_nat_alt split: option.splits)
  ultimately show ?thesis using r by auto
qed

theorem memory_copy_complete_witness:
  "\<exists>i' s'. copy memory_in_stream (memory_out_stream alloc_ok) 4 (replicate 8192 7) (memory_source [1, 2, 3])
      (MemoryOutStream alloc_ok 1) = Ret (True, i', s') \<and>
    memory_in_end i' \<and> memory_contents s' = [1, 2, 3] \<and> memory_out_count s' = of_nat (length [1, 2, 3 :: byte])"
  by (rule memory_copy_complete) simp_all

text \<open>With an allocator that may refuse any request, \<^verbatim>\<open>copy\<close> into a memory stream still
  returns; what the output then holds is a prefix of the input, and all of it when the answer
  is true.\<close>

theorem memory_copy_alloc:
  assumes "length data \<le> 2 ^ 31" "length buf = BUFFER_SIZE" "length data < n" "alloc k" "0 < k"
  shows "\<exists>b i' s' rest. copy memory_in_stream (memory_out_stream alloc) n buf (memory_source data)
      (MemoryOutStream alloc k) = Ret (b, i', s') \<and> data = memory_contents s' @ rest \<and> (b \<longrightarrow> rest = [])"
proof -
  have l: "length data + 8192 < 2 ^ 32" using assms(1) by simp
  have o: "memory_oinv (MemoryOutStream alloc k)"
    using assms(4,5) by (simp add: MemoryOutStream_def memory_oinv_def Let_def word_gt_0)
  show ?thesis
    using mem_link.copy_loop_spec [OF memory_inv_init [OF l] o assms(2), of n alloc] assms(1,3)
    unfolding copy_def by (auto simp: stream_inits)
qed

theorem memory_copy_alloc_witness:
  "\<exists>b i' s' rest. copy memory_in_stream (memory_out_stream (\<lambda>n. n \<le> 2)) 4 (replicate 8192 0)
      (memory_source [1, 2, 3]) (MemoryOutStream (\<lambda>n. n \<le> 2) 2) = Ret (b, i', s') \<and>
    [1, 2, 3] = memory_contents s' @ rest \<and> (b \<longrightarrow> rest = [])"
  by (rule memory_copy_alloc) simp_all

text \<open>C7: The sized \<^verbatim>\<open>copy\<close> writes exactly \<open>sz\<close> bytes: the first \<open>sz\<close> bytes of the input, then
  zero bytes where the input is shorter, and it reports exactly \<open>sz\<close> units of progress; it
  answers true when it is not cancelled.\<close>

theorem memory_copy_sized:
  assumes "length data \<le> 2 ^ 31" "length buf = BUFFER_SIZE" "unat sz \<le> 2 ^ 31" "unat sz < n"
    and "0 < pr_total pr" "unat (pr_count pr) + unat sz \<le> unat (pr_total pr)"
    and "\<forall>p. \<not> fst (pg_cancelled P p)"
  shows "\<exists>i' s' pr'. copy_sized memory_in_stream (memory_out_stream alloc_ok) P n buf (memory_source data)
      (MemoryOutStream alloc_ok k) pr sz = Ret (True, i', s', pr') \<and>
    memory_contents s' = take (unat sz) data @ replicate (unat sz - length data) 0 \<and>
    unat (pr_count pr') = unat (pr_count pr) + unat sz"
proof -
  have l: "length data + 8192 < 2 ^ 32" using assms(1) by simp
  show ?thesis unfolding copy_sized_def
    using mem_copy.copy_sized_loop_spec [OF memory_inv_init [OF l] memory_oinv_init assms(2)
        memory_fits_init [OF assms(3)] assms(4,4,5,6,7), of k] by (simp add: stream_inits)
qed

definition quiet_progress :: "u8 list progress_if" where
  "quiet_progress = \<lparr>pg_set_progress = (\<lambda>q p. q # p), pg_set_marquee = (\<lambda>b p. p),
     pg_notify = (\<lambda>t m p. p), pg_cancelled = (\<lambda>p. (False, p))\<rparr>"

theorem memory_copy_sized_witness:
  "\<exists>i' s' pr'. copy_sized memory_in_stream (memory_out_stream alloc_ok) quiet_progress 6
      (replicate 8192 0) (memory_source [1, 2, 3]) (MemoryOutStream alloc_ok 4) (Progresser [] 10) 5 =
      Ret (True, i', s', pr') \<and>
    memory_contents s' = take (unat (5::u64)) [1, 2, 3] @ replicate (unat (5::u64) - length [1, 2, 3 :: byte]) 0 \<and>
    unat (pr_count pr') = unat (pr_count (Progresser ([]::u8 list) 10)) + unat (5::u64)"
  by (rule memory_copy_sized) (simp_all add: Progresser_def quiet_progress_def)

text \<open>The copy with a \<^verbatim>\<open>Progress\<close> from a memory stream returns, never divides by zero or
  overflows, writes a prefix of the input, and when it answers true it has written all of it
  and the last thing it reported is 100 percent.\<close>

theorem memory_copy_progress:
  assumes "length data \<le> 2 ^ 31" "length buf = BUFFER_SIZE" "length data < n"
  shows "\<exists>b i' s' p' rest. copy_progress memory_in_stream (memory_out_stream alloc_ok) P n buf
      (memory_source data) (MemoryOutStream alloc_ok k) p = Ret (b, i', s', p') \<and>
    data = memory_contents s' @ rest \<and> (b \<longrightarrow> rest = [] \<and> (\<exists>q. p' = pg_set_progress P 100 q))"
proof -
  have l: "length data + 8192 < 2 ^ 32" using assms(1) by simp
  have s: "is_size memory_in_stream (memory_source data) = int (length data)"
    using assms(1) by (simp add: memory_in_stream_def memory_in_size_def MemoryInStream_def)
  show ?thesis unfolding copy_progress_def Let_def s
    using mem_link.copy_progress_loop_spec [where alloc = alloc_ok and P = P and written = 0,
        OF memory_inv_init [OF l] memory_oinv_init assms(2), of k n "int (length data)"
          "pg_set_marquee P (int (length data) = -1) p"] assms
    by (simp add: stream_inits)
qed

theorem memory_copy_progress_witness:
  "\<exists>b i' s' p' rest. copy_progress memory_in_stream (memory_out_stream alloc_ok) quiet_progress 4
      (replicate 8192 0) (memory_source [1, 2, 3]) (MemoryOutStream alloc_ok 0) [] = Ret (b, i', s', p') \<and>
    [1, 2, 3] = memory_contents s' @ rest \<and> (b \<longrightarrow> rest = [] \<and> (\<exists>q. p' = pg_set_progress quiet_progress 100 q))"
  by (rule memory_copy_progress) simp_all

text \<open>C3: Copying a memory stream into a \<^verbatim>\<open>CrcStream\<close> leaves in it the checksum of the data that
  the bit at a time definition gives, for all three types: the 8192 byte chunks of the copy and
  the 256 entry table make no difference.\<close>

theorem crc_of_copy:
  assumes "length data + 8192 < 2 ^ 32" "length buf = BUFFER_SIZE" "length data < n"
  shows "\<exists>i' s'. copy memory_in_stream crc_out_stream n buf (memory_source data) (CrcStream t) =
      Ret (True, i', s') \<and>
    crc_checksum s' = foldl (crc_byte t) (cs_initial (CrcStream t)) data XOR cs_final (CrcStream t)"
proof -
  obtain i' s' where r: "copy memory_in_stream crc_out_stream n buf (memory_source data) (CrcStream t) =
      Ret (True, i', s')" "crc_inv t s'"
    "cs_checksum s' = foldl (crc_byte t) (cs_checksum (CrcStream t)) data"
    using crc_copy.copy_complete [OF memory_inv_init [OF assms(1)] crc_inv_init assms(2), of n t]
      assms(3) by (auto simp: stream_inits)
  have "cs_checksum (CrcStream t) = cs_initial (CrcStream t)" by (simp add: CrcStream_def Let_def)
  moreover obtain c where "s' = CrcStream t\<lparr>cs_checksum := c\<rparr>" using r(2) by (auto simp: crc_inv_def)
  then have "cs_final s' = cs_final (CrcStream t)" by simp
  ultimately show ?thesis using r(1,3) by (simp add: crc_checksum_def)
qed

theorem crc_of_copy_witness:
  "\<exists>i' s'. copy memory_in_stream crc_out_stream 10 (replicate 8192 0)
      (memory_source [0x31, 0x32, 0x33, 0x34, 0x35, 0x36, 0x37, 0x38, 0x39]) (CrcStream ckCRC_32) =
      Ret (True, i', s') \<and>
    crc_checksum s' = foldl (crc_byte ckCRC_32) (cs_initial (CrcStream ckCRC_32))
      [0x31, 0x32, 0x33, 0x34, 0x35, 0x36, 0x37, 0x38, 0x39] XOR cs_final (CrcStream ckCRC_32)"
  by (rule crc_of_copy) simp_all

lemma funpow_8: "(f ^^ 8) x = f (f (f (f (f (f (f (f x)))))))"
  by (simp add: numeral_eq_Suc)

lemma bit_step_lsb_odd: "bit_step_lsb p c = (if odd c then drop_bit 1 c XOR p else drop_bit 1 c)"
  by (simp add: bit_step_lsb_def shr_def bit_0)

lemmas crc_eval = crc_byte_def funpow_8 bit_step_lsb_odd bit_step_msb_def shl_def

lemma crc_check_32:
  "foldl (crc_byte ckCRC_32) 0xffffffff [0x31, 0x32, 0x33, 0x34, 0x35, 0x36, 0x37, 0x38, 0x39] XOR 0xffffffff = 0xcbf43926"
  by (simp add: crc_eval)

lemma crc_check_16:
  "foldl (crc_byte ckCRC_16) 0xffff [0x31, 0x32, 0x33, 0x34, 0x35, 0x36, 0x37, 0x38, 0x39] XOR 0xffff = 0xb4c8"
  by (simp add: crc_eval)

lemma crc_check_ccitt:
  "foldl (crc_byte ckCRC_CCITT) 0 [0x31, 0x32, 0x33, 0x34, 0x35, 0x36, 0x37, 0x38, 0x39] = 0x31c3"
  by (simp add: crc_eval)

text \<open>The classes compute the published algorithms: of the nine bytes \<^verbatim>\<open>123456789\<close>,
  CRC-32 is \<^verbatim>\<open>0xcbf43926\<close>, CRC-16 with both presets \<^verbatim>\<open>0xb4c8\<close> and the
  CCITT polynomial with a zero preset \<^verbatim>\<open>0x31c3\<close>, however the input is split in two
  writes.\<close>

theorem crc_check_values:
  fixes cut :: nat
  defines "msg \<equiv> [0x31, 0x32, 0x33, 0x34, 0x35, 0x36, 0x37, 0x38, 0x39]"
  shows "\<exists>s1 s2. crc_write (take cut msg) (CrcStream t) = Ret (int (length (take cut msg)), s1) \<and>
    crc_write (drop cut msg) s1 = Ret (int (length (drop cut msg)), s2) \<and>
    crc_checksum s2 = (case t of ckCRC_16 \<Rightarrow> 0xb4c8 | ckCRC_32 \<Rightarrow> 0xcbf43926 | ckCRC_CCITT \<Rightarrow> 0x31c3)"
proof -
  define s1 where "s1 = CrcStream t\<lparr>cs_checksum := foldl (crc_step (CrcStream t)) (cs_checksum (CrcStream t)) (take cut msg)\<rparr>"
  have step: "crc_step (s\<lparr>cs_checksum := c\<rparr>) = crc_step s" for s c by (intro ext) (simp add: crc_step_def)
  have f: "foldl (crc_step s1) (cs_checksum s1) (drop cut msg) = foldl (crc_byte t) (cs_checksum (CrcStream t)) msg"
    using crc_fold [OF crc_inv_init [of t], of msg]
    by (simp add: s1_def step foldl_append [symmetric] del: foldl_append)
  show ?thesis
    using crc_check_16 crc_check_32 crc_check_ccitt f
    by (cases t) (simp_all add: crc_write_def crc_checksum_def s1_def step msg_def CrcStream_def Let_def)
qed

end
