(* ===== verification/Buffered_Stream.thy ===== *)
theory Buffered_Stream
  imports Stream_Clients
begin

text \<open>
  The buffered streams of \<^verbatim>\<open>src/bufferedstream.cc\<close> over an arbitrary stream. The
  locale \<open>buffered_in\<close> shows that a \<open>BufferedInStream\<close> over a stream that keeps the input
  contract keeps it too (a sublocale), and the same for \<open>buffered_out\<close>; both are
  interpreted on the memory streams. On a stream that fails the contract is lost: the error
  value of \<^verbatim>\<open>pos == 0 ? -1 : pos\<close> has type \<open>tuint32\<close>, and is not -1.
\<close>

section \<open>BufferedInStream\<close>

record 's buffered_in =
  bi_stream :: 's
  bi_buffer :: "byte list"
  bi_size :: u32     \<comment> \<open>0 when there is no buffer\<close>
  bi_pos :: u32
  bi_data :: u64     \<comment> \<open>an \<open>unsigned long\<close>\<close>

definition BufferedInStream :: "(u32 \<Rightarrow> bool) \<Rightarrow> 's \<Rightarrow> u32 \<Rightarrow> 's buffered_in" where
  "BufferedInStream alloc s buffer_size =
     (let n = (if buffer_size = 0 then 8192 else buffer_size)
      in \<lparr>bi_stream = s, bi_buffer = (if alloc n then replicate (unat n) 0 else []),
          bi_size = (if alloc n then n else 0), bi_pos = 0, bi_data = 0\<rparr>)"

definition BufferedInStream_default :: "(u32 \<Rightarrow> bool) \<Rightarrow> 's \<Rightarrow> 's buffered_in" where
  "BufferedInStream_default alloc s =
     \<lparr>bi_stream = s, bi_buffer = (if alloc 8192 then replicate 8192 0 else []),
      bi_size = (if alloc 8192 then 8192 else 0), bi_pos = 0, bi_data = 0\<rparr>"

definition buffered_in_end :: "'s in_stream \<Rightarrow> 's buffered_in \<Rightarrow> bool" where
  "buffered_in_end I b \<longleftrightarrow> is_end I (bi_stream b) \<and> bi_data b = 0"

text \<open>\<^verbatim>\<open>pos == 0 ? -1 : pos\<close>, of type \<open>tuint32\<close>, converted to \<open>tint64\<close>.\<close>

definition error_or_pos :: "u32 \<Rightarrow> int" where
  "error_or_pos pos = uint (if pos = 0 then -1 else pos)"

text \<open>
  The loop of \<^verbatim>\<open>read\<close>; \<open>out\<close> are the bytes put into the caller's buffer, so its
  length is \<open>pos\<close>. It does not end on a stream that gives no data and does not say it is at
  its end, hence the fuel.
\<close>

fun buffered_read_loop :: "'s in_stream \<Rightarrow> nat \<Rightarrow> u32 \<Rightarrow> u32 \<Rightarrow> byte list \<Rightarrow> 's buffered_in
    \<Rightarrow> (int \<times> byte list \<times> 's buffered_in) outcome" where
  "buffered_read_loop I 0 pos count out b = Fuel"
| "buffered_read_loop I (Suc n) pos count out b =
     (if bi_data b < ucast count then
        if unat (bi_pos b) + unat (bi_data b) \<le> length (bi_buffer b) then
          let out' = out @ slice (bi_buffer b) (unat (bi_pos b)) (unat (bi_data b));
              count' = count - ucast (bi_data b);
              pos' = pos + ucast (bi_data b);
              b' = b\<lparr>bi_pos := 0, bi_data := 0\<rparr>
          in if is_end I (bi_stream b') then Ret (uint pos', out', b')
             else obind (read_into I (bi_size b') (bi_buffer b') (bi_stream b')) (\<lambda>(res, buf', s').
               let b'' = b'\<lparr>bi_stream := s', bi_buffer := buf'\<rparr>
               in if res = -1 then Ret (error_or_pos pos', out', b'')
                  else buffered_read_loop I n pos' count' out' (b''\<lparr>bi_data := ucast (of_int res :: u32)\<rparr>))
        else Undef
      else if unat (bi_pos b) + unat count \<le> length (bi_buffer b) then
        Ret (uint (pos + count), out @ slice (bi_buffer b) (unat (bi_pos b)) (unat count),
             b\<lparr>bi_pos := bi_pos b + count, bi_data := bi_data b - ucast count\<rparr>)
      else Undef)"

definition buffered_in_read :: "'s in_stream \<Rightarrow> nat \<Rightarrow> u32 \<Rightarrow> 's buffered_in
    \<Rightarrow> (int \<times> byte list \<times> 's buffered_in) outcome" where
  "buffered_in_read I fuel count b =
     (if bi_size b = 0 then
        obind (is_read I count (bi_stream b)) (\<lambda>(res, bs, s'). Ret (res, bs, b\<lparr>bi_stream := s'\<rparr>))
      else buffered_read_loop I fuel 0 count [] b)"

definition buffered_in_size :: "'s in_stream \<Rightarrow> 's buffered_in \<Rightarrow> int" where
  "buffered_in_size I b = is_size I (bi_stream b)"

text \<open>The loop of \<^verbatim>\<open>seek\<close>, that reads into a temporary buffer of \<open>bsz\<close> bytes.\<close>

fun buffered_seek_loop :: "'s in_stream \<Rightarrow> nat \<Rightarrow> nat \<Rightarrow> u32 \<Rightarrow> u32 \<Rightarrow> 's buffered_in
    \<Rightarrow> (bool \<times> 's buffered_in) outcome" where
  "buffered_seek_loop I fuel 0 bsz distance b = Fuel"
| "buffered_seek_loop I fuel (Suc n) bsz distance b =
     (if 0 < distance then
        let read_bytes = (if bsz < distance then bsz else distance)
        in obind (buffered_in_read I fuel read_bytes b) (\<lambda>(res, bs, b').
             if unat bsz < length bs then Undef
             else if res = -1 then Ret (False, b')
             else buffered_seek_loop I fuel n bsz (distance - of_int res) b')
      else Ret (True, b))"

definition buffered_in_seek :: "'s in_stream \<Rightarrow> nat \<Rightarrow> u32 \<Rightarrow> StreamWhence \<Rightarrow> 's buffered_in
    \<Rightarrow> (bool \<times> 's buffered_in) outcome" where
  "buffered_in_seek I fuel distance whence b =
     obind (if whence = ckSTREAM_BEGIN then
              obind (is_seek I 0 ckSTREAM_BEGIN (bi_stream b)) (\<lambda>(ok, s').
                Ret (ok, if ok then b\<lparr>bi_stream := s', bi_pos := 0, bi_data := 0\<rparr> else b\<lparr>bi_stream := s'\<rparr>))
            else Ret (True, b)) (\<lambda>(ok, b').
       if \<not> ok then Ret (False, b')
       else if distance = 0 then Ret (True, b')
       else buffered_seek_loop I fuel fuel (if bi_size b' = 0 then 8192 else bi_size b') distance b')"

definition buffered_in_stream :: "'s in_stream \<Rightarrow> nat \<Rightarrow> 's buffered_in in_stream" where
  "buffered_in_stream I fuel = \<lparr>is_read = buffered_in_read I fuel, is_size = buffered_in_size I,
     is_end = buffered_in_end I, is_seek = buffered_in_seek I fuel\<rparr>"

section \<open>BufferedOutStream\<close>

record 's buffered_out =
  bo_stream :: 's
  bo_buffer :: "byte list"
  bo_size :: u32
  bo_pos :: u32

definition BufferedOutStream :: "(u32 \<Rightarrow> bool) \<Rightarrow> 's \<Rightarrow> u32 \<Rightarrow> 's buffered_out" where
  "BufferedOutStream alloc s buffer_size =
     (let n = (if buffer_size = 0 then 8192 else buffer_size)
      in \<lparr>bo_stream = s, bo_buffer = (if alloc n then replicate (unat n) 0 else []),
          bo_size = (if alloc n then n else 0), bo_pos = 0\<rparr>)"

definition BufferedOutStream_default :: "(u32 \<Rightarrow> bool) \<Rightarrow> 's \<Rightarrow> 's buffered_out" where
  "BufferedOutStream_default alloc s =
     \<lparr>bo_stream = s, bo_buffer = (if alloc 8192 then replicate 8192 0 else []),
      bo_size = (if alloc 8192 then 8192 else 0), bo_pos = 0\<rparr>"

text \<open>
  The loop of \<^verbatim>\<open>write\<close>: \<open>bs\<close> are the \<open>count\<close> bytes still to be taken. A round
  takes at least one byte unless the buffer is full, so that \<open>length bs + 2\<close> rounds are always
  enough.
\<close>

fun buffered_write_loop :: "'s out_stream \<Rightarrow> nat \<Rightarrow> u32 \<Rightarrow> byte list \<Rightarrow> 's buffered_out
    \<Rightarrow> (int \<times> 's buffered_out) outcome" where
  "buffered_write_loop W 0 pos bs b = Fuel"
| "buffered_write_loop W (Suc n) pos bs b =
     (let count = of_nat (length bs) in
      if bo_size b < bo_pos b + count then
        let remain = bo_size b - bo_pos b; pos' = pos + remain;
            buf' = blit (bo_buffer b) (unat (bo_pos b)) (take (unat remain) bs)
        in if unat (bo_pos b) + unat remain \<le> length (bo_buffer b) \<and> unat remain \<le> length bs then
             obind (write_from W (bo_size b) buf' (bo_stream b)) (\<lambda>(res, s').
               let b' = b\<lparr>bo_stream := s', bo_buffer := buf'\<rparr>
               in if res = -1 then Ret (error_or_pos pos', b')
                  else buffered_write_loop W n pos' (drop (unat remain) bs) (b'\<lparr>bo_pos := 0\<rparr>))
           else Undef
      else if unat (bo_pos b) + length bs \<le> length (bo_buffer b) then
        Ret (uint (pos + count), b\<lparr>bo_buffer := blit (bo_buffer b) (unat (bo_pos b)) bs,
                                    bo_pos := bo_pos b + count\<rparr>)
      else Undef)"

definition buffered_out_write :: "'s out_stream \<Rightarrow> byte list \<Rightarrow> 's buffered_out
    \<Rightarrow> (int \<times> 's buffered_out) outcome" where
  "buffered_out_write W bs b =
     (if bo_size b = 0 then
        obind (os_write W bs (bo_stream b)) (\<lambda>(res, s'). Ret (res, b\<lparr>bo_stream := s'\<rparr>))
      else buffered_write_loop W (length bs + 2) 0 bs b)"

definition buffered_out_flush :: "'s out_stream \<Rightarrow> 's buffered_out \<Rightarrow> (int \<times> 's buffered_out) outcome" where
  "buffered_out_flush W b =
     (if bo_size b = 0 then Ret (0, b)
      else obind (write_from W (bo_pos b) (bo_buffer b) (bo_stream b)) (\<lambda>(res, s').
        Ret (res, if res \<noteq> -1 then b\<lparr>bo_stream := s', bo_pos := 0\<rparr> else b\<lparr>bo_stream := s'\<rparr>)))"

text \<open>The destructor flushes, whatever comes of it; what is left is the stream.\<close>

definition buffered_out_destroy :: "'s out_stream \<Rightarrow> 's buffered_out \<Rightarrow> 's outcome" where
  "buffered_out_destroy W b = obind (buffered_out_flush W b) (\<lambda>(res, b'). Ret (bo_stream b'))"

definition buffered_out_stream :: "'s out_stream \<Rightarrow> 's buffered_out out_stream" where
  "buffered_out_stream W = \<lparr>os_write = buffered_out_write W\<rparr>"

section \<open>A buffered input stream keeps the input contract\<close>

definition buffered_rem :: "('s \<Rightarrow> byte list) \<Rightarrow> 's buffered_in \<Rightarrow> byte list" where
  "buffered_rem rem b = slice (bi_buffer b) (unat (bi_pos b)) (unat (bi_data b)) @ rem (bi_stream b)"

definition buffered_inv :: "('s \<Rightarrow> bool) \<Rightarrow> nat \<Rightarrow> 's buffered_in \<Rightarrow> bool" where
  "buffered_inv J cmax b \<longleftrightarrow> J (bi_stream b) \<and> length (bi_buffer b) = unat (bi_size b) \<and>
     unat (bi_size b) \<le> cmax \<and> unat (bi_pos b) + unat (bi_data b) \<le> length (bi_buffer b)"

lemma unat_ucast_u32 [simp]: "unat (ucast (c :: u32) :: u64) = unat c"
proof -
  have "unat c < 2 ^ 64" using unat_lt_u32 [of c] by simp
  then show ?thesis by (simp add: unsigned_ucast_eq take_bit_nat_eq_self)
qed

lemma unat_ucast_u64: "unat (d :: u64) < 2 ^ 32 \<Longrightarrow> unat (ucast d :: u32) = unat d"
  by (simp add: unsigned_ucast_eq take_bit_nat_eq_self)

locale buffered_in = in_source I rem inv cmax
  for I :: "'s in_stream" and rem :: "'s \<Rightarrow> byte list" and inv :: "'s \<Rightarrow> bool" and cmax :: nat +
  fixes fuel :: nat
  assumes fuel_ok: "cmax < fuel"
begin

text \<open>What a buffer holds, and what a request leaves of it.\<close>

lemma buffered_parts:
  assumes "buffered_inv inv cmax b"
  obtains sl where "sl = slice (bi_buffer b) (unat (bi_pos b)) (unat (bi_data b))" "length sl = unat (bi_data b)"
    "buffered_rem rem b = sl @ rem (bi_stream b)" "inv (bi_stream b)" "length (bi_buffer b) = unat (bi_size b)"
    "unat (bi_size b) \<le> cmax" "unat (bi_pos b) + unat (bi_data b) \<le> unat (bi_size b)" "unat (bi_data b) < 2 ^ 32"
proof -
  have inv: "inv (bi_stream b)" "length (bi_buffer b) = unat (bi_size b)" "unat (bi_size b) \<le> cmax"
    "unat (bi_pos b) + unat (bi_data b) \<le> length (bi_buffer b)" using assms by (auto simp: buffered_inv_def)
  moreover have "unat (bi_data b) < 2 ^ 32" using inv unat_lt_u32 [of "bi_size b"] by linarith
  ultimately show thesis by (intro that [OF refl]) (auto simp: length_slice buffered_rem_def)
qed

text \<open>A round that finds enough in the buffer, one that finds the stream at its end, and one that refills the buffer.\<close>

lemma read_round_last:
  assumes "buffered_inv inv cmax b" "unat count \<le> unat (bi_data b)" "unat pos = length out"
    and "length out + unat count < 2 ^ 32"
  shows "\<exists>b'. buffered_read_loop I (Suc n) pos count out b =
      Ret (int (length out + unat count), out @ take (unat count) (buffered_rem rem b), b') \<and>
    buffered_inv inv cmax b' \<and> buffered_rem rem b' = drop (unat count) (buffered_rem rem b)"
proof -
  let ?p = "unat (bi_pos b)" and ?d = "unat (bi_data b)"
  obtain sl where sl: "sl = slice (bi_buffer b) ?p ?d" "length sl = ?d" "buffered_rem rem b = sl @ rem (bi_stream b)"
    and inv: "inv (bi_stream b)" "length (bi_buffer b) = unat (bi_size b)" "unat (bi_size b) \<le> cmax" "?p + ?d \<le> unat (bi_size b)"
    by (rule buffered_parts [OF assms(1)])
  have nl: "\<not> bi_data b < ucast count" using assms(2) by (simp add: word_less_nat_alt)
  have "unat (pos + count) = length out + unat count" using assms(3,4) by (subst unat_u32_add) auto
  then have i: "uint (pos + count) = int (length out + unat count)" by (metis uint_nat)
  have p': "unat (bi_pos b + count) = ?p + unat count"
    using assms(2) inv(4) unat_lt_u32 [of "bi_size b"] by (intro unat_u32_add) linarith
  have d': "unat (bi_data b - ucast count) = ?d - unat count" using assms(2) by (subst unat_u64_diff) auto
  have t: "slice (bi_buffer b) ?p (unat count) = take (unat count) sl"
    using assms(2) by (simp add: sl(1) slice_def min_def)
  have dr: "slice (bi_buffer b) (?p + unat count) (?d - unat count) = drop (unat count) sl"
    by (simp add: sl(1) slice_def drop_take add.commute)
  show ?thesis using nl assms(2) inv sl(2,3) t dr p' d' i
    by (intro exI [of _ "b\<lparr>bi_pos := bi_pos b + count, bi_data := bi_data b - ucast count\<rparr>"])
      (auto simp: buffered_inv_def buffered_rem_def)
qed

lemma read_round_words:
  assumes "unat (bi_data b) < unat count" "unat (bi_data b) < 2 ^ 32" "length sl = unat (bi_data b)"
    and "unat pos = length out" "length out + unat (count :: u32) < 2 ^ 32"
  shows "bi_data b < ucast count" "unat (pos + ucast (bi_data b) :: u32) = length (out @ sl)"
    "unat (count - ucast (bi_data b)) = unat count - length sl"
proof -
  have u: "unat (ucast (bi_data b) :: u32) = unat (bi_data b)" using assms(2) by (rule unat_ucast_u64)
  show "bi_data b < ucast count" using assms(1) by (simp add: word_less_nat_alt)
  show "unat (pos + ucast (bi_data b)) = length (out @ sl)" using assms u by (subst unat_u32_add) auto
  show "unat (count - ucast (bi_data b)) = unat count - length sl" using assms u by (subst unat_u32_diff) auto
qed

lemma read_round_end:
  assumes "buffered_inv inv cmax b" "unat (bi_data b) < unat count" "rem (bi_stream b) = []"
    and "unat pos = length out" "length out + unat count < 2 ^ 32"
  shows "\<exists>b'. buffered_read_loop I (Suc n) pos count out b =
      Ret (int (length out + length (buffered_rem rem b)), out @ buffered_rem rem b, b') \<and>
    buffered_inv inv cmax b' \<and> buffered_rem rem b' = []"
proof -
  let ?p = "unat (bi_pos b)" and ?d = "unat (bi_data b)"
  obtain sl where sl: "sl = slice (bi_buffer b) ?p ?d" "length sl = ?d" "buffered_rem rem b = sl @ rem (bi_stream b)"
    and inv: "inv (bi_stream b)" "length (bi_buffer b) = unat (bi_size b)" "unat (bi_size b) \<le> cmax"
      "?p + ?d \<le> unat (bi_size b)" "?d < 2 ^ 32"
    by (rule buffered_parts [OF assms(1)])
  note w = read_round_words [OF assms(2) inv(5) sl(2) assms(4,5)]
  have "is_end I (bi_stream b)" using end_law inv(1) assms(3) by simp
  moreover have "uint (pos + ucast (bi_data b)) = int (length (out @ sl))" using w(2) by (metis uint_nat)
  ultimately have "buffered_read_loop I (Suc n) pos count out b =
      Ret (int (length (out @ sl)), out @ sl, b\<lparr>bi_pos := 0, bi_data := 0\<rparr>)"
    using w(1) inv(2,4) by (simp add: Let_def sl(1))
  moreover have "buffered_rem rem b = sl" using sl(3) assms(3) by simp
  moreover have "buffered_inv inv cmax (b\<lparr>bi_pos := 0, bi_data := 0\<rparr>)" using inv by (simp add: buffered_inv_def)
  moreover have "buffered_rem rem (b\<lparr>bi_pos := 0, bi_data := 0\<rparr>) = []" using assms(3) by (simp add: buffered_rem_def slice_0)
  ultimately show ?thesis by simp
qed

lemma read_round_refill:
  assumes "buffered_inv inv cmax b" "bi_size b \<noteq> 0" "unat (bi_data b) < unat count" "rem (bi_stream b) \<noteq> []"
    and "unat pos = length out" "length out + unat count < 2 ^ 32"
  obtains pos' count' sl b2 where
    "buffered_read_loop I (Suc n) pos count out b = buffered_read_loop I n pos' count' (out @ sl) b2"
    "buffered_inv inv cmax b2" "bi_size b2 \<noteq> 0" "bi_data b2 \<noteq> 0" "buffered_rem rem b = sl @ buffered_rem rem b2"
    "length sl = unat (bi_data b)" "unat pos' = length (out @ sl)" "unat count' = unat count - length sl"
proof -
  let ?p = "unat (bi_pos b)" and ?d = "unat (bi_data b)"
  obtain sl where sl: "sl = slice (bi_buffer b) ?p ?d" "length sl = ?d" "buffered_rem rem b = sl @ rem (bi_stream b)"
    and inv: "inv (bi_stream b)" "length (bi_buffer b) = unat (bi_size b)" "unat (bi_size b) \<le> cmax"
      "?p + ?d \<le> unat (bi_size b)" "?d < 2 ^ 32"
    by (rule buffered_parts [OF assms(1)])
  note w = read_round_words [OF assms(3) inv(5) sl(2) assms(5,6)]
  have ne: "\<not> is_end I (bi_stream b)" using end_law inv(1) assms(4) by simp
  have sz: "0 < unat (bi_size b)" using assms(2) by (simp add: unat_gt_0)
  obtain bs s' where r: "is_read I (bi_size b) (bi_stream b) = Ret (int (length bs), bs, s')"
    "length bs \<le> unat (bi_size b)" "inv s'" "rem (bi_stream b) = bs @ rem s'" "bs \<noteq> []"
    by (rule read_data [OF inv(1) sz inv(3)]) (use assms(4) in blast)
  define b2 where "b2 = b\<lparr>bi_pos := 0, bi_stream := s', bi_buffer := store (bi_buffer b) bs,
    bi_data := ucast (of_nat (length bs) :: u32)\<rparr>"
  have "length bs < 2 ^ 32" using r(2) unat_lt_u32 [of "bi_size b"] by linarith
  then have ud: "unat (bi_data b2) = length bs" by (simp add: b2_def)
  have b2: "buffered_inv inv cmax b2" "bi_size b2 \<noteq> 0" "buffered_rem rem b2 = bs @ rem s'"
    using inv r ud assms(2)
    by (auto simp: buffered_inv_def buffered_rem_def b2_def length_store slice_def take_store)
  have "bi_data b2 \<noteq> 0" using ud r(5) by (metis length_0_conv unat_0)
  moreover have "buffered_read_loop I (Suc n) pos count out b =
      buffered_read_loop I n (pos + ucast (bi_data b)) (count - ucast (bi_data b)) (out @ sl) b2"
    using w(1) ne r inv by (simp add: Let_def read_into_def b2_def sl(1))
  ultimately show thesis using b2 w(2,3) sl r(4) by (intro that) auto
qed

lemma read_loop_spec:
  assumes "buffered_inv inv cmax b" "bi_size b \<noteq> 0" "0 < n"
    and "unat count + (if bi_data b = 0 then 1 else 0) \<le> n"
    and "unat pos = length out" "length out + unat count < 2 ^ 32"
  defines "k \<equiv> min (unat count) (length (buffered_rem rem b))"
  shows "\<exists>b'. buffered_read_loop I n pos count out b =
      Ret (int (length out + k), out @ take k (buffered_rem rem b), b') \<and>
    buffered_inv inv cmax b' \<and> buffered_rem rem b' = drop k (buffered_rem rem b)"
  using assms(1-6) unfolding k_def
proof (induction n arbitrary: b pos count out)
  case (Suc n)
  have len: "length (buffered_rem rem b) = unat (bi_data b) + length (rem (bi_stream b))"
    by (rule buffered_parts [OF Suc.prems(1)]) simp
  consider "unat count \<le> unat (bi_data b)" | "unat (bi_data b) < unat count" "rem (bi_stream b) = []"
    | "unat (bi_data b) < unat count" "rem (bi_stream b) \<noteq> []" by linarith
  then show ?case
  proof cases
    case 1
    then have k: "min (unat count) (length (buffered_rem rem b)) = unat count" using len by simp
    show ?thesis unfolding k by (rule read_round_last [OF Suc.prems(1) 1 Suc.prems(5,6)])
  next
    case 2
    then have k: "min (unat count) (length (buffered_rem rem b)) = length (buffered_rem rem b)" using len by simp
    show ?thesis unfolding k using read_round_end [OF Suc.prems(1) 2 Suc.prems(5,6)] by simp
  next
    case 3
    obtain pos' count' sl b2 where
      step: "buffered_read_loop I (Suc n) pos count out b = buffered_read_loop I n pos' count' (out @ sl) b2"
      and b2: "buffered_inv inv cmax b2" "bi_size b2 \<noteq> 0" "bi_data b2 \<noteq> 0" "buffered_rem rem b = sl @ buffered_rem rem b2"
      and sl: "length sl = unat (bi_data b)" "unat pos' = length (out @ sl)" "unat count' = unat count - length sl"
      by (rule read_round_refill [OF Suc.prems(1,2) 3 Suc.prems(5,6)])
    have n: "unat count' \<le> n" "0 < n"
      using Suc.prems(4) 3(1) sl(1,3) unat_gt_0 [of "bi_data b"] by (auto split: if_splits)
    have "\<exists>b'. buffered_read_loop I n pos' count' (out @ sl) b2 =
        Ret (int (length (out @ sl) + min (unat count') (length (buffered_rem rem b2))),
          (out @ sl) @ take (min (unat count') (length (buffered_rem rem b2))) (buffered_rem rem b2), b') \<and>
      buffered_inv inv cmax b' \<and>
      buffered_rem rem b' = drop (min (unat count') (length (buffered_rem rem b2))) (buffered_rem rem b2)"
      using b2 n sl 3(1) Suc.prems(6) by (intro Suc.IH) auto
    then show ?thesis unfolding step using b2(4) sl 3(1) by (auto simp: min_def)
  qed
qed simp

lemma buffered_read_eq:
  assumes "buffered_inv inv cmax b" "bi_size b \<noteq> 0" "unat c \<le> cmax"
  defines "k \<equiv> min (unat c) (length (buffered_rem rem b))"
  shows "\<exists>b'. buffered_in_read I fuel c b = Ret (int k, take k (buffered_rem rem b), b') \<and>
    buffered_inv inv cmax b' \<and> buffered_rem rem b' = drop k (buffered_rem rem b)"
  using read_loop_spec [OF assms(1,2), of fuel c 0 "[]"] assms(2,3) fuel_ok unat_lt_u32 [of c]
  unfolding k_def by (auto simp: buffered_in_read_def)

sublocale buffered: in_source "buffered_in_stream I fuel" "buffered_rem rem" "buffered_inv inv cmax" cmax
proof
  fix b assume b: "buffered_inv inv cmax b"
  have "length (slice (bi_buffer b) (unat (bi_pos b)) (unat (bi_data b))) = unat (bi_data b)"
    using b by (simp add: buffered_inv_def length_slice)
  then have "slice (bi_buffer b) (unat (bi_pos b)) (unat (bi_data b)) = [] \<longleftrightarrow> bi_data b = 0"
    by (metis length_0_conv unat_eq_zero)
  then show "is_end (buffered_in_stream I fuel) b \<longleftrightarrow> buffered_rem rem b = []"
    using b end_law by (auto simp: buffered_in_stream_def buffered_in_end_def buffered_inv_def buffered_rem_def)
next
  fix b and c :: u32 assume a: "buffered_inv inv cmax b" "0 < unat c" "unat c \<le> cmax"
  show "\<exists>res bs b'. is_read (buffered_in_stream I fuel) c b = Ret (res, bs, b') \<and> length bs \<le> unat c \<and>
      buffered_inv inv cmax b' \<and> (res = -1 \<or> res = int (length bs) \<and>
      buffered_rem rem b = bs @ buffered_rem rem b' \<and> (buffered_rem rem b \<noteq> [] \<longrightarrow> bs \<noteq> []))"
  proof (cases "bi_size b = 0")
    case True
    then have i: "inv (bi_stream b)" "bi_data b = 0" "bi_buffer b = []"
      using a(1) by (auto simp: buffered_inv_def unat_eq_zero)
    obtain bs s' where "is_read I c (bi_stream b) = Ret (int (length bs), bs, s')" "length bs \<le> unat c"
      "inv s'" "rem (bi_stream b) = bs @ rem s'" "rem (bi_stream b) \<noteq> [] \<Longrightarrow> bs \<noteq> []"
      by (rule read_data [OF i(1) a(2,3)]) blast
    with True i a(1) show ?thesis
      by (intro exI [of _ "int (length bs)"] exI [of _ bs] exI [of _ "b\<lparr>bi_stream := s'\<rparr>"])
        (auto simp: buffered_in_stream_def buffered_in_read_def buffered_rem_def buffered_inv_def slice_0)
  next
    case False
    obtain k b' where k: "k = min (unat c) (length (buffered_rem rem b))"
      and r: "buffered_in_read I fuel c b = Ret (int k, take k (buffered_rem rem b), b')"
      "buffered_inv inv cmax b'" "buffered_rem rem b' = drop k (buffered_rem rem b)"
      using buffered_read_eq [OF a(1) False a(3)] by blast
    have "length (take k (buffered_rem rem b)) = k" "k \<le> unat c" "buffered_rem rem b \<noteq> [] \<longrightarrow> k \<noteq> 0"
      using k a(2) by auto
    with r show ?thesis
      by (intro exI [of _ "int k"] exI [of _ "take k (buffered_rem rem b)"] exI [of _ b'])
        (simp add: buffered_in_stream_def)
  qed
next
  fix b b' bs res and c :: u32
  assume a: "buffered_inv inv cmax b" "0 < unat c" "unat c \<le> cmax"
    "is_read (buffered_in_stream I fuel) c b = Ret (res, bs, b')"
  show "res \<noteq> -1"
  proof (cases "bi_size b = 0")
    case True
    with a show ?thesis using read_ok [of "bi_stream b" c]
      by (auto simp: buffered_in_stream_def buffered_in_read_def buffered_inv_def obind_Ret_eq)
  next
    case False
    show ?thesis using buffered_read_eq [OF a(1) False a(3)] a(4) by (auto simp: buffered_in_stream_def)
  qed
qed

lemma buffered_inv_init:
  "inv s \<Longrightarrow> unat (if n = 0 then 8192 else n) \<le> cmax \<Longrightarrow> buffered_inv inv cmax (BufferedInStream alloc s n)"
  by (simp add: buffered_inv_def BufferedInStream_def Let_def)

lemma buffered_rem_init: "buffered_rem rem (BufferedInStream alloc s n) = rem s"
  by (simp add: buffered_rem_def BufferedInStream_def Let_def slice_0)

text \<open>
  Seeking forward skips bytes while there are enough of them. Past the end the read answers 0
  and the loop does not end: no amount of fuel is enough.
\<close>

lemma seek_loop_spec:
  assumes "buffered_inv inv cmax b" "0 < bsz" "unat bsz \<le> cmax" "unat d < n"
    and "unat d \<le> length (buffered_rem rem b)"
  shows "\<exists>b'. buffered_seek_loop I fuel n bsz d b = Ret (True, b') \<and> buffered_inv inv cmax b' \<and>
    buffered_rem rem b' = drop (unat d) (buffered_rem rem b)"
  using assms
proof (induction n arbitrary: d b)
  case (Suc n)
  show ?case
  proof (cases "d = 0")
    case False
    define c where "c = (if bsz < d then bsz else d)"
    have c: "0 < unat c" "unat c \<le> cmax" "unat c \<le> unat bsz" "unat c \<le> unat d"
      using Suc.prems(2,3) False by (auto simp: c_def word_less_nat_alt unat_gt_0 not_less)
    obtain bs b' where r: "buffered_in_read I fuel c b = Ret (int (length bs), bs, b')" "length bs \<le> unat c"
      "buffered_inv inv cmax b'" "buffered_rem rem b = bs @ buffered_rem rem b'"
      "buffered_rem rem b \<noteq> [] \<Longrightarrow> bs \<noteq> []"
      using buffered.read_data [OF Suc.prems(1) c(1,2)] unfolding buffered_in_stream_def by auto
    have "buffered_rem rem b \<noteq> []" using Suc.prems(5) False by (auto simp: unat_eq_zero)
    with r(5) have l: "0 < length bs" by simp
    moreover have "0 < unat d" using False by (simp add: unat_gt_0)
    ultimately have dn: "unat d - length bs < n" using Suc.prems(4) by linarith
    have d': "unat (d - of_nat (length bs)) = unat d - length bs"
      using r(2) c(4) unat_lt_u32 [of d] by (subst unat_u32_diff) auto
    have "\<exists>b''. buffered_seek_loop I fuel n bsz (d - of_nat (length bs)) b' = Ret (True, b'') \<and>
        buffered_inv inv cmax b'' \<and>
        buffered_rem rem b'' = drop (unat (d - of_nat (length bs))) (buffered_rem rem b')"
      using Suc.prems r dn by (intro Suc.IH) (auto simp: d')
    then show ?thesis using r c False d' by (auto simp: Let_def c_def [symmetric] word_gt_0 drop_Cons')
  qed (use Suc.prems in auto)
qed simp

lemma seek_loop_stuck:
  assumes "buffered_inv inv cmax b" "0 < bsz" "unat bsz \<le> cmax" "length (buffered_rem rem b) < unat d"
  shows "buffered_seek_loop I fuel n bsz d b = Fuel"
  using assms
proof (induction n arbitrary: d b)
  case (Suc n)
  have dpos: "0 < d" using Suc.prems(4) by (simp add: word_less_nat_alt)
  define c where "c = (if bsz < d then bsz else d)"
  have c: "0 < unat c" "unat c \<le> cmax" "unat c \<le> unat bsz" "unat c \<le> unat d"
    using Suc.prems(2,3) dpos by (auto simp: c_def word_less_nat_alt unat_gt_0 not_less)
  obtain bs b' where r: "buffered_in_read I fuel c b = Ret (int (length bs), bs, b')" "length bs \<le> unat c"
    "buffered_inv inv cmax b'" "buffered_rem rem b = bs @ buffered_rem rem b'"
    by (rule buffered.read_data [OF Suc.prems(1) c(1,2)]) (auto simp: buffered_in_stream_def)
  have d': "unat (d - of_nat (length bs)) = unat d - length bs"
    using r(2) c(4) unat_lt_u32 [of d] by (subst unat_u32_diff) auto
  have "buffered_seek_loop I fuel n bsz (d - of_nat (length bs)) b' = Fuel"
    using Suc.prems r by (intro Suc.IH) (auto simp: d')
  with r c dpos show ?case by (simp add: Let_def c_def [symmetric])
qed simp

end

section \<open>A buffered output stream refines the stream below it\<close>

text \<open>
  What the client sees of a \<open>BufferedOutStream\<close>: the contents of the stream below with the
  bytes that wait in the buffer on top.
\<close>

definition buffered_contents :: "('s \<Rightarrow> 'a) \<Rightarrow> ('a \<Rightarrow> byte list \<Rightarrow> 'a) \<Rightarrow> 's buffered_out \<Rightarrow> 'a" where
  "buffered_contents f g b = g (f (bo_stream b)) (take (unat (bo_pos b)) (bo_buffer b))"

definition buffered_oinv :: "('s \<Rightarrow> bool) \<Rightarrow> 's buffered_out \<Rightarrow> bool" where
  "buffered_oinv J b \<longleftrightarrow> J (bo_stream b) \<and> length (bo_buffer b) = unat (bo_size b) \<and> bo_pos b \<le> bo_size b"

definition buffered_fits :: "('s \<Rightarrow> nat \<Rightarrow> bool) \<Rightarrow> 's buffered_out \<Rightarrow> nat \<Rightarrow> bool" where
  "buffered_fits F b n \<longleftrightarrow> F (bo_stream b) (unat (bo_pos b) + n) \<and> unat (bo_size b) + n < 2 ^ 32"

locale buffered_out = out_sink W abs app fits oinv
  for W :: "'s out_stream" and abs :: "'s \<Rightarrow> 'a" and app :: "'a \<Rightarrow> byte list \<Rightarrow> 'a"
    and fits :: "'s \<Rightarrow> nat \<Rightarrow> bool" and oinv :: "'s \<Rightarrow> bool"
begin

text \<open>A round whose bytes fit into the buffer, and one that fills it and writes it out.\<close>

lemma buffered_out_parts:
  assumes "buffered_oinv oinv b" "buffered_fits fits b (k + m)"
  shows "oinv (bo_stream b)" "length (bo_buffer b) = unat (bo_size b)" "unat (bo_pos b) \<le> unat (bo_size b)"
    "fits (bo_stream b) (unat (bo_pos b) + (k + m))" "unat (bo_size b) + (k + m) < 2 ^ 32"
    "unat (bo_pos b + of_nat k) = unat (bo_pos b) + k"
proof -
  show i: "oinv (bo_stream b)" "length (bo_buffer b) = unat (bo_size b)" "unat (bo_pos b) \<le> unat (bo_size b)"
    and f: "fits (bo_stream b) (unat (bo_pos b) + (k + m))" "unat (bo_size b) + (k + m) < 2 ^ 32"
    using assms by (auto simp: buffered_oinv_def buffered_fits_def word_le_nat_alt)
  show "unat (bo_pos b + of_nat k) = unat (bo_pos b) + k" using i(3) f(2) by (subst unat_u32_add) auto
qed

lemma write_round_fits:
  assumes "buffered_oinv oinv b" "buffered_fits fits b (length bs + m)" "unat (bo_pos b) + length bs \<le> unat (bo_size b)"
    and "unat pos + length bs < 2 ^ 32"
  shows "\<exists>b'. buffered_write_loop W (Suc n) pos bs b = Ret (int (unat pos + length bs), b') \<and>
    buffered_oinv oinv b' \<and> buffered_fits fits b' m \<and>
    buffered_contents abs app b' = app (buffered_contents abs app b) bs"
proof -
  note p = buffered_out_parts [OF assms(1,2)]
  have "\<not> bo_size b < bo_pos b + of_nat (length bs)" using p(6) assms(3) by (simp add: word_less_nat_alt not_less)
  moreover have "unat (pos + of_nat (length bs)) = unat pos + length bs"
    using assms(4) by (subst unat_u32_add) auto
  then have "uint (pos + of_nat (length bs)) = int (unat pos + length bs)" by (metis uint_nat)
  ultimately show ?thesis using p assms(3)
    by (auto simp: Let_def buffered_oinv_def buffered_fits_def buffered_contents_def word_le_nat_alt
        length_blit take_blit app_append add.assoc)
qed

lemma write_round_full:
  assumes "buffered_oinv oinv b" "bo_size b \<noteq> 0" "buffered_fits fits b (length bs + m)"
    and "unat (bo_size b) < unat (bo_pos b) + length bs" "unat pos + length bs < 2 ^ 32"
  obtains r pos' b1 where
    "buffered_write_loop W (Suc n) pos bs b = buffered_write_loop W n pos' (drop r bs) b1"
    "r \<le> length bs" "r = 0 \<longrightarrow> bo_pos b = bo_size b" "unat pos' = unat pos + r"
    "buffered_oinv oinv b1" "bo_size b1 \<noteq> 0" "bo_pos b1 \<noteq> bo_size b1" "buffered_fits fits b1 (length (drop r bs) + m)"
    "app (buffered_contents abs app b1) (drop r bs) = app (buffered_contents abs app b) bs"
proof -
  let ?p = "unat (bo_pos b)" and ?s = "unat (bo_size b)"
  note p = buffered_out_parts [OF assms(1,3)]
  define r where "r = ?s - ?p"
  have r: "unat (bo_size b - bo_pos b) = r" using p(3) by (simp add: unat_u32_diff r_def)
  have rl: "r \<le> length bs" "?p + r = ?s" using assms(4) p(3) by (auto simp: r_def)
  define buf where "buf = blit (bo_buffer b) ?p (take r bs)"
  have lr: "length (take r bs) = r" using rl(1) by simp
  have buf: "length buf = ?s" using rl p(2) lr by (simp add: buf_def length_blit)
  have "take ?s buf = take ?p (bo_buffer b) @ take r bs"
    using rl p(2) lr take_blit [of ?p "take r bs" "bo_buffer b"] by (simp add: buf_def)
  then have full: "buf = take ?p (bo_buffer b) @ take r bs" using buf by (metis take_all order_refl)
  have e: "length buf + (length (drop r bs) + m) = ?p + (length bs + m)" using rl buf by simp
  have f: "fits (bo_stream b) (length buf + (length (drop r bs) + m))" unfolding e by (rule p(4))
  have lt: "length buf < 2 ^ 32" using p(5) buf by simp
  obtain s' where s': "os_write W buf (bo_stream b) = Ret (int (length buf), s')" "oinv s'"
    "fits s' (length (drop r bs) + m)" "abs s' = app (abs (bo_stream b)) buf"
    by (rule write_data [OF p(1) lt f])
  define b1 where "b1 = b\<lparr>bo_stream := s', bo_buffer := buf, bo_pos := 0\<rparr>"
  have b1: "buffered_oinv oinv b1" "bo_size b1 \<noteq> 0" "bo_pos b1 \<noteq> bo_size b1" "buffered_fits fits b1 (length (drop r bs) + m)"
    using s' buf assms(2) p rl by (auto simp: b1_def buffered_oinv_def buffered_fits_def app_Nil)
  have "app (buffered_contents abs app b) bs = app (abs (bo_stream b)) (buf @ drop r bs)"
    unfolding buffered_contents_def app_append [symmetric] full by simp
  then have cont: "app (buffered_contents abs app b1) (drop r bs) = app (buffered_contents abs app b) bs"
    using s'(4) by (simp add: b1_def buffered_contents_def app_Nil app_append)
  have gt: "bo_size b < bo_pos b + of_nat (length bs)" using p(6) assms(4) by (simp add: word_less_nat_alt)
  have "write_from W (bo_size b) buf (bo_stream b) = os_write W buf (bo_stream b)"
    using buf by (simp add: write_from_def)
  then have step: "buffered_write_loop W (Suc n) pos bs b =
      buffered_write_loop W n (pos + (bo_size b - bo_pos b)) (drop r bs) b1"
    using gt rl p(2) r s'(1) by (simp add: Let_def b1_def buf_def [symmetric])
  have pos': "unat (pos + (bo_size b - bo_pos b)) = unat pos + r"
    using assms(5) rl r by (subst unat_u32_add) auto
  have "r = 0 \<longrightarrow> bo_pos b = bo_size b" using rl by (simp add: word_unat_eq_iff)
  then show thesis by (rule that [OF step rl(1) _ pos' b1 cont])
qed

lemma write_loop_spec:
  assumes "buffered_oinv oinv b" "bo_size b \<noteq> 0" "buffered_fits fits b (length bs + m)"
    and "unat pos + length bs < 2 ^ 32" "length bs + (if bo_pos b = bo_size b then 2 else 1) \<le> n"
  shows "\<exists>b'. buffered_write_loop W n pos bs b = Ret (int (unat pos + length bs), b') \<and>
    buffered_oinv oinv b' \<and> buffered_fits fits b' m \<and>
    buffered_contents abs app b' = app (buffered_contents abs app b) bs"
  using assms
proof (induction n arbitrary: pos bs b)
  case (Suc n)
  show ?case
  proof (cases "unat (bo_pos b) + length bs \<le> unat (bo_size b)")
    case True
    show ?thesis by (rule write_round_fits [OF Suc.prems(1,3) True Suc.prems(4)])
  next
    case False
    then have gt: "unat (bo_size b) < unat (bo_pos b) + length bs" by simp
    obtain r pos' b1 where
      step: "buffered_write_loop W (Suc n) pos bs b = buffered_write_loop W n pos' (drop r bs) b1"
      and r: "r \<le> length bs" "r = 0 \<longrightarrow> bo_pos b = bo_size b" "unat pos' = unat pos + r"
      and b1: "buffered_oinv oinv b1" "bo_size b1 \<noteq> 0" "bo_pos b1 \<noteq> bo_size b1" "buffered_fits fits b1 (length (drop r bs) + m)"
      and cont: "app (buffered_contents abs app b1) (drop r bs) = app (buffered_contents abs app b) bs"
      by (rule write_round_full [OF Suc.prems(1-3) gt Suc.prems(4)])
    have n: "length (drop r bs) + 1 \<le> n"
      using Suc.prems(5) r(1,2) by (cases "r = 0") (auto split: if_splits)
    have "\<exists>b'. buffered_write_loop W n pos' (drop r bs) b1 = Ret (int (unat pos' + length (drop r bs)), b') \<and>
      buffered_oinv oinv b' \<and> buffered_fits fits b' m \<and>
      buffered_contents abs app b' = app (buffered_contents abs app b1) (drop r bs)"
      using b1 n Suc.prems(4) r by (intro Suc.IH) auto
    then show ?thesis unfolding step cont using r(1,3) by simp
  qed
qed (simp split: if_splits)

sublocale buffered: out_sink "buffered_out_stream W" "buffered_contents abs app" app
  "buffered_fits fits" "buffered_oinv oinv"
proof
  fix a xs ys
  show "app a [] = a" by (rule app_Nil)
  show "app a (xs @ ys) = app (app a xs) ys" by (rule app_append)
next
  fix b n m assume "buffered_oinv oinv b" "buffered_fits fits b n" "m \<le> n"
  then show "buffered_fits fits b m"
    using fits_mono [of "bo_stream b" "unat (bo_pos b) + n" "unat (bo_pos b) + m"]
    by (auto simp: buffered_fits_def buffered_oinv_def)
next
  fix b bs m
  assume a: "buffered_oinv oinv b" "length (bs :: byte list) < 2 ^ 32" "buffered_fits fits b (length bs + m)"
  have n: "length bs + (if bo_pos b = bo_size b then 2 else 1) \<le> length bs + 2" by simp
  show "\<exists>res b'. os_write (buffered_out_stream W) bs b = Ret (res, b') \<and> buffered_oinv oinv b' \<and>
      buffered_fits fits b' m \<and> (res = -1 \<and> buffered_contents abs app b' = buffered_contents abs app b \<or>
      res = int (length bs) \<and> buffered_contents abs app b' = app (buffered_contents abs app b) bs)"
  proof (cases "bo_size b = 0")
    case True
    then have i: "oinv (bo_stream b)" "bo_pos b = 0" "bo_buffer b = []" "fits (bo_stream b) (length bs + m)"
      "length bs + m < 2 ^ 32"
      using a by (auto simp: buffered_oinv_def buffered_fits_def)
    obtain s' where "os_write W bs (bo_stream b) = Ret (int (length bs), s')" "oinv s'" "fits s' m"
      "abs s' = app (abs (bo_stream b)) bs"
      by (rule write_data [OF i(1) a(2) i(4)])
    with True i show ?thesis
      by (intro exI [of _ "int (length bs)"] exI [of _ "b\<lparr>bo_stream := s'\<rparr>"])
        (auto simp: buffered_out_stream_def buffered_out_write_def buffered_oinv_def buffered_fits_def
          buffered_contents_def app_Nil)
  next
    case False
    show ?thesis
      using write_loop_spec [OF a(1) False a(3) _ n, of 0] a(2) False
      by (auto simp: buffered_out_stream_def buffered_out_write_def simp del: buffered_write_loop.simps)
  qed
next
  fix b b' bs res
  assume a: "buffered_oinv oinv b" "length (bs :: byte list) < 2 ^ 32" "buffered_fits fits b (length bs)"
    "os_write (buffered_out_stream W) bs b = Ret (res, b')"
  have n: "length bs + (if bo_pos b = bo_size b then 2 else 1) \<le> length bs + 2" by simp
  show "res \<noteq> -1"
  proof (cases "bo_size b = 0")
    case True
    with a show ?thesis using write_ok [of "bo_stream b" bs]
      by (auto simp: buffered_out_stream_def buffered_out_write_def buffered_oinv_def buffered_fits_def
          obind_Ret_eq)
  next
    case False
    show ?thesis
      using write_loop_spec [OF a(1) False _ _ n, of 0 0] a(2-4) False
      by (auto simp: buffered_out_stream_def buffered_out_write_def simp del: buffered_write_loop.simps)
  qed
qed

text \<open>Flushing moves what waits in the buffer to the stream below, and changes nothing above.\<close>

lemma flush_spec:
  assumes "buffered_oinv oinv b" "buffered_fits fits b m"
  shows "\<exists>b'. buffered_out_flush W b = Ret (int (unat (bo_pos b)), b') \<and> buffered_oinv oinv b' \<and>
    bo_pos b' = 0 \<and> abs (bo_stream b') = buffered_contents abs app b \<and>
    buffered_contents abs app b' = buffered_contents abs app b"
proof -
  let ?p = "unat (bo_pos b)"
  have inv: "oinv (bo_stream b)" "length (bo_buffer b) = unat (bo_size b)" "?p \<le> unat (bo_size b)"
    and f: "fits (bo_stream b) (length (take ?p (bo_buffer b)) + m)"
    and lt: "length (take ?p (bo_buffer b)) < 2 ^ 32"
    using assms unat_lt_u32 [of "bo_pos b"]
    by (auto simp: buffered_oinv_def buffered_fits_def word_le_nat_alt min_def)
  obtain s' where "os_write W (take ?p (bo_buffer b)) (bo_stream b) = Ret (int (length (take ?p (bo_buffer b))), s')"
    "oinv s'" "abs s' = app (abs (bo_stream b)) (take ?p (bo_buffer b))"
    by (rule write_data [OF inv(1) lt f])
  moreover have "bo_size b = 0 \<Longrightarrow> bo_pos b = 0" using inv by (simp add: word_unat_eq_iff)
  ultimately show ?thesis using inv assms(1)
    by (auto simp: buffered_out_flush_def write_from_def buffered_oinv_def buffered_contents_def app_Nil min_def)
qed

lemma buffered_oinv_init: "oinv s \<Longrightarrow> buffered_oinv oinv (BufferedOutStream alloc s n)"
  by (simp add: buffered_oinv_def BufferedOutStream_def Let_def)

lemma buffered_contents_init: "buffered_contents abs app (BufferedOutStream alloc s n) = abs s"
  by (simp add: buffered_contents_def BufferedOutStream_def Let_def app_Nil)

lemma buffered_fits_init:
  "fits s m \<Longrightarrow> unat (if n = 0 then 8192 else n) + m < 2 ^ 32 \<Longrightarrow> buffered_fits fits (BufferedOutStream alloc s n) m"
  by (auto simp: buffered_fits_def BufferedOutStream_def Let_def)

text \<open>The destructor leaves the stream below with all that has been written; so does a sequence of writes before it.\<close>

lemma destroy_spec:
  assumes "buffered_oinv oinv b" "buffered_fits fits b m"
  shows "\<exists>s. buffered_out_destroy W b = Ret s \<and> oinv s \<and> abs s = buffered_contents abs app b"
  using flush_spec [OF assms] by (auto simp: buffered_out_destroy_def buffered_oinv_def)

lemma write_all_destroy:
  assumes "oinv s" "fits s (length (concat pieces))" "unat (if n = 0 then 8192 else n) + length (concat pieces) < 2 ^ 32"
  shows "\<exists>b s'. write_all (buffered_out_stream W) pieces (BufferedOutStream alloc s n) =
      Ret (map (\<lambda>bs. int (length bs)) pieces, b) \<and>
    buffered_out_destroy W b = Ret s' \<and> oinv s' \<and> abs s' = app (abs s) (concat pieces)"
proof -
  have "length bs \<le> length (concat pieces)" if "bs \<in> set pieces" for bs using that by (induction pieces) auto
  with assms(3) have l: "\<forall>bs\<in>set pieces. length bs < 2 ^ 32" by fastforce
  have f: "buffered_fits fits (BufferedOutStream alloc s n) (length (concat pieces) + 0)"
    using assms(2,3) by (intro buffered_fits_init) simp_all
  obtain b where "write_all (buffered_out_stream W) pieces (BufferedOutStream alloc s n) =
      Ret (map (\<lambda>bs. int (length bs)) pieces, b)" "buffered_oinv oinv b" "buffered_fits fits b 0"
    "buffered_contents abs app b = app (abs s) (concat pieces)"
    using buffered.write_all_spec [OF buffered_oinv_init [OF assms(1)] l f] by (auto simp: buffered_contents_init)
  with destroy_spec [of b 0] show ?thesis by auto
qed

end

section \<open>Interpretations and theorems\<close>

interpretation buf_in: buffered_in memory_in_stream memory_rem "memory_inv 8192" 8192 8193
  by unfold_locales simp

interpretation buf_out: buffered_out "memory_out_stream alloc_ok" memory_contents "(@)" memory_fits memory_oinv
  by unfold_locales

interpretation buf_crc: buffered_out crc_out_stream cs_checksum "foldl (crc_byte t)" "\<lambda>_ _. True" "crc_inv t"
  for t
  by unfold_locales

interpretation buf_copy: copy_sound "buffered_in_stream memory_in_stream 8193" "buffered_rem memory_rem"
    "buffered_inv (memory_inv 8192) 8192" 8192 "buffered_out_stream (memory_out_stream alloc_ok)"
    "buffered_contents memory_contents (@)" "(@)" "buffered_fits memory_fits" "buffered_oinv memory_oinv"
  by unfold_locales simp

lemmas buffered_inits = buf_in.buffered_inv_init buf_in.buffered_rem_init buf_out.buffered_oinv_init
  buf_out.buffered_contents_init buf_out.buffered_fits_init

text \<open>C9: Buffering is transparent on a source: a read of \<open>c\<close> bytes through a
  \<open>BufferedInStream\<close> (of any buffer size up to 8192, or without a buffer because the
  allocation failed) over memory gives the next bytes of the data, at least one while there
  are any, and with a buffer exactly as many as were asked for or are left.\<close>

theorem buffered_read_transparent:
  assumes "buffered_inv (memory_inv 8192) 8192 b" "0 < unat c" "unat c \<le> 8192"
  shows "\<exists>bs b'. buffered_in_read memory_in_stream 8193 c b = Ret (int (length bs), bs, b') \<and>
    buffered_inv (memory_inv 8192) 8192 b' \<and>
    buffered_rem memory_rem b = bs @ buffered_rem memory_rem b' \<and>
    (buffered_rem memory_rem b \<noteq> [] \<longrightarrow> bs \<noteq> []) \<and>
    (bi_size b \<noteq> 0 \<longrightarrow> length bs = min (unat c) (length (buffered_rem memory_rem b)))"
proof -
  obtain bs b' where r: "buffered_in_read memory_in_stream 8193 c b = Ret (int (length bs), bs, b')"
    "buffered_inv (memory_inv 8192) 8192 b'" "buffered_rem memory_rem b = bs @ buffered_rem memory_rem b'"
    "buffered_rem memory_rem b \<noteq> [] \<longrightarrow> bs \<noteq> []"
    by (rule buf_in.buffered.read_data [OF assms]) (auto simp: buffered_in_stream_def)
  moreover have "bi_size b \<noteq> 0 \<longrightarrow> length bs = min (unat c) (length (buffered_rem memory_rem b))"
    using buf_in.buffered_read_eq [OF assms(1) _ assms(3)] r(1) by auto
  ultimately show ?thesis by blast
qed

theorem buffered_read_transparent_witness:
  "\<exists>bs b'. buffered_in_read memory_in_stream 8193 5 (BufferedInStream alloc_ok (memory_source [1, 2, 3, 4]) 2) =
      Ret (int (length bs), bs, b') \<and>
    buffered_inv (memory_inv 8192) 8192 b' \<and>
    buffered_rem memory_rem (BufferedInStream alloc_ok (memory_source [1, 2, 3, 4]) 2) = bs @ buffered_rem memory_rem b' \<and>
    (buffered_rem memory_rem (BufferedInStream alloc_ok (memory_source [1, 2, 3, 4]) 2) \<noteq> [] \<longrightarrow> bs \<noteq> []) \<and>
    (bi_size (BufferedInStream alloc_ok (memory_source [1, 2, 3, 4]) 2) \<noteq> 0 \<longrightarrow>
     length bs = min (unat (5::u32)) (length (buffered_rem memory_rem (BufferedInStream alloc_ok (memory_source [1, 2, 3, 4]) 2))))"
  by (rule buffered_read_transparent, rule buf_in.buffered_inv_init, rule memory_inv_init) simp_all

text \<open>C8: A sequence of writes through a \<open>BufferedOutStream\<close> over memory, followed by its
  destructor, leaves in the memory stream the concatenation of everything written, in order,
  and every write answers its full count.\<close>

theorem buffered_write_then_close:
  assumes "length (concat pieces) \<le> 2 ^ 31" "unat n \<le> 2 ^ 30"
  shows "\<exists>b s. write_all (buffered_out_stream (memory_out_stream alloc_ok)) pieces
      (BufferedOutStream alloc (MemoryOutStream alloc_ok k) n) = Ret (map (\<lambda>bs. int (length bs)) pieces, b) \<and>
    buffered_out_destroy (memory_out_stream alloc_ok) b = Ret s \<and> memory_contents s = concat pieces"
proof -
  have "unat (if n = 0 then 8192 else n) + length (concat pieces) < 2 ^ 32" using assms by auto
  then show ?thesis
    using buf_out.write_all_destroy [OF memory_oinv_init [of k] memory_fits_init, of pieces n alloc] assms(1)
    by (fastforce simp: memory_contents_init)
qed

theorem buffered_write_then_close_witness:
  "\<exists>b s. write_all (buffered_out_stream (memory_out_stream alloc_ok)) [[1, 2, 3], [4], [5, 6, 7, 8, 9]]
      (BufferedOutStream alloc_ok (MemoryOutStream alloc_ok 1) 4) =
      Ret (map (\<lambda>bs. int (length bs)) [[1, 2, 3], [4], [5, 6, 7, 8, 9 :: byte]], b) \<and>
    buffered_out_destroy (memory_out_stream alloc_ok) b = Ret s \<and>
    memory_contents s = concat [[1, 2, 3], [4], [5, 6, 7, 8, 9]]"
  by (rule buffered_write_then_close) simp_all

text \<open>C2: Copying from a \<open>BufferedInStream\<close> to a \<open>BufferedOutStream\<close>, with any two buffer sizes,
  and closing the latter is the same as copying without buffers: the memory behind it holds
  the input.\<close>

theorem buffered_copy_complete:
  assumes "length data \<le> 2 ^ 31" "length buf = BUFFER_SIZE" "length data < f" "unat n \<le> 8192" "unat m \<le> 2 ^ 30"
  shows "\<exists>i' b s. copy (buffered_in_stream memory_in_stream 8193) (buffered_out_stream (memory_out_stream alloc_ok)) f buf
      (BufferedInStream alloc (memory_source data) n) (BufferedOutStream alloc' (MemoryOutStream alloc_ok k) m) =
      Ret (True, i', b) \<and>
    buffered_out_destroy (memory_out_stream alloc_ok) b = Ret s \<and> memory_contents s = data"
proof -
  let ?i = "BufferedInStream alloc (memory_source data) n"
  let ?b = "BufferedOutStream alloc' (MemoryOutStream alloc_ok k) m"
  have l: "length data + 8192 < 2 ^ 32" using assms(1) by simp
  have n: "unat (if n = 0 then 8192 else n) \<le> 8192" using assms(4) by auto
  have ii: "buffered_inv (memory_inv 8192) 8192 ?i"
    by (rule buf_in.buffered_inv_init [OF memory_inv_init [OF l] n])
  have r: "buffered_rem memory_rem ?i = data" by (simp add: buf_in.buffered_rem_init memory_rem_init)
  have fd: "buffered_fits memory_fits ?b (length (buffered_rem memory_rem ?i))"
    unfolding r using assms by (intro buf_out.buffered_fits_init memory_fits_init) (auto split: if_splits)
  obtain i' b where b: "copy (buffered_in_stream memory_in_stream 8193) (buffered_out_stream (memory_out_stream alloc_ok))
      f buf ?i ?b = Ret (True, i', b)" "buffered_oinv memory_oinv b"
    "buffered_contents memory_contents (@) b = data" "buffered_fits memory_fits b 0"
    using buf_copy.copy_complete [OF ii buf_out.buffered_oinv_init [OF memory_oinv_init] assms(2) fd, of f]
      assms(3) by (auto simp: r buf_out.buffered_contents_init memory_contents_init)
  from buf_out.destroy_spec [OF b(2,4)] b(1,3) show ?thesis by auto
qed

theorem buffered_copy_complete_witness:
  "\<exists>i' b s. copy (buffered_in_stream memory_in_stream 8193) (buffered_out_stream (memory_out_stream alloc_ok)) 7
      (replicate 8192 0) (BufferedInStream alloc_ok (memory_source [1, 2, 3, 4, 5]) 2)
      (BufferedOutStream alloc_ok (MemoryOutStream alloc_ok 1) 3) = Ret (True, i', b) \<and>
    buffered_out_destroy (memory_out_stream alloc_ok) b = Ret s \<and> memory_contents s = [1, 2, 3, 4, 5]"
  by (rule buffered_copy_complete) simp_all



lemma error_or_pos_0: "error_or_pos 0 = 4294967295"
  by (simp add: error_or_pos_def unsigned_minus_1_eq_mask mask_eq_exp_minus_1)

text \<open>When the stream below fails and no byte has been copied yet, a buffered read answers
  4294967295 and not -1, with nothing in the caller's buffer; \<^verbatim>\<open>copy\<close> does not take that
  for an error, and its write reads outside its buffer.\<close>

theorem buffered_read_error:
  assumes "bi_size b = 8192" "length (bi_buffer b) = 8192" "bi_pos b = 0" "bi_data b = 0"
    and "\<not> is_end I (bi_stream b)" "\<forall>c. is_read I c (bi_stream b) = Ret (-1, [], s')"
    and "length buf = BUFFER_SIZE" "0 < c"
  shows "(\<exists>b'. buffered_in_read I (Suc n) c b = Ret (4294967295, [], b')) \<and>
    copy (buffered_in_stream I (Suc n)) W (Suc m) buf b s = Undef"
proof -
  have c: "0 < (ucast c :: u64)" using assms(8) by (simp add: word_less_nat_alt)
  have r: "buffered_in_read I (Suc n) c b = Ret (4294967295, [], b\<lparr>bi_stream := s'\<rparr>)" if "0 < (ucast c :: u64)" for c
    using assms that by (simp add: buffered_in_read_def Let_def read_into_def store_def error_or_pos_0 slice_0)
  have u: "0 < (ucast (8192 :: u32) :: u64)" by simp
  show ?thesis using r [OF c] r [OF u] assms(5,7)
    by (simp add: copy_def copy_chunk_def read_into_def buffered_in_stream_def buffered_in_end_def
        write_from_def store_def)
qed

text \<open>A stream that fails at once.\<close>

definition broken_stream :: "unit in_stream" where
  "broken_stream = \<lparr>is_read = (\<lambda>c s. Ret (-1, [], s)), is_size = (\<lambda>s. -1), is_end = (\<lambda>s. False),
     is_seek = (\<lambda>d w s. Ret (False, s))\<rparr>"

theorem buffered_read_error_witness:
  "(\<exists>b'. buffered_in_read broken_stream (Suc 0) 10 (BufferedInStream alloc_ok () 0) = Ret (4294967295, [], b')) \<and>
    copy (buffered_in_stream broken_stream (Suc 0)) null_out_stream (Suc 0) (replicate 8192 0)
      (BufferedInStream alloc_ok () 0) NullStream = Undef"
  by (rule buffered_read_error) (simp_all add: BufferedInStream_def broken_stream_def)

text \<open>When the stream below fails, a \<open>BufferedOutStream\<close> answers the number of bytes it has
  moved into its buffer, as if they were written; when the buffer was full it answers
  4294967295. In neither case does it answer -1.\<close>

theorem buffered_write_error:
  assumes "bo_size b \<noteq> 0" "length (bo_buffer b) = unat (bo_size b)" "bo_pos b \<le> bo_size b"
    and "\<forall>bs. os_write W bs (bo_stream b) = Ret (-1, s')"
    and "unat (bo_size b) - unat (bo_pos b) < length bs" "unat (bo_size b) + length bs < 2 ^ 32"
  shows "\<exists>b'. buffered_out_write W bs b = Ret (if bo_pos b = bo_size b then 4294967295
    else int (unat (bo_size b) - unat (bo_pos b)), b')"
proof -
  have p: "unat (bo_pos b) \<le> unat (bo_size b)" using assms(3) by (simp add: word_le_nat_alt)
  have sum: "unat (bo_pos b + of_nat (length bs)) = unat (bo_pos b) + length bs"
    using p assms(6) by (subst unat_u32_add) auto
  have d: "unat (bo_size b - bo_pos b) = unat (bo_size b) - unat (bo_pos b)" using p by (rule unat_u32_diff)
  have lt: "bo_size b < bo_pos b + of_nat (length bs)" using sum p assms(5) by (simp add: word_less_nat_alt)
  have e: "error_or_pos (bo_size b - bo_pos b) =
      (if bo_pos b = bo_size b then 4294967295 else int (unat (bo_size b) - unat (bo_pos b)))"
  proof (cases "bo_pos b = bo_size b")
    case False
    then have "bo_size b - bo_pos b \<noteq> 0" by simp
    then have "error_or_pos (bo_size b - bo_pos b) = uint (bo_size b - bo_pos b)"
      unfolding error_or_pos_def by (simp only: if_False)
    with False d show ?thesis by (metis uint_nat)
  qed (simp add: error_or_pos_0)
  have l: "length (blit (bo_buffer b) (unat (bo_pos b)) (take (unat (bo_size b) - unat (bo_pos b)) bs)) = unat (bo_size b)"
    using p assms(2,5) by (subst length_blit) auto
  define buf where "buf = blit (bo_buffer b) (unat (bo_pos b)) (take (unat (bo_size b) - unat (bo_pos b)) bs)"
  have w: "write_from W (bo_size b) buf (bo_stream b) = Ret (-1, s')"
    using l assms(4) by (simp add: write_from_def buf_def)
  have "buffered_write_loop W (Suc n) 0 bs b = Ret (error_or_pos (bo_size b - bo_pos b),
      b\<lparr>bo_stream := s', bo_buffer := buf\<rparr>)" for n
    using lt p w assms(2,5) by (simp add: Let_def d buf_def [symmetric] del: unat_sub_if')
  then show ?thesis unfolding e [symmetric]
    using assms(1) by (simp add: buffered_out_write_def del: buffered_write_loop.simps)
qed

theorem buffered_write_error_witness:
  "\<exists>b'. buffered_out_write \<lparr>os_write = (\<lambda>bs s. Ret (-1, s))\<rparr> [1, 2, 3] (BufferedOutStream alloc_ok () 2) =
    Ret (if bo_pos (BufferedOutStream alloc_ok () 2) = bo_size (BufferedOutStream alloc_ok () 2) then 4294967295
      else int (unat (bo_size (BufferedOutStream alloc_ok () 2)) - unat (bo_pos (BufferedOutStream alloc_ok () 2))), b')"
  by (rule buffered_write_error [where s' = "()"]) (simp_all add: BufferedOutStream_def)

end
