(* ===== verification/Convert.thy ===== *)
theory Convert
  imports Prelude
begin

text \<open>
  The conversions of \<^verbatim>\<open>src/convert.cc\<close> and \<^verbatim>\<open>include/ckcore/convert.hh\<close>: numbers to
  decimal text in a caller's buffer, byte order, and DOS times. Text buffers are lists of
  \<open>char\<close>; the C string in a buffer ends before its first null character. The specification of
  the numbers is the usual decimal numeral, \<open>decimal\<close>, with its reader \<open>parse_decimal\<close>.
\<close>

definition NUL :: char where
  "NUL = CHR 0x00"

definition cstr :: "string \<Rightarrow> string" where
  "cstr buf = takeWhile (\<lambda>c. c \<noteq> NUL) buf"

section \<open>Numbers to text\<close>

definition b_to_str2 :: "bool \<Rightarrow> string \<Rightarrow> string outcome" where
  "b_to_str2 value buf =
     (if 2 \<le> length buf then Ret (buf[0 := (if value then CHR ''1'' else CHR ''0''), 1 := NUL]) else Undef)"

text \<open>The \<^verbatim>\<open>do\<close> loop that puts down the digits, the lowest first; \<open>p\<close> is an index.\<close>

definition digit_of :: "u64 \<Rightarrow> char" where
  "digit_of value = char_of (48 + unat (value mod 10))"

lemma unat_10: "unat (10 :: u64) = 10"
  by simp

lemma div_10_less: "(value :: u64) div 10 \<noteq> 0 \<Longrightarrow> unat (value div 10) < unat value"
  unfolding unat_div unat_10 by (rule div_less_dividend) (auto simp: unat_gt_0)

function ui64_loop :: "u64 \<Rightarrow> nat \<Rightarrow> string \<Rightarrow> (string \<times> nat) outcome" where
  "ui64_loop value p buf =
     (if p < length buf then
        let buf' = buf[p := digit_of value]; value' = value div 10
        in if value' = 0 then Ret (buf', Suc p) else ui64_loop value' (Suc p) buf'
      else Undef)"
  by pat_completeness auto
termination
  by (relation "measure (\<lambda>(value, p, buf). unat value)") (auto simp: div_10_less)

declare ui64_loop.simps [simp del]

definition INT_TO_STR_BUFLEN :: nat where
  "INT_TO_STR_BUFLEN = 30"

definition ui64_to_str2 :: "u64 \<Rightarrow> string \<Rightarrow> string outcome" where
  "ui64_to_str2 value buf =
     (if value = 0 then
        if 2 \<le> length buf then Ret (buf[0 := CHR ''0'', 1 := NUL]) else Undef
      else obind (ui64_loop value 0 buf) (\<lambda>(buf', p).
        let buf'' = rev (take p buf') @ drop p buf'
        in if p < length buf'' \<and> p < INT_TO_STR_BUFLEN then Ret (buf''[p := NUL]) else Undef))"

text \<open>\<^verbatim>\<open>-value\<close> overflows for the least \<open>tint64\<close>.\<close>

definition i64_to_str2 :: "64 word \<Rightarrow> string \<Rightarrow> string outcome" where
  "i64_to_str2 value buf =
     (if 0 \<le> sint value then ui64_to_str2 value buf
      else if sint value = - (2 ^ 63) then Undef
      else case buf of
          [] \<Rightarrow> Undef
        | _ # rest \<Rightarrow> obind (ui64_to_str2 (- value) rest) (\<lambda>rest'. Ret (CHR ''-'' # rest')))"

definition i32_to_str2 :: "32 word \<Rightarrow> string \<Rightarrow> string outcome" where
  "i32_to_str2 value buf = i64_to_str2 (scast value) buf"

definition ui32_to_str2 :: "u32 \<Rightarrow> string \<Rightarrow> string outcome" where
  "ui32_to_str2 value buf = ui64_to_str2 (ucast value) buf"

section \<open>The specification: decimal numerals\<close>

fun decimal :: "nat \<Rightarrow> string" where
  "decimal n = (if n < 10 then [char_of (48 + n)] else decimal (n div 10) @ [char_of (48 + n mod 10)])"

declare decimal.simps [simp del]

definition parse_decimal :: "string \<Rightarrow> nat" where
  "parse_decimal s = foldl (\<lambda>n c. n * 10 + (of_char c - 48)) 0 s"

lemma char_of_48: "char_of (48 :: nat) = CHR ''0''"
  by code_simp

lemma parse_append: "parse_decimal (s @ [c]) = parse_decimal s * 10 + (of_char c - 48)"
  by (simp add: parse_decimal_def)

lemma of_digit: "d < 10 \<Longrightarrow> (of_char (char_of (48 + d)) :: nat) = 48 + d"
  by simp

lemma parse_decimal: "parse_decimal (decimal n) = n"
proof (induction n rule: decimal.induct)
  case (1 n)
  then show ?case
    by (subst decimal.simps) (auto simp: parse_append, simp add: parse_decimal_def)
qed

lemma digit_not_NUL: "d < 10 \<Longrightarrow> (char_of (48 + d :: nat) :: char) \<noteq> NUL"
proof
  assume "d < 10" "char_of (48 + d :: nat) = NUL"
  then have "(of_char NUL :: nat) = 48 + d" using of_digit by metis
  then show False by (simp add: NUL_def)
qed

lemma decimal_chars: "c \<in> set (decimal n) \<Longrightarrow> \<exists>d<10. c = char_of (48 + d :: nat)"
proof (induction n rule: decimal.induct)
  case (1 n)
  show ?case
  proof (cases "n < 10")
    case True
    with 1(2) show ?thesis by (auto simp: decimal.simps [of n])
  next
    case False
    with 1(2) have "c \<in> set (decimal (n div 10)) \<or> c = char_of (48 + n mod 10)"
      by (subst (asm) decimal.simps) auto
    moreover have "n mod 10 < 10" by simp
    ultimately show ?thesis using 1(1) [OF False] by blast
  qed
qed

lemma decimal_no_NUL: "NUL \<notin> set (decimal n)"
  using decimal_chars digit_not_NUL by metis

lemma decimal_nonempty: "decimal n \<noteq> []"
  by (subst decimal.simps) simp

lemma decimal_length: "n < 10 ^ Suc k \<Longrightarrow> length (decimal n) \<le> Suc k"
proof (induction k arbitrary: n)
  case (Suc k)
  show ?case
  proof (cases "n < 10")
    case False
    have "n div 10 < 10 ^ Suc k" using Suc.prems by (simp add: less_mult_imp_div_less)
    then have "length (decimal (n div 10)) \<le> Suc k" by (rule Suc.IH)
    with False show ?thesis by (subst decimal.simps) simp
  qed (simp add: decimal.simps)
qed (simp add: decimal.simps)

lemma decimal_no_leading_0: "0 < n \<Longrightarrow> hd (decimal n) \<noteq> CHR ''0''"
proof (induction n rule: decimal.induct)
  case (1 n)
  show ?case
  proof (cases "n < 10")
    case True
    have "(of_char (char_of (48 + n) :: char) :: nat) \<noteq> of_char (CHR ''0'')"
      using 1(2) True by (simp add: of_digit)
    then have "char_of (48 + n) \<noteq> CHR ''0''" by metis
    with True show ?thesis by (simp add: decimal.simps [of n])
  next
    case False
    with 1 have "hd (decimal (n div 10)) \<noteq> CHR ''0''" by simp
    with False show ?thesis by (subst decimal.simps) (simp add: decimal_nonempty)
  qed
qed

lemma cstr_prefix: "NUL \<notin> set s \<Longrightarrow> cstr (s @ NUL # rest) = s"
  by (induction s) (auto simp: cstr_def)

section \<open>The digits loop computes the numeral\<close>

lemma digit_of: "digit_of v = char_of (48 + unat v mod 10)"
  by (simp add: digit_of_def unat_mod)

lemma ui64_loop_spec:
  "v \<noteq> 0 \<Longrightarrow> p + length (decimal (unat v)) \<le> length buf \<Longrightarrow>
   ui64_loop v p buf = Ret (take p buf @ rev (decimal (unat v)) @ drop (p + length (decimal (unat v))) buf,
     p + length (decimal (unat v)))"
proof (induction v p buf rule: ui64_loop.induct)
  case (1 v p buf)
  have div10: "unat (v div 10) = unat v div 10" by (simp add: unat_div)
  have z: "v div 10 = 0 \<longleftrightarrow> unat v < 10"
    by (metis div10 unat_eq_zero div_eq_0_iff zero_neq_numeral)
  have p: "p < length buf" using 1(3) decimal_nonempty [of "unat v"] by (cases "decimal (unat v)") auto
  have upd: "buf[p := x] = take p buf @ x # drop (Suc p) buf" for x using p by (simp add: upd_conv_take_nth_drop)
  show ?case
  proof (cases "v div 10 = 0")
    case True
    then have d: "decimal (unat v) = [digit_of v]" using z by (simp add: decimal.simps digit_of)
    then show ?thesis using True p upd by (subst ui64_loop.simps) (simp add: Let_def)
  next
    case False
    define q where "q = unat (v div 10)"
    have d: "decimal (unat v) = decimal q @ [digit_of v]"
      using z False by (subst decimal.simps) (simp add: q_def div10 digit_of)
    have "ui64_loop (v div 10) (Suc p) (buf[p := digit_of v]) =
        Ret (take (Suc p) (buf[p := digit_of v]) @ rev (decimal q) @ drop (Suc p + length (decimal q)) (buf[p := digit_of v]),
          Suc p + length (decimal q))"
      unfolding q_def using 1(3) d False p by (intro 1(1)) (auto simp: q_def)
    moreover have "take (Suc p) (buf[p := digit_of v]) = take p buf @ [digit_of v]"
      using p by (simp add: upd take_Suc_conv_app_nth)
    ultimately show ?thesis using False p d by (subst ui64_loop.simps) (simp add: Let_def)
  qed
qed

lemma ui64_digits: "length (decimal (unat (v :: u64))) \<le> 20"
proof -
  have "unat v < 10 ^ Suc 19" using unat_lt_u64 [of v] by simp
  then show ?thesis using decimal_length [of "unat v" 19] by simp
qed

lemma ui64_str_spec:
  assumes "21 \<le> length buf"
  shows "\<exists>buf'. ui64_to_str2 v buf = Ret buf' \<and> length buf' = length buf \<and> cstr buf' = decimal (unat v)"
proof (cases "v = 0")
  case True
  have "buf[0 := CHR ''0'', 1 := NUL] = [CHR ''0''] @ NUL # drop 2 buf"
    using assms by (cases buf; cases "tl buf") auto
  moreover have "decimal 0 = ''0''" by (simp add: decimal.simps char_of_48)
  moreover have "cstr ([CHR ''0''] @ NUL # drop 2 buf) = ''0''" by (rule cstr_prefix) (simp add: NUL_def)
  ultimately show ?thesis using True assms by (simp add: ui64_to_str2_def)
next
  case False
  let ?d = "decimal (unat v)" and ?n = "length (decimal (unat v))"
  have n: "?n \<le> 20" by (rule ui64_digits)
  have loop: "ui64_loop v 0 buf = Ret (rev ?d @ drop ?n buf, ?n)"
    using ui64_loop_spec [OF False, of 0 buf] n assms by simp
  have dr: "drop ?n buf = buf ! ?n # drop (Suc ?n) buf" using n assms by (simp add: Cons_nth_drop_Suc)
  have "(?d @ drop ?n buf)[?n := NUL] = ?d @ NUL # drop (Suc ?n) buf"
    unfolding dr by simp
  with loop False n assms show ?thesis
    by (auto simp: ui64_to_str2_def Let_def INT_TO_STR_BUFLEN_def cstr_prefix decimal_no_NUL)
qed

section \<open>Byte order\<close>

text \<open>\<^verbatim>\<open>temp[k]\<close>, the \<open>k\<close>th byte of the value in the memory of a little endian machine.\<close>

definition byte_of :: "'a::len word \<Rightarrow> nat \<Rightarrow> byte" where
  "byte_of x k = ucast (shr x (8 * k))"

definition be_to_le32 :: "u32 \<Rightarrow> u32" where
  "be_to_le32 value =
     ((shl (ucast (byte_of value 0)) 24 OR shl (ucast (byte_of value 1)) 16) OR
      shl (ucast (byte_of value 2)) 8) OR ucast (byte_of value 3)"

definition be_to_le16 :: "u16 \<Rightarrow> u16" where
  "be_to_le16 value = shl (ucast (byte_of value 0)) 8 OR ucast (byte_of value 1)"

lemma bit_byte_of: "bit (byte_of x k) n \<longleftrightarrow> n < 8 \<and> bit x (n + 8 * k)"
  by (auto simp: byte_of_def bit_ucast_iff bit_shr dest: bit_imp_le_length)

section \<open>DOS times\<close>

record tm =
  tm_sec :: int
  tm_min :: int
  tm_hour :: int
  tm_mday :: int
  tm_mon :: int
  tm_year :: int
  tm_wday :: int
  tm_yday :: int
  tm_isdst :: int

text \<open>The arithmetic is in \<open>int\<close>; every assignment keeps the low 16 bits.\<close>

definition u16_of :: "int \<Rightarrow> u16" where
  "u16_of i = of_int i"

definition tm_to_dostime :: "tm \<Rightarrow> u16 \<times> u16" where
  "tm_to_dostime time =
     ((u16_of (tm_mday time) OR u16_of (uint (u16_of (tm_mon time + 1)) * 2 ^ 5)) OR
        u16_of (uint (u16_of (tm_year time - 80)) * 2 ^ 9),
      (u16_of (tm_sec time div 2) OR u16_of (uint (u16_of (tm_min time)) * 2 ^ 5)) OR
        u16_of (uint (u16_of (tm_hour time)) * 2 ^ 11))"

section \<open>sprintf\<close>

text \<open>
  The Unix form: \<^verbatim>\<open>vsnprintf(buffer,size - 1,format,ap)\<close>, where \<open>text\<close> is what the
  format expands to. \<^verbatim>\<open>vsnprintf\<close> with a bound of \<open>n\<close> writes at most \<open>n - 1\<close>
  characters and a null character, and nothing when \<open>n\<close> is 0. The bound is a \<open>size_t\<close>, that
  wraps when \<open>size\<close> is 0.
\<close>

definition vsnprintf :: "string \<Rightarrow> u64 \<Rightarrow> string \<Rightarrow> string outcome" where
  "vsnprintf buf n txt =
     (if n = 0 then Ret buf
      else let out = take (unat n - 1) txt @ [NUL]
           in if length out \<le> length buf then Ret (out @ drop (length out) buf) else Undef)"

definition convert_sprintf :: "string \<Rightarrow> u64 \<Rightarrow> string \<Rightarrow> string outcome" where
  "convert_sprintf buf sz txt = vsnprintf buf (sz - 1) txt"

section \<open>Theorems\<close>

text \<open>C35: \<^verbatim>\<open>ui64_to_str2\<close> puts the canonical decimal numeral of every 64 bit value into any
  buffer of at least 21 characters: reading it back gives the value, it has at most 20 digits
  and no leading zero, and the rest of the memory is untouched.\<close>

theorem ui64_round_trip:
  assumes "21 \<le> length buf"
  shows "\<exists>buf'. ui64_to_str2 v buf = Ret buf' \<and> length buf' = length buf \<and>
    parse_decimal (cstr buf') = unat v \<and> length (cstr buf') \<le> 20 \<and>
    (v \<noteq> 0 \<longrightarrow> hd (cstr buf') \<noteq> CHR ''0'')"
  using ui64_str_spec [OF assms, of v] ui64_digits [of v] decimal_no_leading_0 [of "unat v"]
  by (auto simp: parse_decimal unat_gt_0)

theorem ui64_round_trip_witness:
  "\<exists>buf'. ui64_to_str2 18446744073709551615 (replicate 21 NUL) = Ret buf' \<and>
    length buf' = length (replicate 21 NUL) \<and>
    parse_decimal (cstr buf') = unat (18446744073709551615 :: u64) \<and> length (cstr buf') \<le> 20 \<and>
    ((18446744073709551615 :: u64) \<noteq> 0 \<longrightarrow> hd (cstr buf') \<noteq> CHR ''0'')"
  by (rule ui64_round_trip) simp

lemma unat_of_int_u64: "0 \<le> x \<Longrightarrow> x < 2 ^ 64 \<Longrightarrow> int (unat (of_int x :: u64)) = x"
  by (simp add: uint_nat [symmetric] unsigned_of_int take_bit_int_eq_self)

lemma sint_u64: "- (2 ^ 63) \<le> sint (v :: u64)" "sint v < 2 ^ 63"
  using sint_greater_eq [of v] sint_less [of v] by simp_all

lemma sint_magnitude:
  "0 \<le> sint (v :: u64) \<Longrightarrow> int (unat v) = sint v"
  "sint (v :: u64) < 0 \<Longrightarrow> int (unat (- v)) = - sint v"
  using unat_of_int_u64 [of "sint v"] unat_of_int_u64 [of "- sint v"] sint_u64 [of v] by simp_all

text \<open>\<^verbatim>\<open>i64_to_str2\<close> prints the sign and the magnitude of every \<open>tint64\<close> into a buffer of
  at least 22 characters, except for the least one, whose negation overflows.\<close>

theorem i64_round_trip:
  assumes "22 \<le> length buf"
  shows "if sint v = - (2 ^ 63) then i64_to_str2 v buf = Undef
    else \<exists>buf'. i64_to_str2 v buf = Ret buf' \<and>
      (if 0 \<le> sint v then int (parse_decimal (cstr buf')) = sint v
       else hd (cstr buf') = CHR ''-'' \<and> - int (parse_decimal (tl (cstr buf'))) = sint v)"
proof (cases "0 \<le> sint v")
  case True
  note u = sint_magnitude(1) [OF True]
  from ui64_str_spec [of buf v] assms obtain buf' where
    "ui64_to_str2 v buf = Ret buf'" "cstr buf' = decimal (unat v)" by auto
  moreover from this have "int (parse_decimal (cstr buf')) = sint v" using u by (metis parse_decimal)
  moreover have "i64_to_str2 v buf = ui64_to_str2 v buf" using True by (simp add: i64_to_str2_def)
  moreover have "sint v \<noteq> - (2 ^ 63)" using True by auto
  ultimately show ?thesis using True by (metis (lifting))
next
  case False
  then obtain c rest where buf: "buf = c # rest" "21 \<le> length rest" using assms by (cases buf) auto
  show ?thesis
  proof (cases "sint v = - (2 ^ 63)")
    case True
    then show ?thesis using False by (simp add: i64_to_str2_def)
  next
    case ne: False
    have u: "int (unat (- v)) = - sint v" using False by (intro sint_magnitude) simp
    from ui64_str_spec [OF buf(2), of "- v"] obtain rest' where
      r: "ui64_to_str2 (- v) rest = Ret rest'" "cstr rest' = decimal (unat (- v))" by auto
    have "cstr (CHR ''-'' # rest') = CHR ''-'' # cstr rest'" by (simp add: cstr_def NUL_def)
    with r u ne False buf show ?thesis by (simp add: i64_to_str2_def parse_decimal)
  qed
qed

theorem i64_round_trip_witness:
  "if sint (-75 :: u64) = - (2 ^ 63) then i64_to_str2 (-75) (replicate 22 NUL) = Undef
    else \<exists>buf'. i64_to_str2 (-75) (replicate 22 NUL) = Ret buf' \<and>
      (if 0 \<le> sint (-75 :: u64) then int (parse_decimal (cstr buf')) = sint (-75 :: u64)
       else hd (cstr buf') = CHR ''-'' \<and> - int (parse_decimal (tl (cstr buf'))) = sint (-75 :: u64))"
  by (rule i64_round_trip) simp

lemma nat_less_4: "k < 4 \<Longrightarrow> k = 0 \<or> k = 1 \<or> k = 2 \<or> k = (3::nat)"
  by linarith

lemma be_to_le32_byte: "k < 4 \<Longrightarrow> byte_of (be_to_le32 x) k = byte_of x (3 - k)"
proof (rule bit_word_eqI)
  fix n assume k: "k < 4" and "n < LENGTH(8)"
  then have n: "n < 8" by simp
  show "bit (byte_of (be_to_le32 x) k) n = bit (byte_of x (3 - k)) n"
    using nat_less_4 [OF k] n
    by (elim disjE) (auto simp: bit_byte_of be_to_le32_def bit_or_iff bit_shl bit_ucast_iff)
qed

lemma bytes_join:
  fixes x :: u32
  shows "((shl (ucast (byte_of x 3)) 24 OR shl (ucast (byte_of x 2)) 16) OR shl (ucast (byte_of x 1)) 8) OR
    ucast (byte_of x 0) = x"
proof (rule word32_eqI)
  fix n :: nat assume "n < 32"
  then have "n < 8 \<or> (8 \<le> n \<and> n < 16) \<or> (16 \<le> n \<and> n < 24) \<or> (24 \<le> n \<and> n < 32)" by linarith
  then show "bit (((shl (ucast (byte_of x 3)) 24 OR shl (ucast (byte_of x 2)) 16) OR
      shl (ucast (byte_of x 1)) 8) OR ucast (byte_of x 0) :: u32) n = bit x n"
    by (elim disjE) (auto simp: bit_byte_of bit_or_iff bit_shl bit_ucast_iff)
qed

text \<open>The 32 bit byte swap reverses the four bytes, and twice is the identity.\<close>

theorem be_to_le32_swaps:
  "map (byte_of (be_to_le32 x)) [0..<4] = rev (map (byte_of x) [0..<4]) \<and> be_to_le32 (be_to_le32 x) = x"
proof
  have l: "[0..<4] = [0, 1, 2, 3 :: nat]" by (simp add: upt_rec)
  show "map (byte_of (be_to_le32 x)) [0..<4] = rev (map (byte_of x) [0..<4])"
    unfolding l using be_to_le32_byte [of 0 x] be_to_le32_byte [of 1 x] be_to_le32_byte [of 2 x]
      be_to_le32_byte [of 3 x] by simp
  have b: "byte_of (be_to_le32 x) 0 = byte_of x 3" "byte_of (be_to_le32 x) 1 = byte_of x 2"
    "byte_of (be_to_le32 x) 2 = byte_of x 1" "byte_of (be_to_le32 x) 3 = byte_of x 0"
    using be_to_le32_byte [of 0 x] be_to_le32_byte [of 1 x] be_to_le32_byte [of 2 x]
      be_to_le32_byte [of 3 x] by simp_all
  show "be_to_le32 (be_to_le32 x) = x"
    unfolding be_to_le32_def [of "be_to_le32 x"] b by (rule bytes_join)
qed

lemma u16_bits:
  assumes "0 \<le> x" "x < 2 ^ n" "n \<le> 16"
  shows "bit (of_int x :: u16) k \<Longrightarrow> k < n" and "int (unat (of_int x :: u16)) = x"
proof -
  have "(2::int) ^ n \<le> 2 ^ 16" using assms(3) by (rule power_increasing) simp
  with assms show u: "int (unat (of_int x :: u16)) = x"
    by (simp add: uint_nat [symmetric] unsigned_of_int take_bit_int_eq_self)
  have "take_bit n (of_int x :: u16) = of_int x"
    using assms by (simp add: take_bit_of_int take_bit_int_eq_self)
  then show "bit (of_int x :: u16) k \<Longrightarrow> k < n" by (metis bit_take_bit_iff)
qed

lemma u16_shifted:
  assumes "0 \<le> x" "x < 2 ^ 16"
  shows "u16_of (uint (u16_of x) * 2 ^ k) = shl (of_int x) k"
proof -
  have "uint (u16_of x) = x" using assms by (simp add: u16_of_def unsigned_of_int take_bit_int_eq_self)
  then show ?thesis by (simp add: u16_of_def shl_def push_bit_eq_mult mult.commute)
qed

lemma u16_pack:
  assumes "\<And>k. bit a k \<Longrightarrow> k < m" "\<And>k. bit b k \<Longrightarrow> k < n" "m + n + p = 16" "\<And>k. bit c k \<Longrightarrow> k < p"
  defines "w \<equiv> (a OR shl b m) OR shl c (m + n) :: u16"
  shows "take_bit m w = a" "take_bit n (shr w m) = b" "shr w (m + n) = c"
proof -
  show "take_bit m w = a"
    by (rule bit_word_eqI) (auto simp: w_def bit_take_bit_iff bit_or_iff bit_shl dest: assms(1))
  show "take_bit n (shr w m) = b"
    by (rule bit_word_eqI) (use assms(3) in \<open>auto simp: w_def bit_take_bit_iff bit_or_iff bit_shl bit_shr dest: assms(1,2)\<close>)
  show "shr w (m + n) = c"
    by (rule bit_word_eqI) (use assms(3) in \<open>auto simp: w_def bit_or_iff bit_shl bit_shr dest: assms(1,2,4)\<close>)
qed

text \<open>Every date and time that the DOS format can hold can be read back from the two 16 bit
  values, the seconds to a precision of two.\<close>

theorem dostime_round_trip:
  assumes "80 \<le> tm_year t" "tm_year t < 208" "0 \<le> tm_mon t" "tm_mon t < 12" "1 \<le> tm_mday t" "tm_mday t \<le> 31"
    and "0 \<le> tm_hour t" "tm_hour t < 24" "0 \<le> tm_min t" "tm_min t < 60" "0 \<le> tm_sec t" "tm_sec t < 60"
  shows "case tm_to_dostime t of (date, time) \<Rightarrow>
    int (unat (take_bit 5 date)) = tm_mday t \<and> int (unat (take_bit 4 (shr date 5))) = tm_mon t + 1 \<and>
    int (unat (shr date 9)) = tm_year t - 80 \<and>
    int (unat (take_bit 5 time)) = tm_sec t div 2 \<and> int (unat (take_bit 6 (shr time 5))) = tm_min t \<and>
    int (unat (shr time 11)) = tm_hour t"
proof -
  let ?d = "of_int (tm_mday t) :: u16" and ?m = "of_int (tm_mon t + 1) :: u16"
  let ?y = "of_int (tm_year t - 80) :: u16" and ?s = "of_int (tm_sec t div 2) :: u16"
  let ?n = "of_int (tm_min t) :: u16" and ?h = "of_int (tm_hour t) :: u16"
  have r: "0 \<le> tm_mday t" "tm_mday t < 2 ^ 5" "0 \<le> tm_mon t + 1" "tm_mon t + 1 < 2 ^ 4"
    "0 \<le> tm_year t - 80" "tm_year t - 80 < 2 ^ 7" "0 \<le> tm_sec t div 2" "tm_sec t div 2 < 2 ^ 5"
    "0 \<le> tm_min t" "tm_min t < 2 ^ 6" "0 \<le> tm_hour t" "tm_hour t < 2 ^ 5"
    using assms by auto
  have sh: "u16_of (uint (u16_of (tm_mon t + 1)) * 2 ^ 5) = shl ?m 5"
    "u16_of (uint (u16_of (tm_year t - 80)) * 2 ^ 9) = shl ?y (5 + 4)"
    "u16_of (uint (u16_of (tm_min t)) * 2 ^ 5) = shl ?n 5"
    "u16_of (uint (u16_of (tm_hour t)) * 2 ^ 11) = shl ?h (5 + 6)"
    using r u16_shifted [of "tm_mon t + 1" 5] u16_shifted [of "tm_year t - 80" 9]
      u16_shifted [of "tm_min t" 5] u16_shifted [of "tm_hour t" 11] by simp_all
  have date: "fst (tm_to_dostime t) = (?d OR shl ?m 5) OR shl ?y (5 + 4)"
    and time: "snd (tm_to_dostime t) = (?s OR shl ?n 5) OR shl ?h (5 + 6)"
    unfolding tm_to_dostime_def sh by (simp_all add: u16_of_def)
  note bits = u16_bits(1) [OF r(1,2)] u16_bits(1) [OF r(3,4)] u16_bits(1) [OF r(5,6)]
    u16_bits(1) [OF r(7,8)] u16_bits(1) [OF r(9,10)] u16_bits(1) [OF r(11,12)]
  note d = u16_pack [where m = 5 and n = 4 and p = 7 and a = ?d and b = ?m and c = ?y]
  note h = u16_pack [where m = 5 and n = 6 and p = 5 and a = ?s and b = ?n and c = ?h]
  have "take_bit 5 (fst (tm_to_dostime t)) = ?d" "take_bit 4 (shr (fst (tm_to_dostime t)) 5) = ?m"
    "shr (fst (tm_to_dostime t)) (5 + 4) = ?y"
    unfolding date by (rule d; simp add: bits)+
  moreover have "take_bit 5 (snd (tm_to_dostime t)) = ?s" "take_bit 6 (shr (snd (tm_to_dostime t)) 5) = ?n"
    "shr (snd (tm_to_dostime t)) (5 + 6) = ?h"
    unfolding time by (rule h; simp add: bits)+
  moreover have "int (unat ?d) = tm_mday t" "int (unat ?m) = tm_mon t + 1" "int (unat ?y) = tm_year t - 80"
    "int (unat ?s) = tm_sec t div 2" "int (unat ?n) = tm_min t" "int (unat ?h) = tm_hour t"
    using u16_bits(2) [OF r(1,2)] u16_bits(2) [OF r(3,4)] u16_bits(2) [OF r(5,6)]
      u16_bits(2) [OF r(7,8)] u16_bits(2) [OF r(9,10)] u16_bits(2) [OF r(11,12)] by simp_all
  ultimately show ?thesis by (simp add: case_prod_beta)
qed

definition moon_landing :: tm where
  "moon_landing = \<lparr>tm_sec = 19, tm_min = 56, tm_hour = 2, tm_mday = 21, tm_mon = 6, tm_year = 169,
     tm_wday = 1, tm_yday = 201, tm_isdst = 0\<rparr>"

theorem dostime_round_trip_witness:
  "case tm_to_dostime moon_landing of (date, time) \<Rightarrow>
    int (unat (take_bit 5 date)) = tm_mday moon_landing \<and>
    int (unat (take_bit 4 (shr date 5))) = tm_mon moon_landing + 1 \<and>
    int (unat (shr date 9)) = tm_year moon_landing - 80 \<and>
    int (unat (take_bit 5 time)) = tm_sec moon_landing div 2 \<and>
    int (unat (take_bit 6 (shr time 5))) = tm_min moon_landing \<and>
    int (unat (shr time 11)) = tm_hour moon_landing"
  by (rule dostime_round_trip) (simp_all add: moon_landing_def)

text \<open>The Unix \<^verbatim>\<open>convert::sprintf\<close> never writes outside a buffer of \<open>size\<close> characters and
  always terminates it, but it holds two characters less than its size, not one.\<close>

theorem convert_sprintf_bounds:
  assumes "2 \<le> sz" "unat sz \<le> length buf" "NUL \<notin> set txt"
  shows "\<exists>buf'. convert_sprintf buf sz txt = Ret buf' \<and> length buf' = length buf \<and>
    cstr buf' = take (unat sz - 2) txt \<and> drop (unat sz - 1) buf' = drop (unat sz - 1) buf"
proof -
  have s: "2 \<le> unat sz" using assms(1) by (simp add: word_le_nat_alt)
  then have n: "unat (sz - 1) = unat sz - 1" by (subst unat_u64_diff) auto
  let ?t = "take (unat sz - 2) txt"
  have e: "unat sz - 1 - 1 = unat sz - 2" by simp
  have "NUL \<notin> set ?t" using assms(3) by (meson in_set_takeD)
  then have c: "cstr (?t @ NUL # rest) = ?t" for rest by (rule cstr_prefix)
  have nz: "sz - 1 \<noteq> 0"
  proof
    assume "sz - 1 = 0"
    then have "unat (sz - 1) = 0" by simp
    with n s show False by linarith
  qed
  define out where "out = ?t @ [NUL]"
  have lt: "length out \<le> unat sz - 1" using s by (simp add: out_def)
  have r: "convert_sprintf buf sz txt = Ret (out @ drop (length out) buf)"
    using nz lt assms(2) unfolding convert_sprintf_def vsnprintf_def n e out_def [symmetric] by simp
  have q: "unat sz - 1 - length out + length out = unat sz - 1" using lt by simp
  have "drop (unat sz - 1) (out @ drop (length out) buf) = drop (unat sz - 1) buf"
    unfolding drop_append drop_drop q using lt by simp
  moreover have "length (out @ drop (length out) buf) = length buf"
    using lt s assms(2) by simp
  moreover have "cstr (out @ drop (length out) buf) = ?t" unfolding out_def using c by simp
  ultimately show ?thesis using r by blast
qed

theorem convert_sprintf_bounds_witness:
  "\<exists>buf'. convert_sprintf (replicate 6 CHR ''x'') 5 ''hello'' = Ret buf' \<and>
    length buf' = length (replicate 6 CHR ''x'') \<and>
    cstr buf' = take (unat (5::u64) - 2) ''hello'' \<and>
    drop (unat (5::u64) - 1) buf' = drop (unat (5::u64) - 1) (replicate 6 CHR ''x'')"
  by (rule convert_sprintf_bounds) (simp_all add: NUL_def)

end
