(* ===== verification/Strings.thy ===== *)
theory Strings
  imports Convert
begin

text \<open>
  The string functions of \<^verbatim>\<open>src/string.cc\<close> as a Unix build compiles them
  (\<^verbatim>\<open>tchar\<close> is \<open>char\<close>, \<^verbatim>\<open>wchar_t\<close> a signed 32 bit integer). A C string is a
  buffer with a null character in it; its text is \<open>cstr\<close> of the buffer. A \<open>tstring\<close> is a list of
  characters.
\<close>

section \<open>Wrappers of the C string functions\<close>

text \<open>
  \<^verbatim>\<open>strcmp\<close> compares as \<open>unsigned char\<close>; only the sign of its result is specified, and
  -1, 0 and 1 stand for it. \<^verbatim>\<open>strcasecmp\<close> is the one of the C locale.
\<close>

fun char_cmp :: "string \<Rightarrow> string \<Rightarrow> int" where
  "char_cmp [] [] = 0"
| "char_cmp [] (b # bs) = -1"
| "char_cmp (a # as) [] = 1"
| "char_cmp (a # as) (b # bs) =
     (if (of_char a :: nat) < of_char b then -1 else if (of_char b :: nat) < of_char a then 1 else char_cmp as bs)"

definition to_lower :: "char \<Rightarrow> char" where
  "to_lower c = (let n = of_char c :: nat in if 65 \<le> n \<and> n \<le> 90 then char_of (n + 32) else c)"

definition astrcmp :: "string \<Rightarrow> string \<Rightarrow> int" where
  "astrcmp str1 str2 = char_cmp (cstr str1) (cstr str2)"

definition astrncmp :: "string \<Rightarrow> string \<Rightarrow> nat \<Rightarrow> int" where
  "astrncmp str1 str2 n = char_cmp (take n (cstr str1)) (take n (cstr str2))"

definition astrcmpi :: "string \<Rightarrow> string \<Rightarrow> int" where
  "astrcmpi str1 str2 = char_cmp (map to_lower (cstr str1)) (map to_lower (cstr str2))"

definition astrncmpi :: "string \<Rightarrow> string \<Rightarrow> nat \<Rightarrow> int" where
  "astrncmpi str1 str2 n = char_cmp (map to_lower (take n (cstr str1))) (map to_lower (take n (cstr str2)))"

definition terminated :: "string \<Rightarrow> bool" where
  "terminated buf \<longleftrightarrow> NUL \<in> set buf"

definition astrlen :: "string \<Rightarrow> nat outcome" where
  "astrlen str = (if terminated str then Ret (length (cstr str)) else Undef)"

text \<open>The copies write into the object that holds \<open>str1\<close>.\<close>

definition astrcpy :: "string \<Rightarrow> string \<Rightarrow> string outcome" where
  "astrcpy str1 str2 = (let s = cstr str2 @ [NUL]
     in if terminated str2 \<and> length s \<le> length str1 then Ret (s @ drop (length s) str1) else Undef)"

definition strncpy :: "string \<Rightarrow> string \<Rightarrow> nat \<Rightarrow> string outcome" where
  "strncpy dst src n = (if n \<le> length dst
     then Ret (take n (cstr src) @ replicate (n - length (cstr src)) NUL @ drop n dst) else Undef)"

definition astrncpy :: "string \<Rightarrow> string \<Rightarrow> nat \<Rightarrow> string outcome" where
  "astrncpy str1 str2 n = strncpy str1 str2 n"

section \<open>Conversions between narrow and wide text\<close>

type_synonym wchar = u32

text \<open>
  \<open>utf[i] = ansi[i]\<close> converts a signed \<open>char\<close> to a \<open>wchar_t\<close>: the sign is extended. A negative
  length is against the assertion of the function; with a length of 0, \<open>utf_len - 1\<close> becomes
  the largest \<open>size_t\<close> and the loop leaves the buffer.
\<close>

definition wide_of :: "char \<Rightarrow> wchar" where
  "wide_of c = scast (of_char c :: byte)"

definition narrow_of :: "wchar \<Rightarrow> char" where
  "narrow_of w = char_of (unat (w AND 0xff))"

definition wstr :: "wchar list \<Rightarrow> wchar list" where
  "wstr buf = takeWhile (\<lambda>w. w \<noteq> 0) buf"

definition ansi_to_utf16 :: "string \<Rightarrow> wchar list \<Rightarrow> int \<Rightarrow> wchar list outcome" where
  "ansi_to_utf16 ansi utf utf_len =
     (if utf_len \<le> 0 \<or> \<not> terminated ansi then Undef
      else let ansi_len = length (cstr ansi); n = nat utf_len;
               out_len = (if n \<le> ansi_len then n - 1 else ansi_len)
           in if out_len < length utf
              then Ret (map wide_of (take out_len ansi) @ 0 # drop (Suc out_len) utf)
              else Undef)"

definition utf16_to_ansi :: "wchar list \<Rightarrow> string \<Rightarrow> int \<Rightarrow> string outcome" where
  "utf16_to_ansi utf ansi ansi_len =
     (if ansi_len \<le> 0 \<or> 0 \<notin> set utf then Undef
      else let utf_len = length (wstr utf); n = nat ansi_len;
               out_len = (if n \<le> utf_len then n - 1 else utf_len)
           in if out_len < length ansi
              then Ret (map narrow_of (take out_len utf) @ NUL # drop (Suc out_len) ansi)
              else Undef)"

definition ansi_to_auto :: "string \<Rightarrow> string \<Rightarrow> nat \<Rightarrow> string outcome" where
  "ansi_to_auto ansi out out_len = strncpy out ansi out_len"

definition to_auto :: "string \<Rightarrow> string" where
  "to_auto str = cstr str"

definition to_auto_string :: "string \<Rightarrow> string" where
  "to_auto_string str = to_auto (str @ [NUL])"

text \<open>The templates, whose parameter \<open>S\<close> is the size of a local buffer.\<close>

definition ansi_to_auto_tmpl :: "string \<Rightarrow> string" where
  "ansi_to_auto_tmpl str = cstr str"

definition auto_to_ansi_tmpl :: "string \<Rightarrow> string" where
  "auto_to_ansi_tmpl str = cstr str"

definition utf16_to_auto_tmpl :: "nat \<Rightarrow> wchar list \<Rightarrow> string outcome" where
  "utf16_to_auto_tmpl S str = obind (utf16_to_ansi str (replicate S NUL) (int S)) (\<lambda>res. Ret (cstr res))"

section \<open>Formatted text\<close>

text \<open>
  The directives of \<^verbatim>\<open>vsnprintf\<close> that the library uses: \<open>%s\<close>, \<open>%d\<close>, \<open>%u\<close> and \<open>%%\<close>.
  Anything else, an argument of the wrong type or a missing one is \<open>None\<close>.
\<close>

datatype fmt_arg = AStr string | AInt int

fun expand :: "string \<Rightarrow> fmt_arg list \<Rightarrow> string option" where
  "expand [] args = Some []"
| "expand (c # fmt) args =
     (if c \<noteq> CHR ''%'' then map_option (\<lambda>s. c # s) (expand fmt args)
      else case fmt of
          [] \<Rightarrow> None
        | d # fmt' \<Rightarrow>
            if d = CHR ''%'' then map_option (\<lambda>s. CHR ''%'' # s) (expand fmt' args)
            else case args of
                [] \<Rightarrow> None
              | AStr s # args' \<Rightarrow>
                  if d = CHR ''s'' then map_option (\<lambda>r. s @ r) (expand fmt' args') else None
              | AInt i # args' \<Rightarrow>
                  if d = CHR ''d'' then
                    map_option (\<lambda>r. (if i < 0 then CHR ''-'' # decimal (nat (- i)) else decimal (nat i)) @ r)
                      (expand fmt' args')
                  else if d = CHR ''u'' \<and> 0 \<le> i then map_option (\<lambda>r. decimal (nat i) @ r) (expand fmt' args')
                  else None)"

text \<open>
  \<open>vformatstr\<close>: the first \<^verbatim>\<open>vsnprintf\<close> counts, the second writes into \<open>res\<close>, resized to
  one more character for the terminator, and the last \<^verbatim>\<open>resize\<close> cuts the terminator off.
\<close>

definition vformatstr :: "string \<Rightarrow> fmt_arg list \<Rightarrow> string outcome" where
  "vformatstr fmt args = (case expand fmt args of
       None \<Rightarrow> Undef
     | Some txt \<Rightarrow>
         let char_cnt = length txt in
         if char_cnt = 0 then Ret []
         else obind (vsnprintf (replicate (char_cnt + 1) NUL) (of_nat (char_cnt + 1)) txt) (\<lambda>res.
           Ret (take char_cnt res)))"

definition formatstr :: "string \<Rightarrow> fmt_arg list \<Rightarrow> string outcome" where
  "formatstr fmt args = vformatstr fmt args"

section \<open>Lemmas\<close>

lemma char_cmp_refl [simp]: "char_cmp a a = 0"
  by (induction a) auto

lemma char_cmp_eq_0: "char_cmp a b = 0 \<longleftrightarrow> a = b"
proof (induction a b rule: char_cmp.induct)
  case (4 a as b bs)
  have "(of_char a :: nat) = of_char b \<longleftrightarrow> a = b" by simp
  then show ?case using 4 by (auto simp: not_less dest: le_antisym)
qed simp_all

lemma char_cmp_swap: "char_cmp b a = - char_cmp a b"
  by (induction a b rule: char_cmp.induct) auto

text \<open>The two narrowings undo the sign extension.\<close>

lemma unat_of_char: "unat (of_char c :: byte) = of_char c"
proof -
  have "(of_char c :: byte) = of_nat (of_char c)" by (simp only: of_nat_of_char)
  moreover have "(of_char c :: nat) < 2 ^ 8" using nat_of_char_less_256 [of c] by simp
  ultimately show ?thesis by (simp only: unat_of_nat_u8)
qed

lemma low_byte_of_wide: "wide_of c AND 0xff = (ucast (of_char c :: byte) :: u32)"
proof (rule word32_eqI)
  fix n :: nat assume "n < 32"
  have ff: "x AND 0xff = take_bit 8 (x :: u32)" for x
    by (simp add: take_bit_eq_mask mask_eq_exp_minus_1)
  have "n < 7 \<or> n = 7 \<or> 8 \<le> n" by linarith
  then show "bit (wide_of c AND 0xff) n = bit (ucast (of_char c :: byte) :: u32) n"
    unfolding ff wide_of_def
    by (auto simp: bit_take_bit_iff bit_signed_iff bit_ucast_iff min_def dest: bit_imp_le_length)
qed

lemma narrow_wide: "narrow_of (wide_of c) = c"
proof -
  have "unat (of_char c :: byte) < 2 ^ 32" by (rule order_less_le_trans [OF unsigned_less]) simp
  then have "unat (wide_of c AND 0xff) = unat (of_char c :: byte)"
    unfolding low_byte_of_wide by (simp add: unsigned_ucast_eq take_bit_nat_eq_self)
  also have "\<dots> = of_char c"
    by (simp add: unat_of_char)
  finally show ?thesis by (simp add: narrow_of_def)
qed

lemma wide_0: "wide_of c = 0 \<longleftrightarrow> c = NUL"
proof
  assume "wide_of c = 0"
  then have "narrow_of 0 = c" using narrow_wide [of c] by simp
  moreover have "narrow_of 0 = NUL" by code_simp
  ultimately show "c = NUL" by simp
qed (simp add: wide_of_def NUL_def)

lemma cstr_take_length: "cstr s = take (length (cstr s)) s"
  unfolding cstr_def by (rule takeWhile_eq_take)

lemma cstr_no_NUL: "NUL \<notin> set (cstr s)"
  by (auto simp: cstr_def dest: set_takeWhileD)

lemma take_cstr: "n \<le> length (cstr s) \<Longrightarrow> take n s = take n (cstr s)"
proof -
  assume n: "n \<le> length (cstr s)"
  have "take n (cstr s @ dropWhile (\<lambda>c. c \<noteq> NUL) s) = take n (cstr s)" using n by simp
  then show ?thesis by (simp add: cstr_def)
qed

lemma wstr_map_wide: "NUL \<notin> set s \<Longrightarrow> wstr (map wide_of s @ 0 # rest) = map wide_of s"
  by (induction s) (auto simp: wstr_def wide_0)

lemma expand_literal: "CHR ''%'' \<notin> set s \<Longrightarrow> expand (s @ fmt) args = map_option (\<lambda>r. s @ r) (expand fmt args)"
  by (induction s) (cases "expand fmt args", auto)+

lemma vformatstr_expand:
  assumes "expand fmt args = Some txt" "length txt + 2 < 2 ^ 64"
  shows "vformatstr fmt args = Ret txt"
proof -
  define n :: u64 where "n = of_nat (length txt + 1)"
  have u: "unat n = length txt + 1" unfolding n_def using assms(2) by (intro unat_of_nat_u64) simp
  then have "n \<noteq> 0" by (metis Suc_eq_plus1 nat.distinct(1) unat_0)
  with u have v: "vsnprintf (replicate (length txt + 1) NUL) n txt = Ret (txt @ [NUL])"
    by (simp add: vsnprintf_def)
  show ?thesis
    unfolding vformatstr_def assms(1) option.case Let_def n_def [symmetric] v obind.simps by simp
qed

section \<open>Theorems\<close>

text \<open>Text converted to wide characters and back is unchanged when both buffers hold it and its
  terminator; a smaller first buffer truncates it to one character less than its size. The
  extended sign of characters above 127 is undone on the way back.\<close>

theorem utf16_round_trip:
  assumes "terminated s" "0 < n" "n = length utf" "length (cstr s) < m" "m = length ansi"
  shows "\<exists>w a. ansi_to_utf16 s utf (int n) = Ret w \<and> length w = n \<and> utf16_to_ansi w ansi (int m) = Ret a \<and>
    cstr a = take (n - 1) (cstr s)"
proof -
  let ?k = "if n \<le> length (cstr s) then n - 1 else length (cstr s)"
  have k: "?k < n" "?k \<le> length (cstr s)" using assms(2) by auto
  define w where "w = map wide_of (take ?k s) @ 0 # drop (Suc ?k) utf"
  have tk: "take ?k s = take (n - 1) (cstr s)" unfolding take_cstr [OF k(2)] by auto
  have nn: "NUL \<notin> set (take (n - 1) (cstr s))" using cstr_no_NUL by (meson in_set_takeD)
  have w: "ansi_to_utf16 s utf (int n) = Ret w"
    using assms k by (simp add: ansi_to_utf16_def w_def Let_def)
  have ws: "wstr w = map wide_of (take (n - 1) (cstr s))" unfolding w_def tk by (rule wstr_map_wide [OF nn])
  have wl: "length (wstr w) < m" unfolding ws using assms(4) by simp
  have tw: "take (length (wstr w)) w = map wide_of (take (n - 1) (cstr s))"
    unfolding ws by (simp add: w_def tk)
  have "0 \<in> set w" by (simp add: w_def)
  then have a: "utf16_to_ansi w ansi (int m) =
      Ret (map narrow_of (take (length (wstr w)) w) @ NUL # drop (Suc (length (wstr w))) ansi)"
    using wl assms(4,5) by (auto simp: utf16_to_ansi_def Let_def)
  have "map narrow_of (take (length (wstr w)) w) = take (n - 1) (cstr s)"
    unfolding tw by (simp add: comp_def narrow_wide)
  then have "cstr (map narrow_of (take (length (wstr w)) w) @ NUL # drop (Suc (length (wstr w))) ansi) =
      take (n - 1) (cstr s)" using cstr_prefix [OF nn] by simp
  moreover have "length s \<ge> ?k" using k(2) cstr_take_length [of s] by (metis length_take min.cobounded1 order_trans)
  then have "length w = n" using k(1) assms(3) by (auto simp: w_def)
  ultimately show ?thesis using w a by blast
qed

theorem utf16_round_trip_witness:
  "\<exists>w a. ansi_to_utf16 (''caf'' @ [CHR 0xe9, NUL]) (replicate 8 7) (int 8) = Ret w \<and> length w = 8 \<and>
    utf16_to_ansi w (replicate 5 CHR ''x'') (int 5) = Ret a \<and>
    cstr a = take (8 - 1) (cstr (''caf'' @ [CHR 0xe9, NUL]))"
  by (rule utf16_round_trip) (simp_all add: terminated_def cstr_def NUL_def)

end
