(* ===== verification/Exceptions.thy ===== *)
theory Exceptions
  imports Strings
begin

text \<open>
  The exception class and the throwing helpers of \<^verbatim>\<open>src/exception.cc\<close>. A helper that does
  not return is an outcome of any type: \<open>Throw msg\<close> is an \<open>Exception2\<close> with the message \<open>msg\<close>.
  The texts of the system's errors are parameters: \<open>strerror\<close> for \<^verbatim>\<open>strerror_r\<close>,
  \<open>hresult_msg\<close> for \<^verbatim>\<open>_com_error\<close>, \<open>format_message\<close> for \<^verbatim>\<open>FormatMessage\<close>, which
  may have none.
\<close>

section \<open>Exceptions and their messages\<close>

datatype cxx_exception =
    Exception2_of string     \<comment> \<open>an \<open>Exception2\<close>, with its \<open>err_msg_\<close>\<close>
  | std_exception_of string  \<comment> \<open>any other \<^verbatim>\<open>std::exception\<close>, with its \<open>what()\<close>\<close>

definition Exception2 :: "string \<Rightarrow> cxx_exception" where
  "Exception2 err_msg = Exception2_of err_msg"

fun what :: "cxx_exception \<Rightarrow> string" where
  "what (Exception2_of m) = cstr (m @ [NUL])"
| "what (std_exception_of w) = w"

definition exception_message :: "string \<Rightarrow> string" where
  "exception_message err_msg = err_msg"

definition get_except_msg :: "cxx_exception \<Rightarrow> string" where
  "get_except_msg e = (case e of Exception2_of m \<Rightarrow> exception_message m
     | std_exception_of w \<Rightarrow> ansi_to_auto_tmpl (w @ [NUL]))"

section \<open>The throwing helpers\<close>

definition rethrow_with_pfx :: "cxx_exception \<Rightarrow> string \<Rightarrow> fmt_arg list \<Rightarrow> 'a outcome" where
  "rethrow_with_pfx e fmt args = obind (vformatstr fmt args) (\<lambda>msg. Throw (msg @ get_except_msg e))"

text \<open>A prefix format may be the null pointer.\<close>

definition prefix_msg :: "string option \<Rightarrow> fmt_arg list \<Rightarrow> string outcome" where
  "prefix_msg pfx_fmt args = (case pfx_fmt of None \<Rightarrow> Ret [] | Some fmt \<Rightarrow> vformatstr fmt args)"

definition get_errno_msg :: "(int \<Rightarrow> string) \<Rightarrow> int \<Rightarrow> string" where
  "get_errno_msg strerror errno_code = take 2047 (strerror errno_code)"

definition throw_from_errno :: "(int \<Rightarrow> string) \<Rightarrow> int \<Rightarrow> string option \<Rightarrow> fmt_arg list \<Rightarrow> 'a outcome" where
  "throw_from_errno strerror errno_code pfx_fmt args =
     obind (prefix_msg pfx_fmt args) (\<lambda>msg. Throw (msg @ get_errno_msg strerror errno_code))"

definition throw_internal_error :: "string \<Rightarrow> int \<Rightarrow> 'a outcome" where
  "throw_internal_error file line =
     obind (formatstr ''internal error in %s at line %d.'' [AStr file, AInt line]) (\<lambda>m. Throw m)"

definition throw_from_hresult :: "(int \<Rightarrow> string) \<Rightarrow> int \<Rightarrow> string option \<Rightarrow> fmt_arg list \<Rightarrow> 'a outcome" where
  "throw_from_hresult hresult_msg res pfx_fmt args =
     obind (prefix_msg pfx_fmt args) (\<lambda>msg. Throw (msg @ hresult_msg res))"

text \<open>An error code of 0 (\<^verbatim>\<open>ERROR_SUCCESS\<close>) is against the assertion.\<close>

definition build_last_error_msg :: "(u32 \<Rightarrow> string option) \<Rightarrow> u32 \<Rightarrow> string option \<Rightarrow> fmt_arg list
    \<Rightarrow> string outcome" where
  "build_last_error_msg format_message last_err_code pfx_fmt args =
     (if last_err_code = 0 then Undef
      else obind (prefix_msg pfx_fmt args) (\<lambda>msg.
        Ret (msg @ (case format_message last_err_code of
            Some txt \<Rightarrow> txt
          | None \<Rightarrow> ''<no error description available>''))))"

definition throw_from_given_last_error :: "(u32 \<Rightarrow> string option) \<Rightarrow> u32 \<Rightarrow> string option \<Rightarrow> fmt_arg list
    \<Rightarrow> 'a outcome" where
  "throw_from_given_last_error format_message last_err_code pfx_fmt args =
     obind (build_last_error_msg format_message last_err_code pfx_fmt args) (\<lambda>msg. Throw msg)"

definition throw_from_last_error :: "(u32 \<Rightarrow> string option) \<Rightarrow> u32 \<Rightarrow> string option \<Rightarrow> fmt_arg list
    \<Rightarrow> 'a outcome" where
  "throw_from_last_error format_message get_last_error pfx_fmt args =
     throw_from_given_last_error format_message get_last_error pfx_fmt args"

section \<open>Handlers\<close>

text \<open>
  \<^verbatim>\<open>catch (const std::exception &e)\<close> around code that only throws \<open>Exception2\<close>.
\<close>

fun catch_std :: "'a outcome \<Rightarrow> (cxx_exception \<Rightarrow> 'a outcome) \<Rightarrow> 'a outcome" where
  "catch_std (Throw m) h = h (Exception2 m)"
| "catch_std (Ret x) h = Ret x"
| "catch_std Undef h = Undef"
| "catch_std Fuel h = Fuel"

text \<open>A stack of callers that all catch, add their prefix and rethrow, the innermost first.\<close>

fun unwind :: "(string \<times> fmt_arg list) list \<Rightarrow> 'a outcome \<Rightarrow> 'a outcome" where
  "unwind [] r = r"
| "unwind ((fmt, args) # outer) r = unwind outer (catch_std r (\<lambda>e. rethrow_with_pfx e fmt args))"

definition fits_format :: "string \<times> fmt_arg list \<Rightarrow> bool" where
  "fits_format p \<longleftrightarrow> (case expand (fst p) (snd p) of None \<Rightarrow> False | Some t \<Rightarrow> length t + 2 < 2 ^ 64)"

lemma catch_std_eq: "catch_std r h = Throw m \<longleftrightarrow> (\<exists>m'. r = Throw m' \<and> h (Exception2 m') = Throw m)"
  by (cases r) auto

lemma rethrow_msg:
  "fits_format (fmt, args) \<Longrightarrow> rethrow_with_pfx (Exception2 m) fmt args = Throw (the (expand fmt args) @ m)"
  by (auto simp: fits_format_def rethrow_with_pfx_def vformatstr_expand get_except_msg_def Exception2_def
      exception_message_def split: option.splits)

text \<open>An error that unwinds through callers that each add a prefix arrives with the prefixes in
  front of it, the outermost caller's first, and nothing of any message lost; what returns is
  not touched.\<close>

theorem unwind_message:
  assumes "\<forall>p\<in>set ps. fits_format p"
  shows "unwind ps (Throw m) = Throw (concat (rev (map (\<lambda>p. the (expand (fst p) (snd p))) ps)) @ m) \<and>
    unwind ps (Ret x) = Ret x"
  using assms
proof (induction ps arbitrary: m)
  case (Cons p ps)
  obtain fmt args where p: "p = (fmt, args)" by fastforce
  with Cons show ?case by (simp add: rethrow_msg)
qed simp

theorem unwind_message_witness:
  "unwind [(''seek: '', []), (''Error opening file \"%s\": '', [AStr ''a.iso''])] (Throw ''no such file'') =
    Throw (concat (rev (map (\<lambda>p. the (expand (fst p) (snd p)))
      [(''seek: '', []), (''Error opening file \"%s\": '', [AStr ''a.iso''])])) @ ''no such file'') \<and>
   unwind [(''seek: '', []), (''Error opening file \"%s\": '', [AStr ''a.iso''])] (Ret ()) = Ret ()"
  by (rule unwind_message) (simp add: fits_format_def)

end
