(* ===== verification/Canex_Stream.thy ===== *)
theory Canex_Stream
  imports Stream_Clients Exceptions
begin

text \<open>
  The canonical streams of \<^verbatim>\<open>src/canexstream.cc\<close>, which turn the error values of a stream
  into exceptions, and their two copy functions. A thrown exception carries no state: what the
  streams then hold is not modelled.
\<close>

section \<open>The classes\<close>

record 's canex_in =
  ci_stream :: 's
  ci_ident :: string

record 's canex_out =
  co_stream :: 's
  co_ident :: string

definition CanexInStream :: "'s \<Rightarrow> string \<Rightarrow> 's canex_in" where
  "CanexInStream s ident = \<lparr>ci_stream = s, ci_ident = ident\<rparr>"

definition CanexOutStream :: "'s \<Rightarrow> string \<Rightarrow> 's canex_out" where
  "CanexOutStream s ident = \<lparr>co_stream = s, co_ident = ident\<rparr>"

definition canex_in_identifier :: "'s canex_in \<Rightarrow> string" where
  "canex_in_identifier c = ci_ident c"

definition canex_out_identifier :: "'s canex_out \<Rightarrow> string" where
  "canex_out_identifier c = co_ident c"

definition stream_error :: "string \<Rightarrow> string \<Rightarrow> 'a outcome" where
  "stream_error fmt ident = obind (formatstr fmt [AStr ident]) (\<lambda>m. Throw m)"

definition canex_seek :: "'s in_stream \<Rightarrow> u32 \<Rightarrow> StreamWhence \<Rightarrow> 's canex_in \<Rightarrow> 's canex_in outcome" where
  "canex_seek I distance whence c = obind (is_seek I distance whence (ci_stream c)) (\<lambda>(ok, s').
     if \<not> ok then stream_error ''stream seek error in %s.'' (ci_ident c)
     else Ret (c\<lparr>ci_stream := s'\<rparr>))"

definition canex_read :: "'s in_stream \<Rightarrow> u32 \<Rightarrow> 's canex_in \<Rightarrow> (int \<times> byte list \<times> 's canex_in) outcome" where
  "canex_read I count c = obind (is_read I count (ci_stream c)) (\<lambda>(res, bs, s').
     if res = -1 then stream_error ''stream read error in %s.'' (ci_ident c)
     else Ret (res, bs, c\<lparr>ci_stream := s'\<rparr>))"

definition canex_end :: "'s in_stream \<Rightarrow> 's canex_in \<Rightarrow> bool" where
  "canex_end I c = is_end I (ci_stream c)"

definition canex_write :: "'s out_stream \<Rightarrow> u32 \<Rightarrow> byte list \<Rightarrow> 's canex_out \<Rightarrow> 's canex_out outcome" where
  "canex_write W count buf c = obind (write_from W count buf (co_stream c)) (\<lambda>(res, s').
     if res = -1 \<or> res \<noteq> uint count then stream_error ''stream write error in %s.'' (co_ident c)
     else Ret (c\<lparr>co_stream := s'\<rparr>))"

section \<open>Copying\<close>

text \<open>The read and the write of a round; the buffer is a local array of 8192 bytes.\<close>

definition canex_chunk :: "'i in_stream \<Rightarrow> 'o out_stream \<Rightarrow> u32 \<Rightarrow> byte list \<Rightarrow> 'i canex_in \<Rightarrow> 'o canex_out
    \<Rightarrow> (int \<times> byte list \<times> 'i canex_in \<times> 'o canex_out) outcome" where
  "canex_chunk I W count buf fr to = obind (canex_read I count fr) (\<lambda>(res, bs, fr').
     if length bs \<le> length buf then
       obind (canex_write W (of_int res) (store buf bs) to) (\<lambda>to'. Ret (res, store buf bs, fr', to'))
     else Undef)"

fun canex_copy_loop :: "'i in_stream \<Rightarrow> 'o out_stream \<Rightarrow> 'p progress_if \<Rightarrow> nat \<Rightarrow> byte list \<Rightarrow> 'i canex_in
    \<Rightarrow> 'o canex_out \<Rightarrow> 'p progresser \<Rightarrow> ('i canex_in \<times> 'o canex_out \<times> 'p progresser) outcome" where
  "canex_copy_loop I W P 0 buf fr to pr = Fuel"
| "canex_copy_loop I W P (Suc n) buf fr to pr =
     (if canex_end I fr then Ret (fr, to, pr)
      else case progresser_cancelled P pr of (cancelled, pr1) \<Rightarrow>
        if cancelled then Ret (fr, to, pr1)
        else obind (canex_chunk I W 8192 buf fr to) (\<lambda>(res, buf', fr', to').
          obind (progresser_update P (of_int res) pr1)
            (\<lambda>pr2. canex_copy_loop I W P n buf' fr' to' pr2)))"

definition canex_copy :: "'i in_stream \<Rightarrow> 'o out_stream \<Rightarrow> 'p progress_if \<Rightarrow> nat \<Rightarrow> byte list \<Rightarrow> 'i canex_in
    \<Rightarrow> 'o canex_out \<Rightarrow> 'p progresser \<Rightarrow> ('i canex_in \<times> 'o canex_out \<times> 'p progresser) outcome" where
  "canex_copy I W P fuel buf fr to pr = canex_copy_loop I W P fuel buf fr to pr"

text \<open>
  The padding loop reports \<open>res\<close>, the count of the last read of the first loop, and not what it
  has written.
\<close>

fun canex_pad_loop :: "'o out_stream \<Rightarrow> 'p progress_if \<Rightarrow> nat \<Rightarrow> int \<Rightarrow> u64 \<Rightarrow> 'o canex_out \<Rightarrow> 'p progresser
    \<Rightarrow> ('o canex_out \<times> 'p progresser) outcome" where
  "canex_pad_loop W P 0 res sz to pr = Fuel"
| "canex_pad_loop W P (Suc n) res sz to pr =
     (if \<not> 0 < sz then Ret (to, pr)
      else obind (canex_write W (chunk_size sz) (replicate 8192 0) to) (\<lambda>to'.
        obind (progresser_update P (of_int res) pr)
          (\<lambda>pr'. canex_pad_loop W P n res (sz - ucast (chunk_size sz)) to' pr')))"

fun canex_sized_loop :: "'i in_stream \<Rightarrow> 'o out_stream \<Rightarrow> 'p progress_if \<Rightarrow> nat \<Rightarrow> nat \<Rightarrow> int \<Rightarrow> u64
    \<Rightarrow> byte list \<Rightarrow> 'i canex_in \<Rightarrow> 'o canex_out \<Rightarrow> 'p progresser
    \<Rightarrow> ('i canex_in \<times> 'o canex_out \<times> 'p progresser) outcome" where
  "canex_sized_loop I W P m 0 res sz buf fr to pr = Fuel"
| "canex_sized_loop I W P m (Suc n) res sz buf fr to pr =
     (if canex_end I fr \<or> \<not> 0 < sz then
        obind (canex_pad_loop W P m res sz to pr) (\<lambda>(to', pr'). Ret (fr, to', pr'))
      else case progresser_cancelled P pr of (cancelled, pr1) \<Rightarrow>
        if cancelled then Ret (fr, to, pr1)
        else obind (canex_chunk I W (chunk_size sz) buf fr to) (\<lambda>(res', buf', fr', to').
          obind (progresser_update P (of_int res') pr1)
            (\<lambda>pr2. canex_sized_loop I W P m n res' (sz - of_int res') buf' fr' to' pr2)))"

definition canex_copy_sized :: "'i in_stream \<Rightarrow> 'o out_stream \<Rightarrow> 'p progress_if \<Rightarrow> nat \<Rightarrow> byte list \<Rightarrow> 'i canex_in
    \<Rightarrow> 'o canex_out \<Rightarrow> 'p progresser \<Rightarrow> u64 \<Rightarrow> ('i canex_in \<times> 'o canex_out \<times> 'p progresser) outcome" where
  "canex_copy_sized I W P fuel buf fr to pr sz =
     canex_sized_loop I W P fuel fuel 0 sz buf fr to pr"

section \<open>One chunk\<close>

lemma stream_error_msg:
  "length ident < 2 ^ 32 \<Longrightarrow> stream_error ''stream read error in %s.'' ident = Throw (''stream read error in '' @ ident @ ''.'')"
  "length ident < 2 ^ 32 \<Longrightarrow> stream_error ''stream write error in %s.'' ident = Throw (''stream write error in '' @ ident @ ''.'')"
  "length ident < 2 ^ 32 \<Longrightarrow> stream_error ''stream seek error in %s.'' ident = Throw (''stream seek error in '' @ ident @ ''.'')"
  by (simp_all add: stream_error_def formatstr_def vformatstr_expand)

definition canex_errors :: "'i canex_in \<Rightarrow> 'o canex_out \<Rightarrow> string set" where
  "canex_errors fr to = {''stream read error in '' @ ci_ident fr @ ''.'',
     ''stream write error in '' @ co_ident to @ ''.''}"

context copy_link begin

lemma canex_chunk_cases:
  assumes "inv (ci_stream fr)" "oinv (co_stream to)" "0 < unat c" "unat c \<le> BUFFER_SIZE"
    and "length buf = BUFFER_SIZE" "fits (co_stream to) k" "min (unat c) (length (rem (ci_stream fr))) \<le> k"
    and "length (ci_ident fr) < 2 ^ 32" "length (co_ident to) < 2 ^ 32"
  obtains (fail) m where "canex_chunk I W c buf fr to = Throw m" "m \<in> canex_errors fr to"
  | (data) bs i' s' where "canex_chunk I W c buf fr to =
        Ret (int (length bs), store buf bs, fr\<lparr>ci_stream := i'\<rparr>, to\<lparr>co_stream := s'\<rparr>)"
      "inv i'" "oinv s'" "length bs \<le> unat c" "rem (ci_stream fr) = bs @ rem i'"
      "rem (ci_stream fr) \<noteq> [] \<Longrightarrow> bs \<noteq> []" "abs s' = app (abs (co_stream to)) bs"
      "fits s' (k - length bs)"
proof -
  have cm: "unat c \<le> cmax" using assms(4) cmax_ge by simp
  show thesis
  proof (cases rule: read_cases [OF assms(1,3) cm])
    case (1 bs i')
    with assms(8) show thesis
      by (intro fail) (simp add: canex_chunk_def canex_read_def stream_error_msg, simp add: canex_errors_def)
  next
    case (2 bs i')
    then have bs: "length bs \<le> k" "length bs \<le> BUFFER_SIZE" using assms(4,7) by auto
    have w: "write_from W (of_int (int (length bs))) (store buf bs) s = os_write W bs s" for s
      using write_from_store [of bs buf] bs(2) assms(5) by simp
    have u: "uint (of_int (int (length bs)) :: u32) = int (length bs)" using bs(2) by simp
    have f: "fits (co_stream to) (length bs + (k - length bs))" using assms(6) bs(1) by simp
    have lt: "length bs < 2 ^ 32" using bs(2) by simp
    have rd: "canex_chunk I W c buf fr to = obind (canex_write W (of_int (int (length bs))) (store buf bs) to)
        (\<lambda>to'. Ret (int (length bs), store buf bs, fr\<lparr>ci_stream := i'\<rparr>, to'))"
      using 2 bs(2) assms(5) by (simp add: canex_chunk_def canex_read_def)
    show thesis
    proof (cases rule: write_cases [OF assms(2) lt f])
      case w1: (1 s')
      with assms(9) rd w show thesis
        by (intro fail) (simp add: canex_write_def stream_error_msg, simp add: canex_errors_def)
    next
      case w2: (2 s')
      have "canex_write W (of_int (int (length bs))) (store buf bs) to = Ret (to\<lparr>co_stream := s'\<rparr>)"
        unfolding canex_write_def w w2(1) u by simp
      with rd 2 w2 show thesis by (intro data [of bs i' s']) auto
    qed
  qed
qed

text \<open>The copy either throws one of its two errors, or it has copied all, or it was cancelled.\<close>

lemma canex_copy_loop_spec:
  assumes "inv (ci_stream fr)" "oinv (co_stream to)" "length buf = BUFFER_SIZE"
    and "fits (co_stream to) (length (rem (ci_stream fr)))" "length (rem (ci_stream fr)) < n"
    and "length (ci_ident fr) < 2 ^ 32" "length (co_ident to) < 2 ^ 32"
    and "0 < pr_total pr" "unat (pr_count pr) + length (rem (ci_stream fr)) \<le> unat (pr_total pr)"
    and "\<forall>p. \<not> fst (pg_cancelled P p)"
  shows "(\<exists>m \<in> canex_errors fr to. canex_copy_loop I W P n buf fr to pr = Throw m) \<or>
    (\<exists>i' s' pr'. canex_copy_loop I W P n buf fr to pr =
        Ret (fr\<lparr>ci_stream := i'\<rparr>, to\<lparr>co_stream := s'\<rparr>, pr') \<and>
      rem i' = [] \<and> abs s' = app (abs (co_stream to)) (rem (ci_stream fr)) \<and>
      unat (pr_count pr') = unat (pr_count pr) + length (rem (ci_stream fr)))"
  using assms(1-9)
proof (induction n arbitrary: buf fr to pr)
  case (Suc n)
  let ?r = "rem (ci_stream fr)"
  show ?case
  proof (cases "?r = []")
    case True
    then have "canex_end I fr" using end_law Suc.prems(1) by (simp add: canex_end_def)
    with True app_Nil show ?thesis
      by (intro disjI2 exI [of _ "ci_stream fr"] exI [of _ "co_stream to"] exI [of _ pr]) simp
  next
    case False
    then have ne: "\<not> canex_end I fr" using end_law Suc.prems(1) by (simp add: canex_end_def)
    obtain pr1 where pc: "progresser_cancelled P pr = (False, pr1)"
      using assms(10) by (cases "progresser_cancelled P pr") (use progresser_cancelled_keeps in fastforce)
    note k = progresser_cancelled_keeps [OF pc]
    have c: "0 < unat (8192::u32)" "unat (8192::u32) \<le> BUFFER_SIZE" by simp_all
    show ?thesis
    proof (cases rule: canex_chunk_cases [OF Suc.prems(1,2) c Suc.prems(3,4) min.cobounded2 Suc.prems(6,7)])
      case (1 m)
      with ne pc show ?thesis by auto
    next
      case (2 bs i' s')
      have l: "length ?r = length bs + length (rem i')" using 2 by simp
      from 2 False have "0 < length bs" by simp
      with l Suc.prems(5) have n: "length (rem i') < n" by linarith
      have up: "0 < pr_total pr1" "unat (pr_count pr1) + length bs \<le> unat (pr_total pr1)"
        using Suc.prems(8,9) l k by auto
      obtain pr2 where u: "progresser_update P (of_int (int (length bs))) pr1 = Ret pr2"
        "pr_total pr2 = pr_total pr1" "unat (pr_count pr2) = unat (pr_count pr1) + length bs"
        by (rule update_counts [OF up])
      let ?f = "fr\<lparr>ci_stream := i'\<rparr>" and ?t = "to\<lparr>co_stream := s'\<rparr>"
      have step: "canex_copy_loop I W P (Suc n) buf fr to pr = canex_copy_loop I W P n (store buf bs) ?f ?t pr2"
        using ne pc 2 u by simp
      have lb: "length bs \<le> BUFFER_SIZE" using 2 by simp
      have "(\<exists>m \<in> canex_errors ?f ?t. canex_copy_loop I W P n (store buf bs) ?f ?t pr2 = Throw m) \<or>
        (\<exists>i'' s'' pr'. canex_copy_loop I W P n (store buf bs) ?f ?t pr2 =
            Ret (?f\<lparr>ci_stream := i''\<rparr>, ?t\<lparr>co_stream := s''\<rparr>, pr') \<and>
          rem i'' = [] \<and> abs s'' = app (abs (co_stream ?t)) (rem (ci_stream ?f)) \<and>
          unat (pr_count pr') = unat (pr_count pr2) + length (rem (ci_stream ?f)))"
        using 2 l k u n lb Suc.prems by (intro Suc.IH) (auto simp: length_store)
      moreover have "canex_errors ?f ?t = canex_errors fr to" by (simp add: canex_errors_def)
      ultimately show ?thesis unfolding step using 2 u k l app_append by auto
    qed
  qed
qed simp

end

lemma unat_ucast_chunk: "unat (ucast (c :: u32) :: u64) = unat c"
proof -
  have "unat c < 2 ^ 64" using unat_lt_u32 [of c] by simp
  then show ?thesis by (simp add: unsigned_ucast_eq take_bit_nat_eq_self)
qed

context out_sink begin

lemma canex_write_zeros:
  assumes "oinv (co_stream to)" "fits (co_stream to) (unat c)" "unat c \<le> 8192"
  obtains s' where "canex_write W c (replicate 8192 0) to = Ret (to\<lparr>co_stream := s'\<rparr>)" "oinv s'"
    "abs s' = app (abs (co_stream to)) (replicate (unat c) 0)"
proof -
  let ?z = "replicate (unat c) (0::byte)"
  have lt: "length ?z < 2 ^ 32" and f: "fits (co_stream to) (length ?z + 0)" using assms by simp_all
  obtain s' where "os_write W ?z (co_stream to) = Ret (int (length ?z), s')" "oinv s'"
    "abs s' = app (abs (co_stream to)) ?z"
    by (rule write_data [OF assms(1) lt f])
  moreover have "write_from W c (replicate 8192 0) s = os_write W ?z s" for s
    using assms(3) by (simp add: write_from_def min_def)
  moreover have "0 \<le> uint c" by simp
  then have "uint c \<noteq> -1" by linarith
  ultimately show thesis by (intro that [of s']) (simp_all add: canex_write_def)
qed

text \<open>Padding of one round: the bytes are written, the count grows by the stale \<open>r\<close>.\<close>

lemma canex_pad_once:
  assumes "oinv (co_stream to)" "fits (co_stream to) (unat sz)" "0 < sz" "unat sz \<le> 8192"
    and "0 < pr_total pr" "unat (pr_count pr) + r \<le> unat (pr_total pr)"
  obtains s' pr' where "canex_pad_loop W P (Suc (Suc n)) (int r) sz to pr = Ret (to\<lparr>co_stream := s'\<rparr>, pr')"
    "abs s' = app (abs (co_stream to)) (replicate (unat sz) 0)" "unat (pr_count pr') = unat (pr_count pr) + r"
proof -
  have c: "unat (chunk_size sz) = unat sz" using assms(4) by (simp add: unat_chunk_size)
  then have cs: "ucast (chunk_size sz) = sz" by (simp add: word_unat_eq_iff unat_ucast_chunk)
  obtain s' where s': "canex_write W (chunk_size sz) (replicate 8192 0) to = Ret (to\<lparr>co_stream := s'\<rparr>)"
    "abs s' = app (abs (co_stream to)) (replicate (unat sz) 0)"
    using canex_write_zeros [of to "chunk_size sz"] assms c by auto
  obtain pr' where "progresser_update P (of_int (int r)) pr = Ret pr'"
    "unat (pr_count pr') = unat (pr_count pr) + r"
    using update_counts [OF assms(5,6)] by blast
  with s' assms(3) cs show thesis by (intro that [of s' pr']) simp_all
qed

end

section \<open>Theorems\<close>



text \<open>The first round of a sized copy from memory to memory, when the input fits into one chunk.\<close>

lemma canex_memory_chunk:
  fixes ident ident' :: string and k :: u32
  assumes "length data < unat sz" "unat sz \<le> 8192" "length buf = BUFFER_SIZE"
  defines "f \<equiv> CanexInStream (memory_source data) ident" and "t \<equiv> CanexOutStream (MemoryOutStream alloc_ok k) ident'"
  obtains i' s' where
    "canex_chunk memory_in_stream (memory_out_stream alloc_ok) (chunk_size sz) buf f t =
      Ret (int (length data), store buf data, f\<lparr>ci_stream := i'\<rparr>, t\<lparr>co_stream := s'\<rparr>)"
    "memory_inv 8192 i'" "memory_rem i' = []" "memory_oinv s'" "memory_fits s' (unat sz - length data)"
    "memory_contents s' = data"
proof -
  let ?l = "length data"
  have inv: "memory_inv 8192 (memory_source data)" using assms(1,2) by (intro memory_inv_init) simp
  have c: "unat (chunk_size sz) = unat sz" using assms(2) by (simp add: unat_chunk_size)
  have m: "min (unat (chunk_size sz)) (length (memory_rem (memory_source data))) = ?l"
    using assms(1) c by (simp add: memory_rem_init)
  define i' where "i' = (memory_source data)\<lparr>mi_pos := mi_pos (memory_source data) + of_nat ?l\<rparr>"
  have r: "memory_in_read (chunk_size sz) (memory_source data) = Ret (int ?l, data, i')" "memory_inv 8192 i'"
    "memory_rem i' = []"
    using memory_in_read_eq [OF inv, of "chunk_size sz", unfolded m] c assms(2)
    by (simp_all add: i'_def memory_rem_init)
  have fits: "memory_fits (MemoryOutStream alloc_ok k) (?l + (unat sz - ?l))"
    using assms(1,2) by (intro memory_fits_init) simp
  have lt: "?l < 2 ^ 32" using assms(1,2) by simp
  obtain s' where s': "os_write (memory_out_stream alloc_ok) data (MemoryOutStream alloc_ok k) = Ret (int ?l, s')"
    "memory_oinv s'" "memory_fits s' (unat sz - ?l)" "memory_contents s' = data"
    by (rule mem_sink.write_data [OF memory_oinv_init lt fits]) (simp add: memory_contents_init)
  have w: "write_from (memory_out_stream alloc_ok) (of_int (int ?l)) (store buf data) s =
      os_write (memory_out_stream alloc_ok) data s" for s
    using mem_out.write_from_store [of data buf alloc_ok s] assms(1-3) by simp
  have u: "uint (of_int (int ?l) :: u32) = int ?l" using lt by simp
  have "canex_write (memory_out_stream alloc_ok) (of_int (int ?l)) (store buf data) t = Ret (t\<lparr>co_stream := s'\<rparr>)"
    unfolding canex_write_def w u by (simp add: s'(1) CanexOutStream_def t_def)
  with r(1) assms(1-3) have "canex_chunk memory_in_stream (memory_out_stream alloc_ok) (chunk_size sz) buf f t =
      Ret (int ?l, store buf data, f\<lparr>ci_stream := i'\<rparr>, t\<lparr>co_stream := s'\<rparr>)"
    by (simp add: canex_chunk_def canex_read_def CanexInStream_def memory_in_stream_def f_def)
  from that [OF this r(2,3) s'(2-4)] show thesis .
qed

text \<open>A sized canonical copy of an input that is shorter than its size (both within one chunk)
  writes the right bytes but reports the wrong progress: the padding counts as many units as
  the last read gave, so that the count ends at twice the length of the input instead of the
  size.\<close>

theorem canex_padding_progress:
  assumes "data \<noteq> []" "length data < unat sz" "unat sz \<le> 8192" "length buf = BUFFER_SIZE"
    and "2 * length data \<le> unat tot" "\<forall>p. \<not> fst (pg_cancelled P p)"
  shows "\<exists>fr to pr'. canex_copy_sized memory_in_stream (memory_out_stream alloc_ok) P (Suc (Suc n)) buf
      (CanexInStream (memory_source data) ident) (CanexOutStream (MemoryOutStream alloc_ok k) ident')
      (Progresser p tot) sz = Ret (fr, to, pr') \<and>
    memory_contents (co_stream to) = data @ replicate (unat sz - length data) 0 \<and>
    unat (pr_count pr') = 2 * length data"
proof -
  let ?f = "CanexInStream (memory_source data) ident"
  let ?t = "CanexOutStream (MemoryOutStream alloc_ok k) ident'"
  let ?l = "length data"
  obtain i' s' where ch: "canex_chunk memory_in_stream (memory_out_stream alloc_ok) (chunk_size sz) buf ?f ?t =
      Ret (int ?l, store buf data, ?f\<lparr>ci_stream := i'\<rparr>, ?t\<lparr>co_stream := s'\<rparr>)"
    and i': "memory_inv 8192 i'" "memory_rem i' = []"
    and s': "memory_oinv s'" "memory_fits s' (unat sz - ?l)" "memory_contents s' = data"
    by (rule canex_memory_chunk [OF assms(2-4)])
  obtain pr1 where pc: "progresser_cancelled P (Progresser p tot) = (False, pr1)"
    using assms(6) by (cases "progresser_cancelled P (Progresser p tot)") (use progresser_cancelled_keeps in fastforce)
  note pk = progresser_cancelled_keeps [OF pc]
  have lpos: "0 < ?l" using assms(1) by simp
  then have "0 < unat tot" using assms(5) by linarith
  then have tot: "0 < tot" by (simp add: word_less_nat_alt)
  obtain pr2 where p2: "progresser_update P (of_int (int ?l)) pr1 = Ret pr2" "pr_total pr2 = tot"
    "unat (pr_count pr2) = ?l"
    using update_counts [of pr1 ?l P] pk tot assms(5) by (auto simp: Progresser_def)
  define sz' where "sz' = sz - of_int (int ?l)"
  have sz': "unat sz' = unat sz - ?l" "0 < sz'"
    using assms(2) unat_lt_u64 [of sz] by (auto simp: sz'_def unat_u64_diff word_less_nat_alt simp del: unat_sub_if')
  have pp: "0 < pr_total pr2" "unat (pr_count pr2) + ?l \<le> unat (pr_total pr2)" using p2 tot assms(5) by simp_all
  have t': "memory_oinv (co_stream (?t\<lparr>co_stream := s'\<rparr>))" "memory_fits (co_stream (?t\<lparr>co_stream := s'\<rparr>)) (unat sz')"
    "unat sz' \<le> 8192" using s' sz' assms(3) by simp_all
  obtain s'' pr3 where p3: "canex_pad_loop (memory_out_stream alloc_ok) P (Suc (Suc n)) (int ?l) sz' (?t\<lparr>co_stream := s'\<rparr>) pr2 =
      Ret (?t\<lparr>co_stream := s'\<rparr>\<lparr>co_stream := s''\<rparr>, pr3)" "memory_contents s'' = memory_contents s' @ replicate (unat sz') 0"
    "unat (pr_count pr3) = unat (pr_count pr2) + ?l"
    by (rule mem_sink.canex_pad_once [OF t'(1,2) sz'(2) t'(3) pp]) auto
  have ends: "\<not> canex_end memory_in_stream ?f" "canex_end memory_in_stream (?f\<lparr>ci_stream := i'\<rparr>)"
    using mem_in.end_law [OF memory_inv_init [of data 0]] mem_in.end_law [OF i'(1)] i'(2) assms(1-3)
    by (simp_all add: canex_end_def CanexInStream_def memory_rem_init)
  have "0 < sz" using assms(2) by (simp add: word_less_nat_alt)
  then have "canex_copy_sized memory_in_stream (memory_out_stream alloc_ok) P (Suc (Suc n)) buf ?f ?t (Progresser p tot) sz =
      Ret (?f\<lparr>ci_stream := i'\<rparr>, ?t\<lparr>co_stream := s'\<rparr>\<lparr>co_stream := s''\<rparr>, pr3)"
    using ends pc ch p2(1) p3(1)
    unfolding canex_copy_sized_def canex_sized_loop.simps by (simp add: sz'_def del: canex_pad_loop.simps)
  moreover have "memory_contents (co_stream (?t\<lparr>co_stream := s'\<rparr>\<lparr>co_stream := s''\<rparr>)) =
      data @ replicate (unat sz - ?l) 0" using p3(2) s'(3) sz' by simp
  moreover have "unat (pr_count pr3) = 2 * ?l" using p3(3) p2(3) by simp
  ultimately show ?thesis by blast
qed

theorem canex_padding_progress_witness:
  "\<exists>fr to pr'. canex_copy_sized memory_in_stream (memory_out_stream alloc_ok) quiet_progress (Suc (Suc 0))
      (replicate 8192 0) (CanexInStream (memory_source [1, 2, 3]) ''a'')
      (CanexOutStream (MemoryOutStream alloc_ok 0) ''b'') (Progresser [] 10) 5 = Ret (fr, to, pr') \<and>
    memory_contents (co_stream to) = [1, 2, 3] @ replicate (unat (5::u64) - length [1, 2, 3 :: byte]) 0 \<and>
    unat (pr_count pr') = 2 * length [1, 2, 3 :: byte]"
  by (rule canex_padding_progress) (simp_all add: quiet_progress_def)

end
