(* ===== verification/Line_Reader.thy ===== *)
theory Line_Reader
  imports Stream_Clients
begin

text \<open>
  The template \<^verbatim>\<open>LineReader<T>\<close> of \<^verbatim>\<open>include/ckcore/linereader.hh\<close>: the
  recognition of a byte order mark and the splitting of a stream into lines. A character of
  type \<open>T\<close> is the number its \<open>sz = sizeof(T)\<close> bytes stand for, little endian. The
  specifications are a table of marks, of which the first that fits counts, and the usual
  splitting at LF, CR LF and CR.
\<close>

section \<open>The encoding\<close>

datatype Encoding = ckENCODING_ANSI | ckENCODING_UTF1 | ckENCODING_UTF7 | ckENCODING_UTF8
  | ckENCODING_UTF16BE | ckENCODING_UTF16LE | ckENCODING_UTF32BE | ckENCODING_UTF32LE
  | ckENCODING_UTFEBCDIC | ckENCODING_SCSU | ckENCODING_BOCU1

text \<open>One test of the function: when the mark is there, \<open>result\<close> is set and the stream moved on.\<close>

definition bom_test :: "'s in_stream \<Rightarrow> bool \<Rightarrow> Encoding option \<Rightarrow> u32 \<Rightarrow> (Encoding \<times> 's) outcome
    \<Rightarrow> (Encoding \<times> 's) outcome" where
  "bom_test I cond enc skip r = obind r (\<lambda>(result, s).
     if cond then obind (is_seek I skip ckSTREAM_CURRENT s) (\<lambda>(ok, s').
       Ret (case enc of Some e \<Rightarrow> e | None \<Rightarrow> result, s'))
     else Ret (result, s))"

definition bom_is :: "byte list \<Rightarrow> byte list \<Rightarrow> bool" where
  "bom_is bom m \<longleftrightarrow> take (length m) bom = m"

definition lr_encoding :: "'s in_stream \<Rightarrow> 's \<Rightarrow> (Encoding \<times> 's) outcome" where
  "lr_encoding I s = obind (is_read I 4 s) (\<lambda>(rd, bom, s1).
     obind (is_seek I 0 ckSTREAM_BEGIN s1) (\<lambda>(ok, s2).
       if int (length bom) < rd \<or> 4 < length bom then Undef
       else
         let r0 = Ret (ckENCODING_ANSI, s2);
             r2 = bom_test I (2 \<le> rd \<and> bom_is bom [0xff, 0xfe]) (Some ckENCODING_UTF16LE) 2
                    (bom_test I (2 \<le> rd \<and> bom_is bom [0xfe, 0xff]) (Some ckENCODING_UTF16BE) 2 r0);
             r3 = bom_test I (3 \<le> rd \<and> bom_is bom [0xfb, 0xee, 0x28]) (Some ckENCODING_BOCU1) 3
                    (bom_test I (3 \<le> rd \<and> bom_is bom [0x0e, 0xfe, 0xff]) (Some ckENCODING_SCSU) 3
                      (bom_test I (3 \<le> rd \<and> bom_is bom [0xef, 0xbb, 0xbf]) (Some ckENCODING_UTF8) 3
                        (bom_test I (3 \<le> rd \<and> bom_is bom [0xf7, 0x64, 0x4c]) (Some ckENCODING_UTF1) 3 r2)))
         in bom_test I (rd = 4 \<and> bom_is bom [0xfb, 0xee, 0x28, 0xff]) None 1
              (bom_test I (rd = 4 \<and> bom_is bom [0xdd, 0x73, 0x66, 0x73]) (Some ckENCODING_UTFEBCDIC) 4
                (bom_test I (rd = 4 \<and> bom_is bom [0xff, 0xfe, 0x00, 0x00]) (Some ckENCODING_UTF32LE) 2
                  (bom_test I (rd = 4 \<and> bom_is bom [0x00, 0x00, 0xfe, 0xff]) (Some ckENCODING_UTF32BE) 4 r3)))))"

section \<open>Lines\<close>

record 's line_reader =
  lr_enc :: Encoding
  lr_next :: "nat list"     \<comment> \<open>\<open>next_str_\<close>\<close>
  lr_stream :: 's

fun code_of :: "byte list \<Rightarrow> nat" where
  "code_of [] = 0"
| "code_of (b # bs) = unat b + 256 * code_of bs"

definition LineReader :: "'s in_stream \<Rightarrow> 's \<Rightarrow> 's line_reader outcome" where
  "LineReader I s = obind (lr_encoding I s) (\<lambda>(e, s'). Ret \<lparr>lr_enc = e, lr_next = [], lr_stream = s'\<rparr>)"

definition line_reader_encoding :: "'s line_reader \<Rightarrow> Encoding" where
  "line_reader_encoding r = lr_enc r"

definition line_reader_end :: "'s in_stream \<Rightarrow> 's line_reader \<Rightarrow> bool" where
  "line_reader_end I r \<longleftrightarrow> is_end I (lr_stream r) \<and> lr_next r = []"

text \<open>\<^verbatim>\<open>stream_.read(&c,sizeof(T))\<close>: the character, unless the count is another one.\<close>

definition read_char :: "'s in_stream \<Rightarrow> nat \<Rightarrow> 's \<Rightarrow> (nat option \<times> 's) outcome" where
  "read_char I sz s = obind (is_read I (of_nat sz) s) (\<lambda>(rd, bs, s').
     if sz < length bs \<or> (rd = int sz \<and> length bs \<noteq> sz) then Undef
     else Ret (if rd = int sz then Some (code_of bs) else None, s'))"

fun read_line_loop :: "'s in_stream \<Rightarrow> nat \<Rightarrow> nat \<Rightarrow> nat list \<Rightarrow> 's line_reader
    \<Rightarrow> (nat list \<times> 's line_reader) outcome" where
  "read_line_loop I sz 0 line r = Fuel"
| "read_line_loop I sz (Suc n) line r =
     (if is_end I (lr_stream r) then Ret (line, r)
      else obind (read_char I sz (lr_stream r)) (\<lambda>(c, s').
        case c of
          None \<Rightarrow> Ret (line, r\<lparr>lr_stream := s'\<rparr>)
        | Some c \<Rightarrow>
            if c = 10 then Ret (line, r\<lparr>lr_stream := s'\<rparr>)
            else if c = 13 then obind (read_char I sz s') (\<lambda>(d, s'').
              Ret (line, case d of
                  Some d \<Rightarrow> if d \<noteq> 10 then r\<lparr>lr_stream := s'', lr_next := lr_next r @ [d]\<rparr> else r\<lparr>lr_stream := s''\<rparr>
                | None \<Rightarrow> r\<lparr>lr_stream := s''\<rparr>))
            else read_line_loop I sz n (line @ [c]) (r\<lparr>lr_stream := s'\<rparr>)))"

definition read_line :: "'s in_stream \<Rightarrow> nat \<Rightarrow> nat \<Rightarrow> 's line_reader \<Rightarrow> (nat list \<times> 's line_reader) outcome" where
  "read_line I sz fuel r =
     (if lr_next r \<noteq> [] then read_line_loop I sz fuel (lr_next r) (r\<lparr>lr_next := []\<rparr>)
      else read_line_loop I sz fuel [] r)"

text \<open>A client that reads lines until \<^verbatim>\<open>end()\<close>.\<close>

fun read_lines :: "'s in_stream \<Rightarrow> nat \<Rightarrow> nat \<Rightarrow> nat \<Rightarrow> 's line_reader \<Rightarrow> nat list list outcome" where
  "read_lines I sz fuel 0 r = Fuel"
| "read_lines I sz fuel (Suc n) r =
     (if line_reader_end I r then Ret []
      else obind (read_line I sz fuel r) (\<lambda>(l, r').
        obind (read_lines I sz fuel n r') (\<lambda>ls. Ret (l # ls))))"

section \<open>The specifications\<close>

definition bom_table :: "(byte list \<times> Encoding) list" where
  "bom_table = [([0xff, 0xfe, 0x00, 0x00], ckENCODING_UTF32LE), ([0x00, 0x00, 0xfe, 0xff], ckENCODING_UTF32BE),
     ([0xdd, 0x73, 0x66, 0x73], ckENCODING_UTFEBCDIC), ([0xfb, 0xee, 0x28, 0xff], ckENCODING_BOCU1),
     ([0xf7, 0x64, 0x4c], ckENCODING_UTF1), ([0xef, 0xbb, 0xbf], ckENCODING_UTF8),
     ([0x0e, 0xfe, 0xff], ckENCODING_SCSU), ([0xfb, 0xee, 0x28], ckENCODING_BOCU1),
     ([0xfe, 0xff], ckENCODING_UTF16BE), ([0xff, 0xfe], ckENCODING_UTF16LE)]"

fun find_bom :: "(byte list \<times> Encoding) list \<Rightarrow> byte list \<Rightarrow> Encoding \<times> nat" where
  "find_bom [] data = (ckENCODING_ANSI, 0)"
| "find_bom ((m, e) # rest) data = (if take (length m) data = m then (e, length m) else find_bom rest data)"

text \<open>Every terminator ends a line; what follows the last one is a line unless it is empty.\<close>

fun text_lines :: "nat list \<Rightarrow> nat list list" where
  "text_lines [] = []"
| "text_lines (c # cs) =
     (if c = 10 then [] # text_lines cs
      else if c = 13 then [] # (case cs of d # ds \<Rightarrow> if d = 10 then text_lines ds else text_lines cs | [] \<Rightarrow> [])
      else case text_lines cs of [] \<Rightarrow> [[c]] | l # ls \<Rightarrow> (c # l) # ls)"

fun no_double_cr :: "nat list \<Rightarrow> bool" where
  "no_double_cr (c # d # cs) \<longleftrightarrow> \<not> (c = 13 \<and> d = 13) \<and> no_double_cr (d # cs)"
| "no_double_cr _ \<longleftrightarrow> True"

lemma no_double_cr_Cons: "no_double_cr (c # cs) \<Longrightarrow> no_double_cr cs"
  by (cases cs) auto

lemma no_double_cr_tl: "no_double_cr (x # xs) \<Longrightarrow> x \<noteq> 13 \<or> xs = [] \<or> hd xs \<noteq> 13"
  by (cases xs) auto

section \<open>The mark is found and skipped\<close>

text \<open>
  What the constructor needs of its stream: it holds the text \<open>whole\<close>, reads give as much as is asked for
  and is left, and it can be moved to the beginning, and forward within the text.
\<close>

locale text_source = in_source I rem inv cmax
  for I :: "'s in_stream" and rem :: "'s \<Rightarrow> byte list" and inv :: "'s \<Rightarrow> bool" and cmax :: nat +
  fixes whole :: "byte list"
  assumes full_read: "inv s \<Longrightarrow> unat c \<le> cmax \<Longrightarrow>
      \<exists>s'. is_read I c s = Ret (int (min (unat c) (length (rem s))), take (unat c) (rem s), s')"
    and rewind_law: "inv s \<Longrightarrow> \<exists>s'. is_seek I 0 ckSTREAM_BEGIN s = Ret (True, s') \<and> inv s' \<and> rem s' = whole"
    and skip_law: "inv s \<Longrightarrow> unat d \<le> cmax \<Longrightarrow> unat d \<le> length (rem s) \<Longrightarrow>
      \<exists>s'. is_seek I d ckSTREAM_CURRENT s = Ret (True, s') \<and> inv s' \<and> rem s' = drop (unat d) (rem s)"
    and cmax_text: "4 \<le> cmax"

text \<open>The tests in the order of the code, each with what it sets and how far it moves, and what they come to.\<close>

definition bom_tests :: "(byte list \<times> Encoding option \<times> u32) list" where
  "bom_tests = [([0xfe, 0xff], Some ckENCODING_UTF16BE, 2), ([0xff, 0xfe], Some ckENCODING_UTF16LE, 2),
     ([0xf7, 0x64, 0x4c], Some ckENCODING_UTF1, 3), ([0xef, 0xbb, 0xbf], Some ckENCODING_UTF8, 3),
     ([0x0e, 0xfe, 0xff], Some ckENCODING_SCSU, 3), ([0xfb, 0xee, 0x28], Some ckENCODING_BOCU1, 3),
     ([0x00, 0x00, 0xfe, 0xff], Some ckENCODING_UTF32BE, 4), ([0xff, 0xfe, 0x00, 0x00], Some ckENCODING_UTF32LE, 2),
     ([0xdd, 0x73, 0x66, 0x73], Some ckENCODING_UTFEBCDIC, 4), ([0xfb, 0xee, 0x28, 0xff], None, 1)]"

definition bom_step :: "byte list \<Rightarrow> byte list \<times> Encoding option \<times> u32 \<Rightarrow> Encoding \<times> nat \<Rightarrow> Encoding \<times> nat" where
  "bom_step data test en = (case test of (m, enc, skip) \<Rightarrow>
     if take (length m) data = m then (case enc of Some e \<Rightarrow> e | None \<Rightarrow> fst en, snd en + unat skip) else en)"

fun moves_ok :: "byte list \<Rightarrow> (byte list \<times> Encoding option \<times> u32) list \<Rightarrow> Encoding \<times> nat \<Rightarrow> bool" where
  "moves_ok data [] en \<longleftrightarrow> True"
| "moves_ok data (test # tests) en \<longleftrightarrow> length (fst test) \<le> 4 \<and> unat (snd (snd test)) \<le> 4 \<and>
     snd (bom_step data test en) \<le> length data \<and> moves_ok data tests (bom_step data test en)"

lemma data_cases:
  obtains "data = []" | a where "data = [a]" | a b where "data = [a, b]" | a b c where "data = [a, b, c]"
  | a b c d rest where "data = a # b # c # d # rest"
  by (cases data; cases "tl data"; cases "tl (tl data)"; cases "tl (tl (tl data))") auto

lemmas bom_eval = bom_tests_def bom_table_def bom_step_def numeral_2_eq_2 [symmetric]

lemma bom_tests_4:
  "moves_ok (a # b # c # d # rest) bom_tests (ckENCODING_ANSI, 0) \<and>
   fold (bom_step (a # b # c # d # rest)) bom_tests (ckENCODING_ANSI, 0) = find_bom bom_table (a # b # c # d # rest)"
proof -
  consider "a = 0xff \<and> b = 0xfe \<and> c = 0 \<and> d = 0" | "a = 0xff \<and> \<not> (b = 0xfe \<and> c = 0 \<and> d = 0)"
    | "a = 0xfb \<and> b = 0xee \<and> c = 0x28 \<and> d = 0xff" | "a = 0xfb \<and> \<not> (b = 0xee \<and> c = 0x28 \<and> d = 0xff)"
    | "a = 0" | "a = 0xdd" | "a = 0xf7" | "a = 0xef" | "a = 0x0e" | "a = 0xfe"
    | "a \<notin> {0xff, 0xfb, 0, 0xdd, 0xf7, 0xef, 0x0e, 0xfe}"
    by blast
  then show ?thesis by cases (auto simp: bom_eval)
qed

lemma bom_tests_table:
  "moves_ok data bom_tests (ckENCODING_ANSI, 0)"
  "fold (bom_step data) bom_tests (ckENCODING_ANSI, 0) = find_bom bom_table data"
proof -
  have "moves_ok data bom_tests (ckENCODING_ANSI, 0) \<and>
    fold (bom_step data) bom_tests (ckENCODING_ANSI, 0) = find_bom bom_table data"
  proof (cases data rule: data_cases)
    case (4 a b c)
    consider "a = 0xff" | "a = 0xfb" | "a = 0xf7" | "a = 0xef" | "a = 0x0e" | "a = 0xfe"
      | "a \<notin> {0xff, 0xfb, 0xf7, 0xef, 0x0e, 0xfe}"
      by blast
    then show ?thesis unfolding 4 by cases (auto simp: bom_eval)
  next
    case (5 a b c d rest)
    then show ?thesis using bom_tests_4 by simp
  qed (simp_all add: bom_eval)
  then show "moves_ok data bom_tests (ckENCODING_ANSI, 0)"
    "fold (bom_step data) bom_tests (ckENCODING_ANSI, 0) = find_bom bom_table data" by simp_all
qed

text \<open>An intermediate result of the constructor: the encoding, and the stream behind so many bytes.\<close>

definition stands_at :: "('s \<Rightarrow> bool) \<Rightarrow> ('s \<Rightarrow> byte list) \<Rightarrow> byte list \<Rightarrow> Encoding \<times> nat \<Rightarrow> (Encoding \<times> 's) outcome \<Rightarrow> bool" where
  "stands_at J rm data en r \<longleftrightarrow> (\<exists>s. r = Ret (fst en, s) \<and> J s \<and> rm s = drop (snd en) data \<and> snd en \<le> length data)"

context text_source begin

lemma bom_test_at:
  assumes "stands_at inv rem whole en r" "length (fst test) \<le> 4" "unat (snd (snd test)) \<le> 4"
    and "snd (bom_step whole test en) \<le> length whole"
  shows "stands_at inv rem whole (bom_step whole test en)
    (case test of (m, enc, skip) \<Rightarrow> bom_test I (take (length m) whole = m) enc skip r)"
proof -
  obtain m enc skip where t: "test = (m, enc, skip)" by (cases test) auto
  obtain s where s: "r = Ret (fst en, s)" "inv s" "rem s = drop (snd en) whole" "snd en \<le> length whole"
    using assms(1) by (auto simp: stands_at_def)
  show ?thesis
  proof (cases "take (length m) whole = m")
    case True
    then have "unat skip \<le> length (rem s)" using assms(4) s(3) by (simp add: t bom_step_def)
    moreover have "unat skip \<le> cmax" using assms(3) cmax_text by (simp add: t)
    ultimately obtain s' where "is_seek I skip ckSTREAM_CURRENT s = Ret (True, s')" "inv s'" "rem s' = drop (unat skip) (rem s)"
      using skip_law [OF s(2)] by blast
    with s True assms(4) show ?thesis
      by (auto simp: stands_at_def t bom_step_def bom_test_def add.commute)
  next
    case False
    with s show ?thesis by (auto simp: stands_at_def t bom_step_def bom_test_def)
  qed
qed

lemma bom_tests_at:
  "moves_ok whole tests en \<Longrightarrow> stands_at inv rem whole en r \<Longrightarrow>
   stands_at inv rem whole (fold (bom_step whole) tests en)
     (fold (\<lambda>(m, enc, skip). bom_test I (take (length m) whole = m) enc skip) tests r)"
proof (induction tests arbitrary: en r)
  case (Cons test tests)
  then have "stands_at inv rem whole (bom_step whole test en)
      (case test of (m, enc, skip) \<Rightarrow> bom_test I (take (length m) whole = m) enc skip r)"
    by (intro bom_test_at) simp_all
  with Cons show ?case by (simp add: case_prod_unfold)
qed simp

lemma lr_encoding_spec:
  assumes "inv s" "rem s = whole"
  shows "stands_at inv rem whole (find_bom bom_table whole) (lr_encoding I s)"
proof -
  obtain s1 where r: "is_read I 4 s = Ret (int (min 4 (length whole)), take 4 whole, s1)"
    using full_read [OF assms(1), of 4] cmax_text assms(2) by auto
  have "inv s1" using read_law [OF assms(1), of 4] cmax_text r by auto
  then obtain s2 where s2: "is_seek I 0 ckSTREAM_BEGIN s1 = Ret (True, s2)" "inv s2" "rem s2 = whole"
    using rewind_law by blast
  have test: "k \<le> length whole \<and> bom_is (take 4 whole) m \<longleftrightarrow> take (length m) whole = m"
    if "k = length m" "length m \<le> 4" for k m
  proof -
    have "take (length m) whole = m \<Longrightarrow> length m \<le> length whole" by (metis length_take min.cobounded1)
    with that show ?thesis by (auto simp: bom_is_def min_def)
  qed
  have fits: "(int (length (take 4 whole)) < int (min 4 (length whole)) \<or> 4 < length (take 4 whole)) = False" by auto
  have four: "int (min 4 (length whole)) = 4 \<longleftrightarrow> 4 \<le> int (min 4 (length whole))" by auto
  have "lr_encoding I s = fold (\<lambda>(m, enc, skip). bom_test I (take (length m) whole = m) enc skip) bom_tests
      (Ret (ckENCODING_ANSI, s2))"
    unfolding lr_encoding_def r obind.simps prod.case s2(1) fits if_False four Let_def
    by (simp add: test bom_tests_def)
  then show ?thesis
    using bom_tests_at [OF bom_tests_table(1), of "Ret (ckENCODING_ANSI, s2)"] s2(2,3)
    by (simp add: bom_tests_table(2) stands_at_def)
qed

end

section \<open>One line\<close>

text \<open>What one call takes off the text: the line, the pending character, and the rest.\<close>

fun cut_line :: "nat list \<Rightarrow> nat list \<times> nat list \<times> nat list" where
  "cut_line [] = ([], [], [])"
| "cut_line (c # cs) =
     (if c = 10 then ([], [], cs)
      else if c = 13 then (case cs of [] \<Rightarrow> ([], [], []) | d # ds \<Rightarrow> if d \<noteq> 10 then ([], [d], ds) else ([], [], ds))
      else (case cut_line cs of (l, p, r) \<Rightarrow> (c # l, p, r)))"

definition pending_ok :: "nat list \<Rightarrow> bool" where
  "pending_ok p \<longleftrightarrow> p = [] \<or> (\<exists>d. p = [d] \<and> d \<noteq> 10 \<and> d \<noteq> 13)"

lemma cut_line_text:
  "cut_line xs = (l, p, r) \<Longrightarrow> xs \<noteq> [] \<Longrightarrow> no_double_cr xs \<Longrightarrow>
   text_lines xs = l # text_lines (p @ r) \<and> no_double_cr (p @ r) \<and> length (p @ r) < length xs \<and> pending_ok p"
proof (induction xs arbitrary: l)
  case (Cons c cs)
  show ?case
  proof (cases "c = 10 \<or> c = 13")
    case True
    with Cons.prems show ?thesis
      by (cases cs) (auto simp: pending_ok_def split: if_splits dest: no_double_cr_Cons)
  next
    case False
    then obtain l' where l': "cut_line cs = (l', p, r)" "l = c # l'"
      using Cons.prems(1) by (auto split: prod.splits)
    show ?thesis
    proof (cases "cs = []")
      case True
      with l' False show ?thesis by (auto simp: pending_ok_def)
    next
      case ne: False
      with Cons.IH [OF l'(1) ne no_double_cr_Cons [OF Cons.prems(3)]] l' False show ?thesis by simp
    qed
  qed
qed simp

lemma cut_line_rest: "cut_line xs = (l, p, r) \<Longrightarrow> length r \<le> length xs - 1"
proof (induction xs arbitrary: l)
  case (Cons c cs)
  then show ?case by (cases cs) (fastforce split: if_splits prod.splits)+
qed simp

lemma next_same:
  "lr_next r = [] \<Longrightarrow> r\<lparr>lr_next := [], lr_stream := s\<rparr> = r\<lparr>lr_stream := s\<rparr>"
  "r\<lparr>lr_stream := s, lr_next := p\<rparr> = r\<lparr>lr_next := p, lr_stream := s\<rparr>"
  "lr_next r = [] \<Longrightarrow> r\<lparr>lr_next := [], lr_stream := lr_stream r\<rparr> = r"
  by (cases r; simp)+

context in_source begin

lemma read_char_spec:
  assumes "inv s" "1 \<le> cmax"
  shows "\<exists>s'. read_char I 1 s = Ret (case rem s of [] \<Rightarrow> None | b # bs \<Rightarrow> Some (unat b), s') \<and> inv s' \<and> rem s' = tl (rem s)"
proof -
  have c: "0 < unat (1::u32)" "unat (1::u32) \<le> cmax" using assms(2) by simp_all
  obtain bs s' where r: "is_read I 1 s = Ret (int (length bs), bs, s')" "length bs \<le> unat (1::u32)" "inv s'"
    "rem s = bs @ rem s'" "rem s \<noteq> [] \<Longrightarrow> bs \<noteq> []"
    by (rule read_data [OF assms(1) c]) blast
  show ?thesis
  proof (cases "rem s")
    case Nil
    then have "bs = []" "rem s' = []" using r(4) by simp_all
    with Nil r(1,3) show ?thesis by (simp add: read_char_def)
  next
    case (Cons b rest)
    then have "bs \<noteq> []" using r(5) by simp
    with r(2) obtain b' where b': "bs = [b']" by (cases bs) auto
    with Cons r(4) have "b' = b" "rem s' = rest" by simp_all
    with Cons b' r(1,3) show ?thesis by (simp add: read_char_def)
  qed
qed

text \<open>A round of the loop that ends the line: at LF, and at CR, which looks at one more character.\<close>

lemma read_line_lf:
  assumes "inv (lr_stream r)" "1 \<le> cmax" "lr_next r = []" "rem (lr_stream r) = b # bs" "unat b = 10"
    and "cut_line (map unat (b # bs)) = (l, p, rest)"
  shows "\<exists>s'. read_line_loop I 1 (Suc n) line r = Ret (line @ l, r\<lparr>lr_next := p, lr_stream := s'\<rparr>) \<and>
    inv s' \<and> map unat (rem s') = rest"
proof -
  have "\<not> is_end I (lr_stream r)" using end_law assms(1,4) by simp
  moreover obtain s1 where "read_char I 1 (lr_stream r) = Ret (Some (unat b), s1)" "inv s1" "rem s1 = bs"
    using read_char_spec [OF assms(1,2)] assms(4) by auto
  ultimately show ?thesis using assms(3-6) next_same(1) [where r = r] by (intro exI [of _ s1]) simp
qed

lemma read_line_cr:
  assumes "inv (lr_stream r)" "1 \<le> cmax" "lr_next r = []" "rem (lr_stream r) = b # bs" "unat b = 13"
    and "cut_line (map unat (b # bs)) = (l, p, rest)"
  shows "\<exists>s'. read_line_loop I 1 (Suc n) line r = Ret (line @ l, r\<lparr>lr_next := p, lr_stream := s'\<rparr>) \<and>
    inv s' \<and> map unat (rem s') = rest"
proof -
  have "\<not> is_end I (lr_stream r)" using end_law assms(1,4) by simp
  moreover obtain s1 where s1: "read_char I 1 (lr_stream r) = Ret (Some (unat b), s1)" "inv s1" "rem s1 = bs"
    using read_char_spec [OF assms(1,2)] assms(4) by auto
  moreover obtain s2 where s2: "read_char I 1 s1 = Ret (case bs of [] \<Rightarrow> None | d # ds \<Rightarrow> Some (unat d), s2)"
    "inv s2" "rem s2 = tl bs"
    using read_char_spec [OF s1(2) assms(2)] s1(3) by auto
  ultimately show ?thesis using assms(3-6) next_same(1,2) [where r = r]
    by (intro exI [of _ s2]) (cases bs, simp_all split: if_splits)
qed

lemma read_line_loop_spec:
  assumes "inv (lr_stream r)" "1 \<le> cmax" "length (rem (lr_stream r)) < n" "lr_next r = []"
    and "cut_line (map unat (rem (lr_stream r))) = (l, p, rest)"
  shows "\<exists>s'. read_line_loop I 1 n line r = Ret (line @ l, r\<lparr>lr_next := p, lr_stream := s'\<rparr>) \<and>
    inv s' \<and> map unat (rem s') = rest"
  using assms
proof (induction n arbitrary: r line l)
  case (Suc n)
  show ?case
  proof (cases "rem (lr_stream r)")
    case Nil
    then have "is_end I (lr_stream r)" using end_law Suc.prems(1) by simp
    with Nil Suc.prems next_same(3) [where r = r] show ?thesis by (intro exI [of _ "lr_stream r"]) simp
  next
    case (Cons b bs)
    note cut = Suc.prems(5) [unfolded Cons]
    consider (lf) "unat b = 10" | (cr) "unat b = 13" | (other) "unat b \<noteq> 10" "unat b \<noteq> 13" by blast
    then show ?thesis
    proof cases
      case lf
      show ?thesis by (rule read_line_lf [OF Suc.prems(1,2,4) Cons lf cut])
    next
      case cr
      show ?thesis by (rule read_line_cr [OF Suc.prems(1,2,4) Cons cr cut])
    next
      case other
      then obtain l' where l': "cut_line (map unat bs) = (l', p, rest)" "l = unat b # l'"
        using cut by (auto split: prod.splits)
      obtain s1 where s1: "read_char I 1 (lr_stream r) = Ret (Some (unat b), s1)" "inv s1" "rem s1 = bs"
        using read_char_spec [OF Suc.prems(1,2)] Cons by auto
      let ?r = "r\<lparr>lr_stream := s1\<rparr>"
      have "\<exists>s'. read_line_loop I 1 n (line @ [unat b]) ?r =
          Ret ((line @ [unat b]) @ l', ?r\<lparr>lr_next := p, lr_stream := s'\<rparr>) \<and> inv s' \<and> map unat (rem s') = rest"
        using Cons s1 Suc.prems l' by (intro Suc.IH) auto
      moreover have "\<not> is_end I (lr_stream r)" using end_law Suc.prems(1) Cons by simp
      ultimately show ?thesis using other s1 l' by simp
    qed
  qed
qed simp

lemma read_line_spec:
  assumes "inv (lr_stream r)" "1 \<le> cmax" "length (rem (lr_stream r)) < n" "pending_ok (lr_next r)"
    and "cut_line (lr_next r @ map unat (rem (lr_stream r))) = (l, p, rest)"
  shows "\<exists>s'. read_line I 1 n r = Ret (l, r\<lparr>lr_next := p, lr_stream := s'\<rparr>) \<and> inv s' \<and> map unat (rem s') = rest"
proof (cases "lr_next r = []")
  case True
  then show ?thesis using read_line_loop_spec [OF assms(1-3) True, of l p rest "[]"] assms(5)
    by (simp add: read_line_def)
next
  case False
  then obtain d where d: "lr_next r = [d]" "d \<noteq> 10" "d \<noteq> 13" using assms(4) by (auto simp: pending_ok_def)
  then obtain l' where l': "cut_line (map unat (rem (lr_stream r))) = (l', p, rest)" "l = d # l'"
    using assms(5) by (auto split: prod.splits)
  then show ?thesis using read_line_loop_spec [of "r\<lparr>lr_next := []\<rparr>" n l' p rest "[d]"] assms(1-3) d
    by (simp add: read_line_def)
qed

lemma read_lines_spec:
  assumes "inv (lr_stream r)" "1 \<le> cmax" "length (rem (lr_stream r)) < f" "pending_ok (lr_next r)"
    and "no_double_cr (lr_next r @ map unat (rem (lr_stream r)))"
    and "length (lr_next r @ map unat (rem (lr_stream r))) < n"
  shows "read_lines I 1 f n r = Ret (text_lines (lr_next r @ map unat (rem (lr_stream r))))"
  using assms
proof (induction n arbitrary: r)
  case (Suc n)
  let ?x = "lr_next r @ map unat (rem (lr_stream r))"
  show ?case
  proof (cases "?x = []")
    case True
    with end_law Suc.prems(1) show ?thesis by (simp add: line_reader_end_def)
  next
    case False
    then have ne: "\<not> line_reader_end I r" using end_law Suc.prems(1) by (auto simp: line_reader_end_def)
    obtain l p rest where cl: "cut_line ?x = (l, p, rest)" by (cases "cut_line ?x") auto
    note ct = cut_line_text [OF cl False Suc.prems(5)]
    obtain s' where s': "read_line I 1 f r = Ret (l, r\<lparr>lr_next := p, lr_stream := s'\<rparr>)" "inv s'"
      "map unat (rem s') = rest"
      using read_line_spec [OF Suc.prems(1-4) cl] by blast
    have "length (rem s') = length rest" using s'(3) by (metis length_map)
    moreover have "length rest \<le> length (rem (lr_stream r))"
      using cut_line_rest [OF cl] Suc.prems(4) by (auto simp: pending_ok_def)
    ultimately have "read_lines I 1 f n (r\<lparr>lr_next := p, lr_stream := s'\<rparr>) = Ret (text_lines (p @ rest))"
      using Suc.prems s' ct by (subst Suc.IH) auto
    with ne s' ct show ?thesis by simp
  qed
qed simp

end

lemma find_bom_bound: "find_bom tbl data = (e, n) \<Longrightarrow> n \<le> length data"
proof (induction tbl)
  case (Cons x tbl)
  obtain m e' where x: "x = (m, e')" by fastforce
  have "take (length m) data = m \<Longrightarrow> length m \<le> length data" by (metis length_take min.cobounded1)
  with Cons x show ?case by (auto split: if_splits)
qed simp

text \<open>The constructor finds the mark and stands behind it, and the lines that are read are those of the rest.\<close>

context text_source begin

lemma line_reader_text:
  assumes "inv s" "rem s = whole" "find_bom bom_table whole = (e, n)"
    and "no_double_cr (map unat (drop n whole))" "length whole < f"
  shows "\<exists>r. LineReader I s = Ret r \<and> line_reader_encoding r = e \<and> rem (lr_stream r) = drop n whole \<and>
    read_lines I 1 f f r = Ret (text_lines (map unat (drop n whole)))"
proof -
  obtain s' where s': "lr_encoding I s = Ret (e, s')" "inv s'" "rem s' = drop n whole"
    using lr_encoding_spec [OF assms(1,2)] assms(3) by (auto simp: stands_at_def)
  let ?r = "\<lparr>lr_enc = e, lr_next = [], lr_stream = s'\<rparr>"
  have "read_lines I 1 f f ?r = Ret (text_lines (lr_next ?r @ map unat (rem (lr_stream ?r))))"
    using s'(2,3) assms(4,5) cmax_text by (intro read_lines_spec) (auto simp: pending_ok_def)
  with s' show ?thesis by (intro exI [of _ ?r]) (simp add: LineReader_def line_reader_encoding_def)
qed

end

section \<open>Theorems\<close>

text \<open>A memory stream that holds \<open>data\<close>.\<close>

definition memory_text :: "byte list \<Rightarrow> memory_in \<Rightarrow> bool" where
  "memory_text data s \<longleftrightarrow> memory_inv 8192 s \<and> mi_data s = data"

lemma memory_read_keeps: "is_read memory_in_stream c s = Ret (res, bs, s') \<Longrightarrow> mi_data s' = mi_data s"
  by (auto simp: memory_in_stream_def memory_in_read_def Let_def split: if_splits)

interpretation mem_text: text_source memory_in_stream memory_rem "memory_text data" 8192 data for data
proof (intro text_source.intro text_source_axioms.intro)
  show "in_source memory_in_stream memory_rem (memory_text data) 8192"
    unfolding memory_text_def by (rule mem_in.keeping) (simp add: memory_read_keeps)
next
  fix s c assume "memory_text data s" "unat (c :: u32) \<le> 8192"
  then have "memory_inv 8192 s" "unat c \<le> 8192" by (simp_all add: memory_text_def)
  moreover have "take (min n (length xs)) xs = take n xs" for n and xs :: "byte list" by (simp add: min_def)
  ultimately show "\<exists>s'. is_read memory_in_stream c s =
      Ret (int (min (unat c) (length (memory_rem s))), take (unat c) (memory_rem s), s')"
    using memory_in_read_eq(1) [of 8192 s c] by (simp add: memory_in_stream_def)
next
  fix s assume "memory_text data s"
  then show "\<exists>s'. is_seek memory_in_stream 0 ckSTREAM_BEGIN s = Ret (True, s') \<and> memory_text data s' \<and> memory_rem s' = data"
    by (auto simp: memory_text_def memory_in_stream_def memory_in_seek_def memory_inv_def memory_rem_def)
next
  fix s d assume a: "memory_text data s" "unat (d :: u32) \<le> length (memory_rem s)"
  then have l: "unat (mi_pos s) + unat d \<le> length data" "unat (mi_count s) = length data" "length data < 2 ^ 32"
    by (auto simp: memory_text_def memory_inv_def memory_rem_def word_le_nat_alt)
  then have u: "unat (mi_pos s + d) = unat (mi_pos s) + unat d" by (intro unat_u32_add) linarith
  let ?s = "s\<lparr>mi_pos := mi_pos s + d\<rparr>"
  have "mi_pos s + d \<le> mi_count s" unfolding word_le_nat_alt u l(2) by (rule l(1))
  then have "memory_text data ?s" using a(1) by (auto simp: memory_text_def memory_inv_def)
  moreover have "memory_rem ?s = drop (unat d) (memory_rem s)" using u by (simp add: memory_rem_def add.commute)
  ultimately show "\<exists>s'. is_seek memory_in_stream d ckSTREAM_CURRENT s = Ret (True, s') \<and> memory_text data s' \<and>
      memory_rem s' = drop (unat d) (memory_rem s)"
    by (intro exI [of _ ?s]) (simp add: memory_in_stream_def memory_in_seek_def)
qed simp

lemma memory_text_init: "length data + 8192 < 2 ^ 32 \<Longrightarrow> memory_text data (memory_source data)"
  using memory_inv_init [of data 8192] by (simp add: memory_text_def MemoryInStream_def)

text \<open>The constructor of a \<open>LineReader\<close> over memory recognises the byte order mark of the
  longest table entry that begins the data (ten marks, UTF-32 LE before UTF-16 LE, the four byte
  BOCU-1 before the three byte one), and leaves the stream right behind it; without a mark the
  encoding is ANSI and nothing is skipped.\<close>

theorem line_reader_bom:
  assumes "length data + 8192 < 2 ^ 32" "find_bom bom_table data = (e, n)"
  shows "\<exists>r. LineReader memory_in_stream (memory_source data) = Ret r \<and> line_reader_encoding r = e \<and>
    memory_rem (lr_stream r) = drop n data"
  using mem_text.lr_encoding_spec [OF memory_text_init [OF assms(1)] memory_rem_init] assms(2)
  by (auto simp: stands_at_def LineReader_def line_reader_encoding_def)

theorem line_reader_bom_witness:
  "\<exists>r. LineReader memory_in_stream (memory_source [0xef, 0xbb, 0xbf, 0x61]) = Ret r \<and>
    line_reader_encoding r = ckENCODING_UTF8 \<and> memory_rem (lr_stream r) = drop 3 [0xef, 0xbb, 0xbf, 0x61]"
  by (rule line_reader_bom) (simp_all add: bom_table_def)

text \<open>C12: Reading a memory stream line by line until its end gives exactly the lines of the text
  behind the mark, whichever of LF, CR LF and CR end them, provided no CR follows a CR
  directly.\<close>

theorem line_reader_lines:
  assumes "length data + 8192 < 2 ^ 32" "find_bom bom_table data = (e, n)"
    and "no_double_cr (map unat (drop n data))" "length data < f"
  shows "\<exists>r. LineReader memory_in_stream (memory_source data) = Ret r \<and>
    read_lines memory_in_stream 1 f f r = Ret (text_lines (map unat (drop n data)))"
  using mem_text.line_reader_text [OF memory_text_init [OF assms(1)] memory_rem_init assms(2-4)] by blast

theorem line_reader_lines_witness:
  "\<exists>r. LineReader memory_in_stream (memory_source [0xef, 0xbb, 0xbf, 0x61, 13, 10, 0x62, 13, 0x63]) = Ret r \<and>
    read_lines memory_in_stream 1 10 10 r =
      Ret (text_lines (map unat (drop 3 [0xef, 0xbb, 0xbf, 0x61, 13, 10, 0x62, 13, 0x63 :: byte])))"
  by (rule line_reader_lines [where e = ckENCODING_UTF8]) (simp_all add: bom_table_def)

text \<open>Of two CR in a row only the first ends a line: the second becomes the first character of
  the next line, so that the text CR CR LF, two empty lines, reads as an empty line and a line
  that holds a CR.\<close>

theorem line_reader_double_cr:
  "\<exists>r. LineReader memory_in_stream (memory_source [13, 13, 10]) = Ret r \<and>
    read_lines memory_in_stream 1 4 4 r = Ret [[], [13]] \<and> text_lines (map unat [13, 13, 10 :: byte]) = [[], []]"
proof (intro exI conjI)
  let ?r = "\<lparr>lr_enc = ckENCODING_ANSI, lr_next = [], lr_stream = memory_source [13, 13, 10]\<rparr>"
  show "LineReader memory_in_stream (memory_source [13, 13, 10]) = Ret ?r" by code_simp
  show "read_lines memory_in_stream 1 4 4 ?r = Ret [[], [13]]" by code_simp
  show "text_lines (map unat [13, 13, 10 :: byte]) = [[], []]" by code_simp
qed

end
