(* ===== verification/Path_Name.thy ===== *)
theory Path_Name
  imports Convert
begin

text \<open>
  The class \<^verbatim>\<open>Path\<close> and its iterator, \<^verbatim>\<open>src/path.cc\<close>. The argument \<open>win\<close> is
  \<open>True\<close> for a Windows build (both slashes separate) and \<open>False\<close> for a Unix one. A
  \<^verbatim>\<open>size_type\<close> position is an \<open>int\<close>, where a negative one stands for its complement to
  \<open>2 ^ 64\<close>: -1 is \<^verbatim>\<open>npos\<close>. The specification of the iterator is the list of components,
  \<open>path_parts\<close>.
\<close>

section \<open>The string functions used\<close>

definition is_delim :: "bool \<Rightarrow> char \<Rightarrow> bool" where
  "is_delim win c \<longleftrightarrow> c = CHR ''/'' \<or> (win \<and> c = CHR 0x5c)"

text \<open>
  \<open>find\<close>, \<open>find_first_of\<close>: the first position from \<open>p\<close> on. \<open>rfind\<close>, \<open>find_last_of\<close>: the last one
  up to \<open>p\<close>. A negative \<open>p\<close> is larger than every position.
\<close>

fun find_from :: "(char \<Rightarrow> bool) \<Rightarrow> int \<Rightarrow> string \<Rightarrow> int" where
  "find_from P i [] = -1"
| "find_from P i (c # cs) = (if P c then i else find_from P (i + 1) cs)"

definition str_find :: "(char \<Rightarrow> bool) \<Rightarrow> string \<Rightarrow> int \<Rightarrow> int" where
  "str_find P s p = (if p < 0 then -1 else find_from P p (drop (nat p) s))"

fun last_index :: "(char \<Rightarrow> bool) \<Rightarrow> string \<Rightarrow> int" where
  "last_index P [] = -1"
| "last_index P (c # cs) = (let i = last_index P cs in if 0 \<le> i then i + 1 else if P c then 0 else -1)"

definition str_rfind :: "(char \<Rightarrow> bool) \<Rightarrow> string \<Rightarrow> int \<Rightarrow> int" where
  "str_rfind P s p = last_index P (if p < 0 then s else take (nat p + 1) s)"

text \<open>\<open>substr\<close> throws when the position is past the end.\<close>

definition str_substr :: "string \<Rightarrow> int \<Rightarrow> int \<Rightarrow> string outcome" where
  "str_substr s p n =
     (if p < 0 \<or> int (length s) < p then Throw ''basic_string::substr''
      else Ret (if n < 0 then drop (nat p) s else take (nat n) (drop (nat p) s)))"

section \<open>Path::Iterator\<close>

record path_iterator =
  it_at_end :: bool
  it_start :: int
  it_end :: int
  it_path :: "string option"   \<comment> \<open>\<open>None\<close>: the pointer is not initialised\<close>

definition Iterator_default :: path_iterator where
  "Iterator_default = \<lparr>it_at_end = True, it_start = -1, it_end = 0, it_path = None\<rparr>"

definition iterator_next :: "bool \<Rightarrow> path_iterator \<Rightarrow> path_iterator outcome" where
  "iterator_next win it = (case it_path it of
       None \<Rightarrow> Undef
     | Some name \<Rightarrow>
         let size = int (length name) in
         if it_end it = size \<or> it_end it = size - 1 then Ret (it\<lparr>it_at_end := True\<rparr>)
         else
           let delim = str_find (is_delim win) name (it_start it + 1);
               it' = (if delim = 0 then it\<lparr>it_start := it_start it + 1\<rparr> else it);
               delim' = (if delim = 0 then str_find (is_delim win) name (it_start it' + 1) else delim)
           in Ret (it'\<lparr>it_end := (if delim' = -1 then size else delim')\<rparr>))"

definition Iterator :: "bool \<Rightarrow> string \<Rightarrow> path_iterator outcome" where
  "Iterator win name = iterator_next win \<lparr>it_at_end = False, it_start = -1, it_end = 0, it_path = Some name\<rparr>"

definition iterator_deref :: "path_iterator \<Rightarrow> string outcome" where
  "iterator_deref it =
     (if it_at_end it then Ret ''NULL''
      else case it_path it of
          None \<Rightarrow> Undef
        | Some name \<Rightarrow> str_substr name (it_start it + 1) (it_end it - it_start it - 1))"

text \<open>Both increments do the same.\<close>

definition iterator_incr :: "bool \<Rightarrow> path_iterator \<Rightarrow> path_iterator outcome" where
  "iterator_incr win it = iterator_next win (it\<lparr>it_start := it_end it\<rparr>)"

definition iterator_postincr :: "bool \<Rightarrow> path_iterator \<Rightarrow> path_iterator outcome" where
  "iterator_postincr win it = iterator_next win (it\<lparr>it_start := it_end it\<rparr>)"

definition iterator_eq :: "path_iterator \<Rightarrow> path_iterator \<Rightarrow> bool outcome" where
  "iterator_eq a b =
     (if it_at_end a \<and> it_at_end b then Ret True
      else obind (iterator_deref a) (\<lambda>x. obind (iterator_deref b) (\<lambda>y. Ret (x = y))))"

definition iterator_neq :: "path_iterator \<Rightarrow> path_iterator \<Rightarrow> bool outcome" where
  "iterator_neq a b =
     (if it_at_end a \<and> it_at_end b then Ret False
      else obind (iterator_deref a) (\<lambda>x. obind (iterator_deref b) (\<lambda>y. Ret (x \<noteq> y))))"

section \<open>Path\<close>

type_synonym path = string   \<comment> \<open>\<open>path_name_\<close>\<close>

definition Path :: "string \<Rightarrow> path" where
  "Path path_name = cstr path_name"

definition Path_default :: path where
  "Path_default = []"

definition path_begin :: "bool \<Rightarrow> path \<Rightarrow> path_iterator outcome" where
  "path_begin win p = Iterator win p"

definition path_end :: path_iterator where
  "path_end = Iterator_default"

fun valid_from :: "nat \<Rightarrow> string \<Rightarrow> bool" where
  "valid_from i [] = True"
| "valid_from i (c # cs) =
     (if c = CHR '':'' then i = 1 \<and> valid_from (Suc i) cs
      else c \<notin> {CHR ''*'', CHR ''?'', CHR ''<'', CHR ''>'', CHR ''|'', CHR 0x22} \<and> valid_from (Suc i) cs)"

definition path_valid :: "bool \<Rightarrow> path \<Rightarrow> bool" where
  "path_valid win p = (win \<longrightarrow> valid_from 0 p)"

definition path_name :: "path \<Rightarrow> string" where
  "path_name p = p"

definition path_root_name :: "bool \<Rightarrow> path \<Rightarrow> string" where
  "path_root_name win p =
     (if win then (if 2 < length p \<and> p ! 1 = CHR '':'' then take 3 p else [])
      else (if 0 < length p \<and> p ! 0 = CHR ''/'' then ''/'' else []))"

definition path_dir_name :: "bool \<Rightarrow> path \<Rightarrow> string outcome" where
  "path_dir_name win p =
     (let last = int (length p) - 1;
          delim = str_rfind (is_delim win) p (-1);
          delim' = (if delim = last then str_rfind (is_delim win) p (last - 1) else delim)
      in if delim' = -1 then Ret [] else str_substr p 0 (delim' + 1))"

definition path_base_name :: "bool \<Rightarrow> path \<Rightarrow> string outcome" where
  "path_base_name win p =
     (let last = int (length p) - 1;
          delim = str_rfind (is_delim win) p (-1);
          last' = (if delim = last then last - 1 else last);
          delim' = (if delim = last then str_rfind (is_delim win) p last' else delim)
      in if delim' = -1 then str_substr p 0 (last' + 1) else str_substr p (delim' + 1) (last' - delim'))"

definition path_ext_name :: "bool \<Rightarrow> path \<Rightarrow> string outcome" where
  "path_ext_name win p = obind (path_base_name win p) (\<lambda>base.
     let delim = str_rfind (\<lambda>c. c = CHR ''.'') base (-1)
     in if delim = -1 then Ret [] else str_substr base (delim + 1) (-1))"

text \<open>The loop of \<^verbatim>\<open>operator==\<close>.\<close>

fun path_eq_loop :: "bool \<Rightarrow> nat \<Rightarrow> path_iterator \<Rightarrow> path_iterator \<Rightarrow> bool outcome" where
  "path_eq_loop win 0 it1 it2 = Fuel"
| "path_eq_loop win (Suc n) it1 it2 =
     obind (iterator_neq it1 path_end) (\<lambda>b1.
     obind (if b1 then iterator_neq it2 path_end else Ret False) (\<lambda>b2.
       if b1 \<and> b2 then
         obind (iterator_neq it1 it2) (\<lambda>d.
           if d then Ret False
           else obind (iterator_postincr win it1) (\<lambda>it1'. obind (iterator_postincr win it2) (\<lambda>it2'.
             path_eq_loop win n it1' it2')))
       else
         obind (iterator_eq it1 path_end) (\<lambda>e1. if e1 then iterator_eq it2 path_end else Ret False)))"

definition path_eq :: "bool \<Rightarrow> path \<Rightarrow> path \<Rightarrow> bool outcome" where
  "path_eq win p q = obind (path_begin win p) (\<lambda>it1. obind (path_begin win q) (\<lambda>it2.
     path_eq_loop win (length p + 2) it1 it2))"

definition path_neq :: "bool \<Rightarrow> path \<Rightarrow> path \<Rightarrow> bool outcome" where
  "path_neq win p q = obind (path_eq win p q) (\<lambda>b. Ret (\<not> b))"

definition path_assign :: "path \<Rightarrow> path \<Rightarrow> path" where
  "path_assign p q = q"

text \<open>The delimiters around the joint; \<^verbatim>\<open>operator[]\<close> of an empty constant string gives a null character.\<close>

definition join_names :: "bool \<Rightarrow> string \<Rightarrow> string \<Rightarrow> string" where
  "join_names win p q =
     (let d1 = is_delim win (p ! (length p - 1)); d2 = (q \<noteq> [] \<and> is_delim win (q ! 0));
          p' = (if d1 \<and> d2 then take (length p - 1) p else if \<not> d1 \<and> \<not> d2 then p @ ''/'' else p)
      in p' @ q)"

definition path_plus :: "bool \<Rightarrow> path \<Rightarrow> path \<Rightarrow> path" where
  "path_plus win p q =
     (if length p < 1 then Path (q @ [NUL])
      else if length q < 1 then Path (q @ [NUL])
      else Path (join_names win p q @ [NUL]))"

text \<open>\<^verbatim>\<open>operator+=\<close> reads \<open>path_name_[npos]\<close> when the left path is empty.\<close>

definition path_append :: "bool \<Rightarrow> path \<Rightarrow> path \<Rightarrow> path outcome" where
  "path_append win p q = (if p = [] then Undef else Ret (join_names win p q))"

section \<open>The specification: components\<close>

fun split_path :: "(char \<Rightarrow> bool) \<Rightarrow> string \<Rightarrow> string list" where
  "split_path P [] = [[]]"
| "split_path P (c # cs) =
     (if P c then [] # split_path P cs
      else case split_path P cs of [] \<Rightarrow> [[c]] | w # ws \<Rightarrow> (c # w) # ws)"

definition trim_front :: "(char \<Rightarrow> bool) \<Rightarrow> string \<Rightarrow> string" where
  "trim_front P s = (case s of c # cs \<Rightarrow> if P c then cs else s | [] \<Rightarrow> [])"

definition trim_back :: "(char \<Rightarrow> bool) \<Rightarrow> string \<Rightarrow> string" where
  "trim_back P s = (if s \<noteq> [] \<and> P (last s) then butlast s else s)"

text \<open>One leading and one trailing separator are dropped, the rest is split at the separators.\<close>

definition path_parts :: "bool \<Rightarrow> path \<Rightarrow> string list" where
  "path_parts win p = split_path (is_delim win) (trim_back (is_delim win) (trim_front (is_delim win) p))"

text \<open>What a loop from \<open>begin()\<close> that stops at \<open>at_end_\<close> sees.\<close>

fun collect :: "bool \<Rightarrow> nat \<Rightarrow> path_iterator \<Rightarrow> string list outcome" where
  "collect win 0 it = Fuel"
| "collect win (Suc n) it =
     (if it_at_end it then Ret []
      else obind (iterator_deref it) (\<lambda>w. obind (iterator_incr win it) (\<lambda>it'.
        obind (collect win n it') (\<lambda>ws. Ret (w # ws)))))"

definition path_components :: "bool \<Rightarrow> path \<Rightarrow> string list outcome" where
  "path_components win p = obind (path_begin win p) (collect win (length p + 2))"

text \<open>A path of fewer than two characters has no components for the iterator.\<close>

definition comps :: "bool \<Rightarrow> path \<Rightarrow> string list" where
  "comps win p = (if length p < 2 then [] else path_parts win p)"

section \<open>Lemmas on the specification\<close>

lemma split_nonempty: "split_path P s \<noteq> []"
  by (induction s) (auto split: list.splits)

lemma split_no_delim: "(\<forall>c\<in>set w. \<not> P c) \<Longrightarrow> split_path P w = [w]"
  by (induction w) auto

lemma split_delim: "P d \<Longrightarrow> split_path P (x @ d # y) = split_path P x @ split_path P y"
  by (induction x) (auto split: list.splits dest: split_nonempty [THEN notE])

lemma split_length: "length (split_path P s) \<le> length s + 1"
  by (induction s) (auto split: list.splits)

lemma find_from_eq:
  "find_from P i s = (if \<exists>c\<in>set s. P c then i + int (length (takeWhile (\<lambda>c. \<not> P c) s)) else -1)"
  by (induction s arbitrary: i) auto

section \<open>The iterator sees the components\<close>

text \<open>The iterator that points at the component that begins at position \<open>k\<close>.\<close>

definition iter_at :: "bool \<Rightarrow> string \<Rightarrow> nat \<Rightarrow> path_iterator" where
  "iter_at win name k = \<lparr>it_at_end = False, it_start = int k - 1,
     it_end = int k + int (length (takeWhile (\<lambda>c. \<not> is_delim win c) (drop k name))), it_path = Some name\<rparr>"

lemma str_find_at:
  "k \<le> length name \<Longrightarrow> str_find P name (int k) =
    (if \<exists>c\<in>set (drop k name). P c then int k + int (length (takeWhile (\<lambda>c. \<not> P c) (drop k name))) else -1)"
  by (simp add: str_find_def find_from_eq)

lemma takeWhile_all: "\<not> (\<exists>c\<in>set s. P c) \<Longrightarrow> takeWhile (\<lambda>c. \<not> P c) s = s"
  by (simp add: takeWhile_eq_all_conv)

lemma set_it_end:
  assumes "k \<le> length name"
  shows "(if str_find (is_delim win) name (int k) = -1 then int (length name) else str_find (is_delim win) name (int k)) =
    it_end (iter_at win name k)"
proof (cases "\<exists>c\<in>set (drop k name). is_delim win c")
  case True
  then show ?thesis using assms by (simp add: str_find_at iter_at_def)
next
  case False
  then have "takeWhile (\<lambda>c. \<not> is_delim win c) (drop k name) = drop k name" by (rule takeWhile_all)
  then have "it_end (iter_at win name k) = int k + int (length (drop k name))"
    unfolding iter_at_def by (simp only: path_iterator.select_convs)
  then have "it_end (iter_at win name k) = int (length name)" using assms by simp
  with False assms show ?thesis by (simp add: str_find_at)
qed

lemma begin_at:
  assumes "2 \<le> length name"
  shows "path_begin win name = Ret (iter_at win name (if is_delim win (hd name) then 1 else 0))"
proof -
  obtain c cs where n: "name = c # cs" "cs \<noteq> []" using assms by (cases name; cases "tl name") auto
  have l: "int (length name) \<noteq> 0" "int (length name) - 1 \<noteq> 0" using assms by auto
  have f0: "str_find (is_delim win) name 0 = 0 \<longleftrightarrow> is_delim win c"
    using str_find_at [of 0 name "is_delim win"] by (auto simp: n)
  have e0: "(if str_find (is_delim win) name 0 = -1 then int (length name) else str_find (is_delim win) name 0) =
      it_end (iter_at win name 0)" using set_it_end [of 0 name win] by (simp split: if_splits)
  have e1: "(if str_find (is_delim win) name 1 = -1 then int (length name) else str_find (is_delim win) name 1) =
      it_end (iter_at win name 1)" using set_it_end [of 1 name win] assms by (simp split: if_splits)
  show ?thesis
  proof (cases "is_delim win c")
    case True
    then show ?thesis using l f0 e1 n(1)
      by (simp add: path_begin_def Iterator_def iterator_next_def Let_def) (simp add: iter_at_def Let_def split: if_splits)
  next
    case False
    then show ?thesis using l f0 e0 n(1)
      by (simp add: path_begin_def Iterator_def iterator_next_def Let_def) (simp add: iter_at_def Let_def split: if_splits)
  qed
qed

lemma deref_at: "k < length name \<Longrightarrow>
    iterator_deref (iter_at win name k) = Ret (takeWhile (\<lambda>c. \<not> is_delim win c) (drop k name))"
  by (simp add: iterator_deref_def iter_at_def str_substr_def takeWhile_eq_take [symmetric])

text \<open>
  The abstraction: which components an iterator still has to show.
\<close>

inductive shows_parts :: "bool \<Rightarrow> path_iterator \<Rightarrow> string list \<Rightarrow> bool" for win where
  parts_end: "it_at_end it \<Longrightarrow> it_path it = Some name \<Longrightarrow>
      it_end it = int (length name) \<or> it_end it = int (length name) - 1 \<Longrightarrow> shows_parts win it []"
| parts_at: "k < length name \<Longrightarrow>
      shows_parts win (iter_at win name k) (split_path (is_delim win) (trim_back (is_delim win) (drop k name)))"

inductive_simps shows_parts_Nil: "shows_parts win it []"
inductive_cases parts_ConsE: "shows_parts win it (w # ws)"

text \<open>The first component of a nonempty name, and what is behind it.\<close>

lemma split_trim_last:
  assumes "length s \<le> length (takeWhile (\<lambda>c. \<not> P c) s) + 1" "s \<noteq> []"
  shows "split_path P (trim_back P s) = [takeWhile (\<lambda>c. \<not> P c) s]"
proof -
  let ?w = "takeWhile (\<lambda>c. \<not> P c) s"
  have wP: "\<forall>c\<in>set ?w. \<not> P c" by (auto dest: set_takeWhileD)
  have s: "s = ?w @ dropWhile (\<lambda>c. \<not> P c) s" by simp
  have "trim_back P s = ?w"
  proof (cases "dropWhile (\<lambda>c. \<not> P c) s")
    case Nil
    then have "s = ?w" by (metis s append_Nil2)
    then show ?thesis using wP assms(2) by (metis last_in_set trim_back_def)
  next
    case (Cons x s')
    have "length s = length ?w + length (x # s')" using arg_cong [OF s, of length] Cons by simp
    then have s': "s = ?w @ [x]" using s Cons assms(1) by (cases s') simp_all
    have "P x" using Cons by (metis hd_dropWhile list.distinct(1) list.sel(1))
    then show ?thesis using s' by (metis butlast_snoc last_snoc snoc_eq_iff_butlast trim_back_def)
  qed
  then show ?thesis using split_no_delim [OF wP] by simp
qed

lemma split_trim_next:
  assumes "length (takeWhile (\<lambda>c. \<not> P c) s) + 1 < length s"
  shows "split_path P (trim_back P s) = takeWhile (\<lambda>c. \<not> P c) s #
    split_path P (trim_back P (drop (length (takeWhile (\<lambda>c. \<not> P c) s) + 1) s))"
proof -
  define w where "w = takeWhile (\<lambda>c. \<not> P c) s"
  have wP: "\<forall>c\<in>set w. \<not> P c" by (auto simp: w_def dest: set_takeWhileD)
  have "dropWhile (\<lambda>c. \<not> P c) s \<noteq> []"
    using assms by (metis add.commute add_lessD1 less_irrefl takeWhile_dropWhile_id append_Nil2)
  then obtain x s' where x: "dropWhile (\<lambda>c. \<not> P c) s = x # s'" by (meson neq_Nil_conv)
  then have P: "P x" by (metis hd_dropWhile list.distinct(1) list.sel(1))
  have s: "s = w @ x # s'" using takeWhile_dropWhile_id [of "\<lambda>c. \<not> P c" s] x by (simp add: w_def)
  then have "s' \<noteq> []" using assms unfolding w_def [symmetric] by auto
  then have "trim_back P s = w @ x # trim_back P s'" by (simp add: s trim_back_def butlast_append)
  then have "split_path P (trim_back P s) = w # split_path P (trim_back P s')"
    using split_delim [of P x w] P split_no_delim [OF wP] by simp
  moreover have "drop (length w + 1) s = s'" by (simp add: s)
  ultimately show ?thesis by (simp only: w_def)
qed

text \<open>The step of the iterator, behind the last component and between two.\<close>

lemma incr_last:
  assumes "int (length name) \<le> it_end (iter_at win name k) + 1" "k < length name"
  shows "\<exists>it'. iterator_incr win (iter_at win name k) = Ret it' \<and> shows_parts win it' []"
proof -
  let ?it = "iter_at win name k"
  have "length (takeWhile (\<lambda>c. \<not> is_delim win c) (drop k name)) \<le> length name - k"
    using length_takeWhile_le [of _ "drop k name"] by simp
  then have e: "it_end ?it = int (length name) \<or> it_end ?it = int (length name) - 1"
    using assms by (auto simp: iter_at_def)
  then have "iterator_incr win ?it = Ret (?it\<lparr>it_start := it_end ?it, it_at_end := True\<rparr>)"
    by (auto simp: iterator_incr_def iterator_next_def Let_def iter_at_def)
  moreover have "shows_parts win (?it\<lparr>it_start := it_end ?it, it_at_end := True\<rparr>) []"
    by (rule parts_end [of _ name]) (use e in \<open>auto simp: iter_at_def\<close>)
  ultimately show ?thesis by blast
qed

lemma incr_next:
  assumes "it_end (iter_at win name k) + 1 = int k'" "k' < length name"
  shows "iterator_incr win (iter_at win name k) = Ret (iter_at win name k')"
proof -
  let ?it = "iter_at win name k"
  have e: "it_end ?it = int k' - 1" "it_end ?it \<noteq> int (length name)" "it_end ?it \<noteq> int (length name) - 1"
    using assms by linarith+
  have "k' \<noteq> 0" using assms(1) by (auto simp: iter_at_def)
  then have nz: "str_find (is_delim win) name (int k') \<noteq> 0" using assms(2) by (simp add: str_find_at)
  have "iterator_incr win ?it = Ret (?it\<lparr>it_start := it_end ?it, it_end := it_end (iter_at win name k')\<rparr>)"
    using e nz set_it_end [of k' name win] assms(2)
    by (simp add: iterator_incr_def iterator_next_def Let_def) (simp add: iter_at_def Let_def split: if_splits)
  then show ?thesis using e(1) by (simp add: iter_at_def)
qed

lemma incr_at:
  assumes "k < length name"
  obtains w ws it' where "iterator_deref (iter_at win name k) = Ret w"
    "split_path (is_delim win) (trim_back (is_delim win) (drop k name)) = w # ws"
    "iterator_incr win (iter_at win name k) = Ret it'" "shows_parts win it' ws"
proof -
  define w where "w = takeWhile (\<lambda>c. \<not> is_delim win c) (drop k name)"
  have e: "it_end (iter_at win name k) = int (k + length w)" by (simp add: iter_at_def w_def)
  show thesis
  proof (cases "k + length w + 1 < length name")
    case True
    have "drop (length w + 1) (drop k name) = drop (k + length w + 1) name" by (simp add: add.commute add.left_commute)
    then show thesis
      using that [OF deref_at [OF assms]] split_trim_next [of "is_delim win" "drop k name"] True
        incr_next [of win name k "k + length w + 1"] e parts_at [OF True] by (simp add: w_def)
  next
    case False
    then show thesis
      using that [OF deref_at [OF assms]] split_trim_last [of "drop k name" "is_delim win"] assms
        incr_last [of name win k] e by (force simp: w_def)
  qed
qed

lemma parts_step:
  "shows_parts win it (w # ws) \<Longrightarrow> \<not> it_at_end it \<and> iterator_deref it = Ret w \<and>
    (\<exists>it'. iterator_incr win it = Ret it' \<and> shows_parts win it' ws)"
proof (erule parts_ConsE)
  fix k name
  assume it: "it = iter_at win name k" and k: "k < length name"
    and s: "w # ws = split_path (is_delim win) (trim_back (is_delim win) (drop k name))"
  obtain w' ws' it' where r: "iterator_deref (iter_at win name k) = Ret w'"
    "split_path (is_delim win) (trim_back (is_delim win) (drop k name)) = w' # ws'"
    "iterator_incr win (iter_at win name k) = Ret it'" "shows_parts win it' ws'"
    by (rule incr_at [OF k])
  have "\<not> it_at_end it" by (simp add: it iter_at_def)
  with it s r show ?thesis by auto
qed

lemma parts_Nil: "shows_parts win it [] \<Longrightarrow> it_at_end it"
  unfolding shows_parts_Nil by (metis split_nonempty)

lemma parts_begin: "\<exists>it. path_begin win p = Ret it \<and> shows_parts win it (comps win p)"
proof (cases "2 \<le> length p")
  case True
  let ?k = "if is_delim win (hd p) then 1 else 0"
  have "drop ?k p = trim_front (is_delim win) p" using True by (cases p) (auto simp: trim_front_def)
  moreover have "?k < length p" using True by auto
  ultimately have "shows_parts win (iter_at win p ?k) (comps win p)"
    using parts_at [of ?k p win] True by (simp add: comps_def path_parts_def)
  with begin_at [OF True] show ?thesis by blast
next
  case False
  then have l: "0 = int (length p) \<or> 0 = int (length p) - 1" by linarith
  then show ?thesis using False
    by (auto simp: path_begin_def Iterator_def iterator_next_def comps_def intro!: parts_end)
qed

lemma collect_parts: "shows_parts win it ws \<Longrightarrow> length ws < n \<Longrightarrow> collect win n it = Ret ws"
proof (induction n arbitrary: it ws)
  case (Suc n)
  show ?case
  proof (cases ws)
    case Nil
    with Suc.prems(1) have "it_at_end it" using parts_Nil by simp
    with Nil show ?thesis by simp
  next
    case (Cons w ws')
    with Suc show ?thesis using parts_step [of win it w ws'] by auto
  qed
qed simp

section \<open>Comparison\<close>

text \<open>The comparison runs up to the end of a path or a component with the name \<^verbatim>\<open>NULL\<close>.\<close>

definition up_to_NULL :: "string list \<Rightarrow> string list" where
  "up_to_NULL ws = takeWhile (\<lambda>w. w \<noteq> ''NULL'') ws"

definition ended :: "string list \<Rightarrow> bool" where
  "ended ws \<longleftrightarrow> ws = [] \<or> hd ws = ''NULL''"

lemma deref_parts: "shows_parts win it ws \<Longrightarrow> iterator_deref it = Ret (case ws of [] \<Rightarrow> ''NULL'' | w # _ \<Rightarrow> w)"
proof (cases ws)
  case Nil
  moreover assume "shows_parts win it ws"
  ultimately have "it_at_end it" using parts_Nil by blast
  with Nil show ?thesis by (simp add: iterator_deref_def)
next
  case (Cons w ws')
  moreover assume "shows_parts win it ws"
  ultimately show ?thesis using parts_step [of win it w ws'] by simp
qed

lemma at_end_parts: "shows_parts win it ws \<Longrightarrow> it_at_end it \<longleftrightarrow> ws = []"
  by (cases ws) (auto dest: parts_Nil parts_step)

lemma end_parts: "it_at_end path_end" "iterator_deref path_end = Ret ''NULL''"
  by (simp_all add: path_end_def Iterator_default_def iterator_deref_def)

lemma cmp_end:
  assumes "shows_parts win it ws"
  shows "iterator_neq it path_end = Ret (\<not> ended ws)" "iterator_eq it path_end = Ret (ended ws)"
  using deref_parts [OF assms] at_end_parts [OF assms] end_parts
  by (auto simp: iterator_neq_def iterator_eq_def ended_def split: list.splits)

lemma cmp_parts:
  assumes "shows_parts win a (v # vs)" "shows_parts win b (w # ws)"
  shows "iterator_neq a b = Ret (v \<noteq> w)"
  using deref_parts [OF assms(1)] deref_parts [OF assms(2)] at_end_parts [OF assms(1)]
  by (simp add: iterator_neq_def)

lemma postincr_parts: "shows_parts win it (w # ws) \<Longrightarrow> \<exists>it'. iterator_postincr win it = Ret it' \<and> shows_parts win it' ws"
  using parts_step unfolding iterator_postincr_def iterator_incr_def by blast

lemma up_to_NULL_ended: "ended ws \<longleftrightarrow> up_to_NULL ws = []"
  by (cases ws) (auto simp: ended_def up_to_NULL_def)

lemma path_eq_loop_parts:
  "shows_parts win a vs \<Longrightarrow> shows_parts win b ws \<Longrightarrow> length vs < n \<Longrightarrow>
   path_eq_loop win n a b = Ret (up_to_NULL vs = up_to_NULL ws)"
proof (induction n arbitrary: a b vs ws)
  case (Suc n)
  note ce = cmp_end [OF Suc.prems(1)] cmp_end [OF Suc.prems(2)]
  show ?case
  proof (cases "ended vs \<or> ended ws")
    case True
    then show ?thesis using ce up_to_NULL_ended by auto
  next
    case False
    then obtain v vs' w ws' where v: "vs = v # vs'" "v \<noteq> ''NULL''" and w: "ws = w # ws'" "w \<noteq> ''NULL''"
      by (cases vs; cases ws) (auto simp: ended_def)
    obtain a' b' where s: "iterator_postincr win a = Ret a'" "shows_parts win a' vs'"
      "iterator_postincr win b = Ret b'" "shows_parts win b' ws'"
      using postincr_parts Suc.prems(1,2) v w by metis
    show ?thesis
      using False ce cmp_parts [of win a v vs' b w ws'] Suc.prems s v w Suc.IH [OF s(2,4)]
      by (auto simp: up_to_NULL_def)
  qed
qed simp

lemma length_comps: "length (comps win p) \<le> length p + 1"
proof -
  have "length (path_parts win p) \<le> length (trim_back (is_delim win) (trim_front (is_delim win) p)) + 1"
    unfolding path_parts_def by (rule split_length)
  also have "\<dots> \<le> length p + 1" by (auto simp: trim_back_def trim_front_def split: list.splits)
  finally show ?thesis by (simp add: comps_def)
qed

section \<open>Base and directory names\<close>

lemma last_index_none: "last_index P s = -1 \<longleftrightarrow> (\<forall>c\<in>set s. \<not> P c)"
  and last_index_bounds: "-1 \<le> last_index P s \<and> last_index P s < int (length s)"
  by (induction s) (auto simp: Let_def)

lemma last_index_append: "(\<forall>c\<in>set y. \<not> P c) \<Longrightarrow> P d \<Longrightarrow> last_index P (x @ d # y) = int (length x)"
proof (induction x)
  case Nil
  then have "last_index P y = -1" by (simp add: last_index_none)
  with Nil show ?case by simp
qed simp

lemma last_delim_split: "(\<exists>c\<in>set s. P c) \<Longrightarrow> \<exists>x d y. s = x @ d # y \<and> P d \<and> (\<forall>c\<in>set y. \<not> P c)"
  by (metis split_list_last_prop)

text \<open>The text of a path without the one separator that may end it.\<close>

definition stem :: "bool \<Rightarrow> path \<Rightarrow> string" where
  "stem win p = trim_back (is_delim win) p"

lemma rfind_none: "(\<forall>c\<in>set s. \<not> P c) \<Longrightarrow> str_rfind P s p = -1"
  unfolding str_rfind_def by (subst last_index_none) (auto dest: in_set_takeD)

text \<open>Where the names of the file and of its directory are: the text is \<open>x @ y\<close>, \<open>y\<close> without separators.\<close>

lemma base_dir_split:
  assumes "\<forall>c\<in>set y. \<not> is_delim win c" "x = [] \<or> is_delim win (last x)" "y \<noteq> []"
  shows "path_base_name win (x @ y) = Ret y" "path_dir_name win (x @ y) = Ret x"
proof -
  have "path_base_name win (x @ y) = Ret y \<and> path_dir_name win (x @ y) = Ret x"
  proof (cases "x = []")
    case True
    with assms rfind_none [of y "is_delim win"] show ?thesis
      by (auto simp: path_base_name_def path_dir_name_def Let_def str_substr_def)
  next
    case False
    then obtain x' d where x: "x = x' @ [d]" "is_delim win d"
      using assms(2) by (metis append_butlast_last_id)
    have r: "str_rfind (is_delim win) (x @ y) (-1) = int (length x')"
      using last_index_append [OF assms(1) x(2), of x'] by (simp add: str_rfind_def x(1))
    have "0 < length y" using assms(3) by simp
    with r x show ?thesis
      by (auto simp: path_base_name_def path_dir_name_def Let_def str_substr_def nat_add_distrib)
  qed
  then show "path_base_name win (x @ y) = Ret y" "path_dir_name win (x @ y) = Ret x" by blast+
qed

lemma base_dir_split_trailing:
  assumes "\<forall>c\<in>set y. \<not> is_delim win c" "x = [] \<or> is_delim win (last x)" "y \<noteq> []" "is_delim win e"
  shows "path_base_name win (x @ y @ [e]) = Ret y \<and> path_dir_name win (x @ y @ [e]) = Ret x"
proof -
  let ?s = "x @ y @ [e]" and ?n = "length x + length y"
  have yl: "0 < length y" using assms(3) by simp
  have r: "str_rfind (is_delim win) ?s (-1) = int ?n"
    using last_index_append [of "[]" "is_delim win" e "x @ y"] assms(4) by (simp add: str_rfind_def)
  have "nat (int ?n - 1) + 1 = ?n" using yl by linarith
  then have tk: "take (nat (int ?n - 1) + 1) ?s = x @ y" by simp
  have r2: "str_rfind (is_delim win) ?s (int ?n - 1) = last_index (is_delim win) (x @ y)"
    using yl tk by (simp add: str_rfind_def)
  show ?thesis
  proof (cases "x = []")
    case True
    then have "last_index (is_delim win) (x @ y) = -1" using assms(1) by (simp add: last_index_none)
    with r r2 True yl show ?thesis
      by (auto simp: path_base_name_def path_dir_name_def Let_def str_substr_def)
  next
    case False
    then obtain x' d where x: "x = x' @ [d]" "is_delim win d"
      using assms(2) by (metis append_butlast_last_id)
    have "last_index (is_delim win) (x @ y) = int (length x')"
      using last_index_append [OF assms(1) x(2), of x'] by (simp add: x(1))
    with r r2 x yl show ?thesis
      by (auto simp: path_base_name_def path_dir_name_def Let_def str_substr_def nat_add_distrib)
  qed
qed

section \<open>Theorems\<close>

text \<open>C19: The iterator runs, from \<open>begin()\<close> to its end, over exactly the components of the path:
  the pieces between the separators, one leading and one trailing separator aside, on Unix and
  on Windows. A path of one character shows no component, also when it is the name of a
  file.\<close>

theorem path_iterator_components:
  "path_components win p = Ret (if length p < 2 then [] else path_parts win p)"
proof -
  obtain it where it: "path_begin win p = Ret it" "shows_parts win it (comps win p)"
    using parts_begin by blast
  have "length (comps win p) < length p + 2" using length_comps [of win p] by linarith
  then have "collect win (length p + 2) it = Ret (comps win p)" by (rule collect_parts [OF it(2)])
  with it(1) show ?thesis by (simp add: path_components_def comps_def del: collect.simps)
qed

text \<open>C34: \<^verbatim>\<open>operator==\<close> always ends and compares the component lists up to the first component
  named \<^verbatim>\<open>NULL\<close>, the name that the end iterator gives; paths that differ only behind such a
  component are equal for it.\<close>

theorem path_eq_components:
  "path_eq win p q = Ret (up_to_NULL (comps win p) = up_to_NULL (comps win q))"
proof -
  obtain a b where "path_begin win p = Ret a" "shows_parts win a (comps win p)"
    "path_begin win q = Ret b" "shows_parts win b (comps win q)"
    using parts_begin by metis
  moreover have "length (comps win p) < length p + 2" using length_comps [of win p] by linarith
  ultimately show ?thesis by (simp add: path_eq_def path_eq_loop_parts del: path_eq_loop.simps)
qed

text \<open>The directory name and the base name split a path: the base name has no separator and is
  not empty, the directory name is empty or ends in a separator, and together, with the
  separator that may end the path, they are the path, for every path whose last name is not
  empty.\<close>

theorem path_dir_base_split:
  assumes "stem win p \<noteq> []" "\<not> is_delim win (last (stem win p))"
  shows "\<exists>d b. path_dir_name win p = Ret d \<and> path_base_name win p = Ret b \<and> d @ b = stem win p \<and>
    b \<noteq> [] \<and> (\<forall>c\<in>set b. \<not> is_delim win c) \<and> (d = [] \<or> is_delim win (last d))"
proof -
  let ?P = "is_delim win"
  obtain x y where s: "stem win p = x @ y" "\<forall>c\<in>set y. \<not> ?P c" "x = [] \<or> ?P (last x)"
  proof (cases "\<exists>c\<in>set (stem win p). ?P c")
    case True
    then obtain x d y where "stem win p = x @ d # y" "?P d" "\<forall>c\<in>set y. \<not> ?P c"
      using last_delim_split [OF True] by blast
    then show thesis by (intro that [of "x @ [d]" y]) auto
  next
    case False
    then show thesis by (intro that [of "[]" "stem win p"]) auto
  qed
  have y: "y \<noteq> []"
  proof
    assume "y = []"
    then have "stem win p = x" using s(1) by simp
    with s(3) assms show False by simp
  qed
  have "path_base_name win p = Ret y \<and> path_dir_name win p = Ret x"
  proof (cases "p \<noteq> [] \<and> ?P (last p)")
    case True
    then have "p = stem win p @ [last p]" by (simp add: stem_def trim_back_def)
    then have p: "p = x @ y @ [last p]" unfolding s(1) by simp
    show ?thesis
      using base_dir_split_trailing [OF s(2,3) y conjunct2 [OF True]] unfolding p [symmetric] .
  next
    case False
    then have "p = stem win p" by (auto simp: stem_def trim_back_def)
    then have p: "p = x @ y" unfolding s(1) .
    show ?thesis unfolding p using base_dir_split [OF s(2,3) y] by blast
  qed
  with s y show ?thesis by (intro exI [of _ x] exI [of _ y]) simp
qed

theorem path_dir_base_split_witness:
  "\<exists>d b. path_dir_name False ''/this/is/a/test/'' = Ret d \<and> path_base_name False ''/this/is/a/test/'' = Ret b \<and>
    d @ b = stem False ''/this/is/a/test/'' \<and> b \<noteq> [] \<and> (\<forall>c\<in>set b. \<not> is_delim False c) \<and>
    (d = [] \<or> is_delim False (last d))"
  by (rule path_dir_base_split) (simp_all add: stem_def trim_back_def is_delim_def)

lemma join_names_shape:
  assumes "p \<noteq> []" "q \<noteq> []"
  shows "\<exists>s. is_delim win s \<and> join_names win p q = trim_back (is_delim win) p @ s # trim_front (is_delim win) q"
proof -
  obtain c cs where q: "q = c # cs" using assms(2) by (cases q) auto
  have lp: "p ! (length p - 1) = last p" "take (length p - 1) p = butlast p" "p = butlast p @ [last p]"
    using assms(1) by (simp add: last_conv_nth, simp add: butlast_conv_take, simp)
  show ?thesis
  proof (cases "is_delim win (last p)")
    case True
    show ?thesis
    proof (cases "is_delim win c")
      case c: True
      with True q lp assms(1) show ?thesis
        by (intro exI [of _ c]) (simp add: join_names_def trim_back_def trim_front_def)
    next
      case False
      with True q lp assms(1) show ?thesis
        by (intro exI [of _ "last p"]) (simp add: join_names_def trim_back_def trim_front_def)
    qed
  next
    case False
    have "is_delim win (CHR ''/'')" by (simp add: is_delim_def)
    with False q lp(1) assms(1) show ?thesis
      by (cases "is_delim win c") (auto simp: join_names_def trim_back_def trim_front_def Let_def)
  qed
qed

lemma trim_sides:
  assumes "2 \<le> length p"
  shows "trim_front P (trim_back P p @ x) = trim_back P (trim_front P p) @ x"
    and "trim_back P (y # trim_front P p) = y # trim_back P (trim_front P p)"
    and "trim_front P p \<noteq> []"
proof -
  obtain a b cs where p: "p = a # b # cs" using assms by (cases p; cases "tl p") auto
  show "trim_front P (trim_back P p @ x) = trim_back P (trim_front P p) @ x"
    "trim_back P (y # trim_front P p) = y # trim_back P (trim_front P p)" "trim_front P p \<noteq> []"
    by (auto simp: p trim_front_def trim_back_def)
qed

lemma trim_back_append: "y \<noteq> [] \<Longrightarrow> trim_back P (x @ y) = x @ trim_back P y"
  by (auto simp: trim_back_def butlast_append)

text \<open>C33: Joining two paths of at least two characters with \<^verbatim>\<open>operator+\<close> or \<^verbatim>\<open>operator+=\<close> gives one
  path whose components are those of the first followed by those of the second, whether or
  not the first ends or the second begins with a separator.\<close>

theorem path_plus_components:
  assumes "2 \<le> length p" "2 \<le> length q" "NUL \<notin> set p" "NUL \<notin> set q"
  shows "comps win (path_plus win p q) = comps win p @ comps win q \<and>
    path_append win p q = Ret (path_plus win p q)"
proof -
  let ?P = "is_delim win"
  have ne: "p \<noteq> []" "q \<noteq> []" using assms by auto
  obtain s where s: "?P s" "join_names win p q = trim_back ?P p @ s # trim_front ?P q"
    using join_names_shape [OF ne] by blast
  have "set (join_names win p q) \<subseteq> set p \<union> {CHR ''/''} \<union> set q"
    by (auto simp: join_names_def Let_def dest: in_set_takeD)
  moreover have "NUL \<noteq> CHR ''/''" by (simp add: NUL_def)
  ultimately have "NUL \<notin> set (join_names win p q)" using assms(3,4) by auto
  then have plus: "path_plus win p q = join_names win p q"
    using ne cstr_prefix [of "join_names win p q" "[]"] by (simp add: path_plus_def Path_def)
  have len: "2 \<le> length (join_names win p q)"
    using assms(1,2) by (auto simp: join_names_def Let_def)
  have "trim_back ?P (trim_front ?P (join_names win p q)) =
      trim_back ?P (trim_front ?P p) @ s # trim_back ?P (trim_front ?P q)"
    unfolding s(2) trim_sides(1) [OF assms(1)] using trim_back_append [of "s # trim_front ?P q" ?P] trim_sides(2) [OF assms(2)]
    by simp
  then have "path_parts win (join_names win p q) = path_parts win p @ path_parts win q"
    unfolding path_parts_def using split_delim [of ?P s] s(1) by simp
  with assms(1,2) len plus ne show ?thesis by (simp add: comps_def path_append_def)
qed

theorem path_plus_components_witness:
  "comps False (path_plus False ''/this/is/'' ''/a/test'') = comps False ''/this/is/'' @ comps False ''/a/test'' \<and>
    path_append False ''/this/is/'' ''/a/test'' = Ret (path_plus False ''/this/is/'' ''/a/test'')"
  by (rule path_plus_components) (simp_all add: NUL_def)

text \<open>The corner cases of the joins and comparisons: adding an empty path to any path gives the
  empty path, appending to an empty path reads outside the string, and any two paths of one
  character are equal.\<close>

theorem path_corner_cases:
  "path_plus win p [] = [] \<and> path_append win [] p = Undef \<and> path_eq win [a] [b] = Ret True"
  by (simp add: path_plus_def Path_def cstr_def path_append_def path_eq_components comps_def)

end
