(* ===== verification/State_Outcome.thy ===== *)
theory State_Outcome
  imports Exceptions
begin

text \<open>
  Actions that change a state and may throw: the state at the time of the exception is kept, so
  that what a failed operation leaves behind can be stated. Used for the code that works on
  operating system handles.
\<close>

type_synonym ('s, 'a) act = "'s \<Rightarrow> 'a outcome \<times> 's"

definition act_return :: "'a \<Rightarrow> ('s, 'a) act" where
  "act_return x s = (Ret x, s)"

definition act_lift :: "'a outcome \<Rightarrow> ('s, 'a) act" where
  "act_lift r s = (r, s)"

definition act_bind :: "('s, 'a) act \<Rightarrow> ('a \<Rightarrow> ('s, 'b) act) \<Rightarrow> ('s, 'b) act" where
  "act_bind m f s = (case m s of
       (Ret x, s') \<Rightarrow> f x s'
     | (Throw e, s') \<Rightarrow> (Throw e, s')
     | (Undef, s') \<Rightarrow> (Undef, s')
     | (Fuel, s') \<Rightarrow> (Fuel, s'))"

definition act_get :: "('s \<Rightarrow> 'a) \<Rightarrow> ('s, 'a) act" where
  "act_get f s = (Ret (f s), s)"

definition act_update :: "('s \<Rightarrow> 's) \<Rightarrow> ('s, unit) act" where
  "act_update f s = (Ret (), f s)"

text \<open>\<^verbatim>\<open>catch (const std::exception &e)\<close> and \<^verbatim>\<open>catch (...)\<close>.\<close>

definition act_catch :: "('s, 'a) act \<Rightarrow> (cxx_exception \<Rightarrow> ('s, 'a) act) \<Rightarrow> ('s, 'a) act" where
  "act_catch m h s = (case m s of
       (Throw e, s') \<Rightarrow> h (Exception2 e) s'
     | r \<Rightarrow> r)"

definition act_catch_all :: "('s, 'a) act \<Rightarrow> ('s, 'a) act \<Rightarrow> ('s, 'a) act" where
  "act_catch_all m h s = (case m s of
       (Throw e, s') \<Rightarrow> h s'
     | r \<Rightarrow> r)"

text \<open>An action that cannot throw, as a function that returns the value and the state.\<close>

definition run_act :: "('s, 'a) act \<Rightarrow> 's \<Rightarrow> ('a \<times> 's) outcome" where
  "run_act m s = (case m s of (r, s') \<Rightarrow> obind r (\<lambda>x. Ret (x, s')))"

lemmas act_defs = act_return_def act_lift_def act_bind_def act_get_def act_update_def act_catch_def
  act_catch_all_def

lemma act_bind_Ret: "m s = (Ret x, s') \<Longrightarrow> act_bind m f s = f x s'"
  by (simp add: act_bind_def)

lemma act_bind_Throw: "m s = (Throw e, s') \<Longrightarrow> act_bind m f s = (Throw e, s')"
  by (simp add: act_bind_def)

lemma act_bind_simps [simp]:
  "act_bind (act_return x) f s = f x s"
  "act_bind (act_get g) f s = f (g s) s"
  "act_bind (act_update u) f' s = f' () (u s)"
  "act_bind (act_lift (Ret x)) f s = f x s"
  "act_bind (act_lift (Throw e)) f s = (Throw e, s)"
  "act_return x s = (Ret x, s)"
  "act_lift r s = (r, s)"
  "act_get g s = (Ret (g s), s)"
  "act_update u s = (Ret (), u s)"
  by (simp_all add: act_defs)

lemma act_catch_simps:
  "m s = (Ret x, s') \<Longrightarrow> act_catch m h s = (Ret x, s')"
  "m s = (Throw e, s') \<Longrightarrow> act_catch m h s = h (Exception2 e) s'"
  "m s = (Ret x, s') \<Longrightarrow> act_catch_all m h' s = (Ret x, s')"
  "m s = (Throw e, s') \<Longrightarrow> act_catch_all m h' s = h' s'"
  by (simp_all add: act_catch_def act_catch_all_def)

text \<open>An action after \<^verbatim>\<open>catch (...)\<close> around it does not throw when the handler does not.\<close>

lemma act_catch_all_no_throw:
  "(\<And>s'. fst (h s') \<noteq> Throw e) \<Longrightarrow> fst (act_catch_all m h s) \<noteq> Throw e"
  by (auto simp: act_catch_all_def split: prod.splits outcome.splits)

end
