(* ===== verification/Unix_File.thy ===== *)
theory Unix_File
  imports State_Outcome Path_Name
begin

text \<open>
  The class \<^verbatim>\<open>File\<close> on Unix (\<^verbatim>\<open>src/unix/file.cc\<close>, and the inline functions of
  \<^verbatim>\<open>include/ckcore/file.hh\<close>). The system calls are a record of functions on the state
  \<open>'w\<close> of the system; what the theorems need of them is stated by named predicates that quote
  their documentation, over a view of what stands behind a descriptor. The result of
  \<^verbatim>\<open>lseek\<close> goes through an \<open>int\<close> in the code, and so does it here.
\<close>

section \<open>The system calls\<close>

datatype open_flags = Rdonly | Creat_Wronly | Wronly | Rdwr

datatype lseek_whence = Seek_Cur | Seek_Set | Seek_End

record stat =
  st_mode :: u32
  st_size :: int
  st_atime :: int
  st_mtime :: int
  st_ctime :: int

record 'w unix_os =
  ux_errno :: "'w \<Rightarrow> int"
  ux_strerror :: "int \<Rightarrow> string"
  ux_open :: "string \<Rightarrow> open_flags \<Rightarrow> 'w \<Rightarrow> int \<times> 'w"
  ux_setlk :: "int \<Rightarrow> bool \<Rightarrow> 'w \<Rightarrow> int \<times> 'w"   \<comment> \<open>\<open>F_SETLK\<close> on the whole file, \<open>True\<close> for writing\<close>
  ux_close :: "int \<Rightarrow> 'w \<Rightarrow> int \<times> 'w"
  ux_lseek :: "int \<Rightarrow> int \<Rightarrow> lseek_whence \<Rightarrow> 'w \<Rightarrow> int \<times> 'w"
  ux_read :: "int \<Rightarrow> int \<Rightarrow> 'w \<Rightarrow> int \<times> byte list \<times> 'w"
  ux_write :: "int \<Rightarrow> byte list \<Rightarrow> 'w \<Rightarrow> int \<times> 'w"
  ux_stat :: "string \<Rightarrow> 'w \<Rightarrow> stat option \<times> 'w"   \<comment> \<open>\<open>None\<close> for a result of -1\<close>
  ux_fstat :: "int \<Rightarrow> 'w \<Rightarrow> stat option \<times> 'w"
  ux_unlink :: "string \<Rightarrow> 'w \<Rightarrow> int \<times> 'w"
  ux_rename :: "string \<Rightarrow> string \<Rightarrow> 'w \<Rightarrow> int \<times> 'w"
  ux_access :: "string \<Rightarrow> bool \<Rightarrow> bool \<Rightarrow> 'w \<Rightarrow> int \<times> 'w"   \<comment> \<open>\<open>R_OK\<close>, \<open>W_OK\<close>\<close>
  ux_localtime :: "int \<Rightarrow> tm option"
  ux_tmpnam :: "'w \<Rightarrow> string option \<times> 'w"
  ux_rand :: "'w \<Rightarrow> u32 \<times> 'w"

definition EACCES :: int where "EACCES = 13"
definition EAGAIN :: int where "EAGAIN = 11"

section \<open>The object\<close>

datatype FileMode = ckOPEN_READ | ckOPEN_WRITE | ckOPEN_READWRITE

datatype FileWhence = ckFILE_CURRENT | ckFILE_BEGIN | ckFILE_END

record 'w unix_file =
  f_handle :: int      \<comment> \<open>-1 when no file is open\<close>
  f_path :: path
  f_world :: 'w

definition File :: "path \<Rightarrow> 'w \<Rightarrow> 'w unix_file" where
  "File file_path w = \<lparr>f_handle = -1, f_path = file_path, f_world = w\<rparr>"

definition file_name :: "'w unix_file \<Rightarrow> string" where
  "file_name f = path_name (f_path f)"

text \<open>A system call on the world of a file.\<close>

definition sys :: "('w \<Rightarrow> 'a \<times> 'w) \<Rightarrow> ('w unix_file, 'a) act" where
  "sys call f = (case call (f_world f) of (x, w') \<Rightarrow> (Ret x, f\<lparr>f_world := w'\<rparr>))"

definition throw_errno :: "'w unix_os \<Rightarrow> string option \<Rightarrow> fmt_arg list \<Rightarrow> ('w unix_file, 'a) act" where
  "throw_errno U pfx args f = (throw_from_errno (ux_strerror U) (ux_errno U (f_world f)) pfx args, f)"

definition file_test :: "'w unix_file \<Rightarrow> bool" where
  "file_test f \<longleftrightarrow> f_handle f \<noteq> -1"

definition check_file_is_open :: "('w unix_file, unit) act" where
  "check_file_is_open f = (if \<not> file_test f then (Throw ''file not yet opened.'', f) else (Ret (), f))"

definition file_close :: "'w unix_os \<Rightarrow> ('w unix_file, bool) act" where
  "file_close U f =
     (if f_handle f = -1 then (Ret False, f)
      else act_bind (sys (ux_close U (f_handle f))) (\<lambda>res.
        if res = 0 then act_bind (act_update (\<lambda>f. f\<lparr>f_handle := -1\<rparr>)) (\<lambda>_. act_return True)
        else act_return False) f)"

text \<open>The destructor closes; the answer is dropped, an error too.\<close>

definition file_destroy :: "'w unix_os \<Rightarrow> ('w unix_file, unit) act" where
  "file_destroy U = act_bind (file_close U) (\<lambda>_. act_return ())"

definition open_flags_of :: "FileMode \<Rightarrow> open_flags" where
  "open_flags_of m = (case m of ckOPEN_READ \<Rightarrow> Rdonly | ckOPEN_WRITE \<Rightarrow> Creat_Wronly | ckOPEN_READWRITE \<Rightarrow> Rdwr)"

text \<open>The steps of \<open>open2\<close>: close what is open, open, lock.\<close>

definition open2_close :: "'w unix_os \<Rightarrow> ('w unix_file, unit) act" where
  "open2_close U f =
     (if f_handle f \<noteq> -1 then act_bind (file_close U) (\<lambda>ok.
        if \<not> ok then act_lift (Throw ''Cannot close previously open file handle.'') else act_return ()) f
      else (Ret (), f))"

definition open2_lock :: "'w unix_os \<Rightarrow> FileMode \<Rightarrow> ('w unix_file, unit) act" where
  "open2_lock U mode f = act_bind (sys (ux_setlk U (f_handle f) (mode \<noteq> ckOPEN_READ))) (\<lambda>res.
     if res = -1 then act_bind (act_get (\<lambda>f. ux_errno U (f_world f))) (\<lambda>saved_errno.
       if saved_errno = EACCES \<or> saved_errno = EAGAIN then
         act_bind (file_close U) (\<lambda>_.
           act_lift (throw_from_errno (ux_strerror U) saved_errno (Some ''Error setting the file lock: '') []))
       else act_return ())
     else act_return ()) f"

definition open2_body :: "'w unix_os \<Rightarrow> FileMode \<Rightarrow> ('w unix_file, unit) act" where
  "open2_body U mode = act_bind (open2_close U) (\<lambda>_.
     act_bind (\<lambda>f. sys (ux_open U (file_name f) (open_flags_of mode)) f) (\<lambda>h.
     act_bind (act_update (\<lambda>f. f\<lparr>f_handle := h\<rparr>)) (\<lambda>_.
       if h = -1 then throw_errno U None [] else open2_lock U mode)))"

definition file_open2 :: "'w unix_os \<Rightarrow> FileMode \<Rightarrow> ('w unix_file, unit) act" where
  "file_open2 U mode = act_catch (open2_body U mode) (\<lambda>e f.
     (rethrow_with_pfx e ''Error opening file \"%s\": '' [AStr (file_name f)], f))"

definition file_open :: "'w unix_os \<Rightarrow> FileMode \<Rightarrow> ('w unix_file, bool) act" where
  "file_open U mode = act_catch_all (act_bind (file_open2 U mode) (\<lambda>_. act_return True)) (act_return False)"

text \<open>\<^verbatim>\<open>int ret = lseek(...)\<close>: the \<open>off_t\<close> is cut to 32 bits.\<close>

definition to_c_int :: "int \<Rightarrow> int" where
  "to_c_int x = sint (of_int x :: u32)"

definition lseek_whence_of :: "FileWhence \<Rightarrow> lseek_whence" where
  "lseek_whence_of wh = (case wh of ckFILE_CURRENT \<Rightarrow> Seek_Cur | ckFILE_BEGIN \<Rightarrow> Seek_Set | ckFILE_END \<Rightarrow> Seek_End)"

definition file_seek2 :: "'w unix_os \<Rightarrow> int \<Rightarrow> FileWhence \<Rightarrow> ('w unix_file, int) act" where
  "file_seek2 U distance whence = act_bind check_file_is_open (\<lambda>_.
     act_bind (\<lambda>f. sys (ux_lseek U (f_handle f) distance (lseek_whence_of whence)) f) (\<lambda>r.
       let ret = to_c_int r
       in if ret = -1 then throw_errno U (Some ''Cannot seek in file: '') [] else act_return ret))"

definition file_seek :: "'w unix_os \<Rightarrow> int \<Rightarrow> FileWhence \<Rightarrow> ('w unix_file, int) act" where
  "file_seek U distance whence = act_catch_all (file_seek2 U distance whence) (act_return (-1))"

text \<open>The test is \<open>ret == 1\<close> in the code.\<close>

definition file_tell2 :: "'w unix_os \<Rightarrow> ('w unix_file, int) act" where
  "file_tell2 U = act_bind check_file_is_open (\<lambda>_.
     act_bind (\<lambda>f. sys (ux_lseek U (f_handle f) 0 Seek_Cur) f) (\<lambda>r.
       let ret = to_c_int r
       in if ret = 1 then throw_errno U (Some ''Cannot get the current file pointer: '') [] else act_return ret))"

definition file_tell :: "'w unix_os \<Rightarrow> ('w unix_file, int) act" where
  "file_tell U = act_catch_all (file_tell2 U) (act_return (-1))"

definition file_read :: "'w unix_os \<Rightarrow> int \<Rightarrow> 'w unix_file \<Rightarrow> int \<times> byte list \<times> 'w unix_file" where
  "file_read U count f =
     (if f_handle f = -1 then (-1, [], f)
      else case ux_read U (f_handle f) count (f_world f) of (res, bs, w') \<Rightarrow> (res, bs, f\<lparr>f_world := w'\<rparr>))"

definition file_write :: "'w unix_os \<Rightarrow> byte list \<Rightarrow> 'w unix_file \<Rightarrow> int \<times> 'w unix_file" where
  "file_write U bs f =
     (if f_handle f = -1 then (-1, f)
      else case ux_write U (f_handle f) bs (f_world f) of (res, w') \<Rightarrow> (res, f\<lparr>f_world := w'\<rparr>))"

section \<open>The static functions\<close>

text \<open>\<^verbatim>\<open>(st_mode & S_IFDIR) == 0\<close>.\<close>

definition no_dir_bit :: "stat \<Rightarrow> bool" where
  "no_dir_bit st \<longleftrightarrow> st_mode st AND 0x4000 = 0"

definition exist_static :: "'w unix_os \<Rightarrow> path \<Rightarrow> 'w \<Rightarrow> bool \<times> 'w" where
  "exist_static U p w = (case ux_stat U (path_name p) w of
       (None, w') \<Rightarrow> (False, w') | (Some st, w') \<Rightarrow> (no_dir_bit st, w'))"

definition remove_static :: "'w unix_os \<Rightarrow> path \<Rightarrow> 'w \<Rightarrow> bool \<times> 'w" where
  "remove_static U p w = (case ux_unlink U (path_name p) w of (r, w') \<Rightarrow> (r = 0, w'))"

definition rename_static :: "'w unix_os \<Rightarrow> path \<Rightarrow> path \<Rightarrow> 'w \<Rightarrow> bool \<times> 'w" where
  "rename_static U old_path new_path w = (case exist_static U new_path w of (ex, w1) \<Rightarrow>
     if ex then (False, w1)
     else case ux_rename U (path_name old_path) (path_name new_path) w1 of (r, w2) \<Rightarrow> (r = 0, w2))"

text \<open>The three times are reference parameters, set one after the other.\<close>

definition times_of :: "'w unix_os \<Rightarrow> stat \<Rightarrow> tm \<times> tm \<times> tm \<Rightarrow> bool \<times> (tm \<times> tm \<times> tm)" where
  "times_of U st ts = (case ts of (a, m, c) \<Rightarrow>
     case ux_localtime U (st_atime st) of None \<Rightarrow> (False, (a, m, c)) | Some a' \<Rightarrow>
     case ux_localtime U (st_mtime st) of None \<Rightarrow> (False, (a', m, c)) | Some m' \<Rightarrow>
     case ux_localtime U (st_ctime st) of None \<Rightarrow> (False, (a', m', c)) | Some c' \<Rightarrow> (True, (a', m', c')))"

definition time_static :: "'w unix_os \<Rightarrow> path \<Rightarrow> tm \<times> tm \<times> tm \<Rightarrow> 'w \<Rightarrow> (bool \<times> (tm \<times> tm \<times> tm)) \<times> 'w" where
  "time_static U p ts w = (case ux_stat U (path_name p) w of
       (None, w') \<Rightarrow> ((False, ts), w') | (Some st, w') \<Rightarrow> (times_of U st ts, w'))"

definition access_static :: "'w unix_os \<Rightarrow> path \<Rightarrow> FileMode \<Rightarrow> 'w \<Rightarrow> bool \<times> 'w" where
  "access_static U p mode w = (case ux_access U (path_name p) (mode \<noteq> ckOPEN_WRITE) (mode \<noteq> ckOPEN_READ) w of
     (r, w') \<Rightarrow> (r = 0, w'))"

definition hidden_static :: "path \<Rightarrow> bool outcome" where
  "hidden_static p = obind (path_base_name False p) (\<lambda>base.
     Ret (if length base < 1 then False else base ! 0 = CHR ''.''))"

definition size2_static :: "'w unix_os \<Rightarrow> path \<Rightarrow> 'w \<Rightarrow> int outcome \<times> 'w" where
  "size2_static U p w = (case ux_stat U (path_name p) w of
       (None, w') \<Rightarrow> (throw_from_errno (ux_strerror U) (ux_errno U w')
           (Some ''Error querying size of file \"%s\": '') [AStr (path_name p)], w')
     | (Some st, w') \<Rightarrow> (Ret (st_size st), w'))"

definition size_static :: "'w unix_os \<Rightarrow> path \<Rightarrow> 'w \<Rightarrow> int outcome \<times> 'w" where
  "size_static U p = act_catch_all (size2_static U p) (act_return (-1))"

section \<open>Operations that use them\<close>

definition file_size2 :: "'w unix_os \<Rightarrow> ('w unix_file, int) act" where
  "file_size2 U f =
     (if \<not> file_test f then (case size2_static U (f_path f) (f_world f) of (r, w') \<Rightarrow> (r, f\<lparr>f_world := w'\<rparr>))
      else act_catch
        (act_bind (file_tell2 U) (\<lambda>cur_pos.
         act_bind (file_seek2 U 0 ckFILE_END) (\<lambda>size.
         act_bind (file_seek2 U cur_pos ckFILE_BEGIN) (\<lambda>_. act_return size))))
        (\<lambda>e f. (rethrow_with_pfx e ''Error querying size of file \"%s\": '' [AStr (file_name f)], f)) f)"

definition file_size :: "'w unix_os \<Rightarrow> ('w unix_file, int) act" where
  "file_size U = act_catch_all (file_size2 U) (act_return (-1))"

definition file_exist :: "'w unix_os \<Rightarrow> ('w unix_file, bool) act" where
  "file_exist U f =
     (if f_handle f \<noteq> -1 then act_bind (sys (ux_fstat U (f_handle f))) (\<lambda>r. act_return (case r of
         None \<Rightarrow> False | Some st \<Rightarrow> no_dir_bit st)) f
      else sys (exist_static U (f_path f)) f)"

definition file_remove :: "'w unix_os \<Rightarrow> ('w unix_file, bool) act" where
  "file_remove U = act_bind (file_close U) (\<lambda>_.
     act_bind (\<lambda>f. sys (ux_open U (file_name f) Wronly) f) (\<lambda>h.
     act_bind (if h \<noteq> -1 then
         act_bind (sys (ux_setlk U h True)) (\<lambda>res.
         act_bind (act_get (\<lambda>f. ux_errno U (f_world f))) (\<lambda>err.
         act_bind (sys (ux_close U h)) (\<lambda>_. act_return (res = -1 \<and> (err = EACCES \<or> err = EAGAIN)))))
       else act_return False) (\<lambda>locked.
       if locked then act_return False
       else act_bind (\<lambda>f. sys (ux_unlink U (file_name f)) f) (\<lambda>r. act_return (r = 0)))))"

definition file_rename :: "'w unix_os \<Rightarrow> path \<Rightarrow> ('w unix_file, bool) act" where
  "file_rename U new_path = act_bind (sys (exist_static U new_path)) (\<lambda>ex.
     if ex then act_return False
     else act_bind (file_close U) (\<lambda>_.
       act_bind (\<lambda>f. sys (ux_rename U (file_name f) (path_name new_path)) f) (\<lambda>r.
         if r = 0 then act_bind (act_update (\<lambda>f. f\<lparr>f_path := new_path\<rparr>)) (\<lambda>_. act_return True)
         else act_return False)))"

definition file_time :: "'w unix_os \<Rightarrow> tm \<times> tm \<times> tm \<Rightarrow> ('w unix_file, bool \<times> (tm \<times> tm \<times> tm)) act" where
  "file_time U ts f =
     (if f_handle f \<noteq> -1 then act_bind (sys (ux_fstat U (f_handle f))) (\<lambda>r. act_return (case r of
         None \<Rightarrow> (False, ts) | Some st \<Rightarrow> times_of U st ts)) f
      else sys (time_static U (f_path f) ts) f)"

definition file_access :: "'w unix_os \<Rightarrow> FileMode \<Rightarrow> ('w unix_file, bool) act" where
  "file_access U mode f = sys (access_static U (f_path f) mode) f"

definition file_hidden :: "'w unix_file \<Rightarrow> bool outcome" where
  "file_hidden f = hidden_static (f_path f)"

text \<open>Temporary names; \<open>prefix\<close> is \<open>None\<close> for the null pointer. The buffer has \<open>PATH_MAX + 1\<close> characters.\<close>

definition PATH_MAX :: nat where "PATH_MAX = 4096"

definition temp_buffer_name :: "string \<Rightarrow> string \<Rightarrow> u32 \<Rightarrow> string outcome" where
  "temp_buffer_name dir prefix r = obind (ui32_to_str2 r (replicate INT_TO_STR_BUFLEN NUL)) (\<lambda>conv.
     let name = dir @ prefix @ cstr conv @ ''.tmp''
     in if length name \<le> PATH_MAX then Ret name else Undef)"

definition file_temp :: "'w unix_os \<Rightarrow> string option \<Rightarrow> 'w \<Rightarrow> path outcome \<times> 'w" where
  "file_temp U prefix w = (let pfx = (case prefix of None \<Rightarrow> ''file'' | Some p \<Rightarrow> p) in
     case ux_tmpnam U w of
       (Some tmp_name, w') \<Rightarrow>
         (obind (path_base_name False tmp_name) (\<lambda>base.
          obind (path_dir_name False tmp_name) (\<lambda>dir. path_append False dir (pfx @ base))), w')
     | (None, w') \<Rightarrow> (case ux_rand U w' of (r, w'') \<Rightarrow> (temp_buffer_name ''/tmp/'' pfx r, w'')))"

definition file_temp_in :: "'w unix_os \<Rightarrow> path \<Rightarrow> string option \<Rightarrow> 'w \<Rightarrow> path outcome \<times> 'w" where
  "file_temp_in U dir prefix w = (let pfx = (case prefix of None \<Rightarrow> ''file'' | Some p \<Rightarrow> p) in
     case ux_tmpnam U w of
       (Some tmp_name, w') \<Rightarrow>
         (obind (path_base_name False tmp_name) (\<lambda>base. path_append False dir (pfx @ base)), w')
     | (None, w') \<Rightarrow> (case ux_rand U w' of (r, w'') \<Rightarrow>
         (obind (temp_buffer_name [] pfx r) (\<lambda>name. path_append False dir name), w'')))"

section \<open>What the system calls are documented to do\<close>

text \<open>
  A view says which contents and which offset a descriptor of an open regular file has.
\<close>

type_synonym 'w fd_view = "'w \<Rightarrow> int \<Rightarrow> (byte list \<times> nat) option"

definition seek_target :: "byte list \<Rightarrow> nat \<Rightarrow> int \<Rightarrow> lseek_whence \<Rightarrow> int" where
  "seek_target c p d wh = (case wh of Seek_Cur \<Rightarrow> int p | Seek_Set \<Rightarrow> 0 | Seek_End \<Rightarrow> int (length c)) + d"

text \<open>\<^verbatim>\<open>lseek\<close> answers the resulting offset, or -1 for a negative one, and then changes nothing.\<close>

definition posix_lseek :: "'w unix_os \<Rightarrow> 'w fd_view \<Rightarrow> bool" where
  "posix_lseek U V \<longleftrightarrow> (\<forall>w fd c p d wh. V w fd = Some (c, p) \<longrightarrow>
     (let t = seek_target c p d wh in
      \<exists>w'. ux_lseek U fd d wh w = (if 0 \<le> t then t else -1, w') \<and>
        V w' = (if 0 \<le> t then (V w)(fd := Some (c, nat t)) else V w)))"

text \<open>\<^verbatim>\<open>write\<close> replaces the bytes at the offset, extends the file where it ends, and moves the offset.\<close>

definition overwrite :: "byte list \<times> nat \<Rightarrow> byte list \<Rightarrow> byte list \<times> nat" where
  "overwrite cp bs = (case cp of (c, p) \<Rightarrow>
     if bs = [] then (c, p)
     else (take p c @ replicate (p - length c) 0 @ bs @ drop (p + length bs) c, p + length bs))"

text \<open>\<^verbatim>\<open>close\<close> succeeds.\<close>

definition posix_close :: "'w unix_os \<Rightarrow> bool" where
  "posix_close U \<longleftrightarrow> (\<forall>fd w. fst (ux_close U fd w) = 0)"

section \<open>A system of one file, for the examples\<close>

text \<open>Descriptor 3 is the file; the state is its contents and the offset.\<close>

type_synonym one_file = "byte list \<times> nat"

definition one_file_view :: "one_file fd_view" where
  "one_file_view w fd = (if fd = 3 then Some w else None)"

definition one_file_lseek :: "int \<Rightarrow> int \<Rightarrow> lseek_whence \<Rightarrow> one_file \<Rightarrow> int \<times> one_file" where
  "one_file_lseek fd d wh w = (case w of (c, p) \<Rightarrow>
     let t = seek_target c p d wh in if fd = 3 \<and> 0 \<le> t then (t, (c, nat t)) else (-1, w))"

definition one_file_os :: "one_file unix_os" where
  "one_file_os = \<lparr>ux_errno = (\<lambda>w. 9), ux_strerror = (\<lambda>e. ''error''), ux_open = (\<lambda>n fl w. (3, (fst w, 0))),
     ux_setlk = (\<lambda>fd wr w. (0, w)), ux_close = (\<lambda>fd w. (0, w)), ux_lseek = one_file_lseek,
     ux_read = (\<lambda>fd n w. let bs = take (nat n) (drop (snd w) (fst w)) in
        (int (length bs), bs, (fst w, snd w + length bs))),
     ux_write = (\<lambda>fd bs w. (int (length bs), overwrite w bs)),
     ux_stat = (\<lambda>n w. (Some \<lparr>st_mode = 0x8000, st_size = int (length (fst w)), st_atime = 0, st_mtime = 0, st_ctime = 0\<rparr>, w)),
     ux_fstat = (\<lambda>fd w. (None, w)), ux_unlink = (\<lambda>n w. (0, w)), ux_rename = (\<lambda>n m w. (0, w)),
     ux_access = (\<lambda>n r wr w. (0, w)), ux_localtime = (\<lambda>t. None), ux_tmpnam = (\<lambda>w. (None, w)),
     ux_rand = (\<lambda>w. (7, w))\<rparr>"

lemma one_file_posix_lseek: "posix_lseek one_file_os one_file_view"
  unfolding posix_lseek_def Let_def
  by (auto simp: one_file_os_def one_file_view_def one_file_lseek_def fun_eq_iff Let_def split: if_splits)

lemma one_file_posix_close: "posix_close one_file_os"
  by (simp add: posix_close_def one_file_os_def)

section \<open>Lemmas\<close>

lemma sys_eq: "call (f_world f) = (x, w') \<Longrightarrow> sys call f = (Ret x, f\<lparr>f_world := w'\<rparr>)"
  by (simp add: sys_def)

lemma to_c_int_small: "- (2 ^ 31) \<le> x \<Longrightarrow> x < 2 ^ 31 \<Longrightarrow> to_c_int x = x"
  by (simp add: to_c_int_def signed_of_int signed_take_bit_int_eq_self)

lemma to_c_int_wrap: "2 ^ 31 \<le> x \<Longrightarrow> x < 2 ^ 32 \<Longrightarrow> to_c_int x = x - 2 ^ 32"
proof -
  assume x: "2 ^ 31 \<le> x" "x < 2 ^ 32"
  have "(of_int x :: u32) = of_int (x - 2 ^ 32)" by simp
  then have "to_c_int x = to_c_int (x - 2 ^ 32)" unfolding to_c_int_def by (rule arg_cong)
  also have "\<dots> = x - 2 ^ 32" using x by (intro to_c_int_small) auto
  finally show ?thesis .
qed

lemma throw_from_errno_Throw:
  "pfx = None \<or> (\<exists>s. pfx = Some s \<and> fits_format (s, args)) \<Longrightarrow>
   \<exists>m. throw_from_errno g e pfx args = (Throw m :: 'a outcome)"
  by (auto simp: throw_from_errno_def prefix_msg_def fits_format_def vformatstr_expand split: option.splits)

lemma rethrow_name:
  "length name < 2 ^ 32 \<Longrightarrow> rethrow_with_pfx (Exception2 m) ''Error opening file \"%s\": '' [AStr name] =
     Throw (''Error opening file \"'' @ name @ ''\": '' @ m)"
  "length name < 2 ^ 32 \<Longrightarrow> rethrow_with_pfx (Exception2 m) ''Error querying size of file \"%s\": '' [AStr name] =
     Throw (''Error querying size of file \"'' @ name @ ''\": '' @ m)"
  by (subst rethrow_msg; simp add: fits_format_def)+

text \<open>Moving the offset of an open file; the result is cut to an \<open>int\<close>.\<close>

lemma lseek_step:
  assumes "posix_lseek U V" "V (f_world f) (f_handle f) = Some (c, p)" "0 \<le> seek_target c p d wh"
  obtains w' where "sys (ux_lseek U (f_handle f) d wh) f = (Ret (seek_target c p d wh), f\<lparr>f_world := w'\<rparr>)"
    "V w' = (V (f_world f))(f_handle f := Some (c, nat (seek_target c p d wh)))"
proof -
  from assms(1,2) have "let t = seek_target c p d wh in
      \<exists>w'. ux_lseek U (f_handle f) d wh (f_world f) = (if 0 \<le> t then t else -1, w') \<and>
        V w' = (if 0 \<le> t then (V (f_world f))(f_handle f := Some (c, nat t)) else V (f_world f))"
    unfolding posix_lseek_def by blast
  then obtain w' where "ux_lseek U (f_handle f) d wh (f_world f) = (seek_target c p d wh, w')"
    "V w' = (V (f_world f))(f_handle f := Some (c, nat (seek_target c p d wh)))"
    using assms(3) by (auto simp: Let_def)
  then show thesis by (intro that [of w'] sys_eq)
qed

lemma seek2_ok:
  assumes "posix_lseek U V" "file_test f" "V (f_world f) (f_handle f) = Some (c, p)"
    and "0 \<le> seek_target c p d (lseek_whence_of wh)" "to_c_int (seek_target c p d (lseek_whence_of wh)) \<noteq> -1"
  obtains w' where "file_seek2 U d wh f = (Ret (to_c_int (seek_target c p d (lseek_whence_of wh))), f\<lparr>f_world := w'\<rparr>)"
    "V w' = (V (f_world f))(f_handle f := Some (c, nat (seek_target c p d (lseek_whence_of wh))))"
proof -
  obtain w' where w': "sys (ux_lseek U (f_handle f) d (lseek_whence_of wh)) f =
      (Ret (seek_target c p d (lseek_whence_of wh)), f\<lparr>f_world := w'\<rparr>)"
    "V w' = (V (f_world f))(f_handle f := Some (c, nat (seek_target c p d (lseek_whence_of wh))))"
    by (rule lseek_step [OF assms(1,3,4)])
  with assms(2,5) show thesis
    by (intro that [of w']) (simp_all add: file_seek2_def check_file_is_open_def act_bind_def Let_def act_return_def)
qed

lemma tell2_ok:
  assumes "posix_lseek U V" "file_test f" "V (f_world f) (f_handle f) = Some (c, p)"
  obtains w' where "V w' = V (f_world f)"
    "file_tell2 U f = (if to_c_int (int p) = 1 then throw_errno U (Some ''Cannot get the current file pointer: '') [] (f\<lparr>f_world := w'\<rparr>)
      else (Ret (to_c_int (int p)), f\<lparr>f_world := w'\<rparr>))"
proof -
  have t: "seek_target c p 0 Seek_Cur = int p" by (simp add: seek_target_def)
  obtain w' where w': "sys (ux_lseek U (f_handle f) 0 Seek_Cur) f = (Ret (int p), f\<lparr>f_world := w'\<rparr>)"
    "V w' = (V (f_world f))(f_handle f := Some (c, nat (int p)))"
    by (rule lseek_step [OF assms(1,3), of 0 Seek_Cur, unfolded t]) simp_all
  moreover have "(V (f_world f))(f_handle f := Some (c, nat (int p))) = V (f_world f)" using assms(3) by auto
  ultimately show thesis using assms(2)
    by (intro that [of w']) (simp_all add: file_tell2_def check_file_is_open_def act_bind_def Let_def act_return_def)
qed

section \<open>Theorems\<close>

text \<open>On a system whose \<^verbatim>\<open>lseek\<close> does what it is documented to do, \<open>size2\<close> of an open file
  keeps the file position and answers the size when that is below 2 GiB; between 2 and 4 GiB the
  answer is the negative number \<open>size - 2 ^ 32\<close>; and at file position 1 it always throws, because
  \<open>tell2\<close> compares with 1 instead of -1.\<close>

theorem file_size_open:
  assumes "posix_lseek U V" "f_handle f \<noteq> -1" "V (f_world f) (f_handle f) = Some (c, p)"
    and "p < 2 ^ 31" "length c < 2 ^ 32 - 1" "length (f_path f) < 2 ^ 32"
  shows "\<exists>w'. V w' = V (f_world f) \<and>
    (if p = 1 then \<exists>m. file_size2 U f = (Throw m, f\<lparr>f_world := w'\<rparr>)
     else file_size2 U f = (Ret (if length c < 2 ^ 31 then int (length c) else int (length c) - 2 ^ 32), f\<lparr>f_world := w'\<rparr>))"
proof -
  have test: "file_test f" using assms(2) by (simp add: file_test_def)
  have p: "to_c_int (int p) = int p" using assms(4) by (intro to_c_int_small) auto
  obtain w1 where w1: "V w1 = V (f_world f)"
    "file_tell2 U f = (if to_c_int (int p) = 1 then throw_errno U (Some ''Cannot get the current file pointer: '') [] (f\<lparr>f_world := w1\<rparr>)
      else (Ret (to_c_int (int p)), f\<lparr>f_world := w1\<rparr>))"
    by (rule tell2_ok [OF assms(1) test assms(3)])
  show ?thesis
  proof (cases "p = 1")
    case True
    have "fits_format (''Cannot get the current file pointer: '', [])" by (simp add: fits_format_def)
    then obtain m where m: "throw_from_errno (ux_strerror U) (ux_errno U w1) (Some ''Cannot get the current file pointer: '') [] =
        (Throw m :: int outcome)" using throw_from_errno_Throw by blast
    have "file_tell2 U f = (Throw m, f\<lparr>f_world := w1\<rparr>)" using w1(2) p True m by (simp add: throw_errno_def)
    then have "file_size2 U f = (Throw (''Error querying size of file \"'' @ file_name f @ ''\": '' @ m), f\<lparr>f_world := w1\<rparr>)"
      using test assms(6) rethrow_name(2) [of "file_name f" m]
      by (simp add: file_size2_def act_catch_def act_bind_def file_name_def path_name_def)
    with True w1(1) show ?thesis by auto
  next
    case False
    let ?f1 = "f\<lparr>f_world := w1\<rparr>"
    have tell: "file_tell2 U f = (Ret (int p), ?f1)" using w1(2) p False by simp
    have v1: "V (f_world ?f1) (f_handle ?f1) = Some (c, p)" "file_test ?f1"
      using w1(1) assms(3) test by (simp_all add: file_test_def)
    have e: "seek_target c p 0 (lseek_whence_of ckFILE_END) = int (length c)"
      by (simp add: seek_target_def lseek_whence_of_def)
    have sz: "to_c_int (int (length c)) = (if length c < 2 ^ 31 then int (length c) else int (length c) - 2 ^ 32)"
      using to_c_int_small [of "int (length c)"] to_c_int_wrap [of "int (length c)"] assms(5) by auto
    then have ne: "to_c_int (int (length c)) \<noteq> -1" using assms(5) by auto
    obtain w2 where w2: "file_seek2 U 0 ckFILE_END ?f1 = (Ret (to_c_int (int (length c))), ?f1\<lparr>f_world := w2\<rparr>)"
      "V w2 = (V w1)(f_handle f := Some (c, length c))"
      using seek2_ok [OF assms(1) v1(2,1), of 0 ckFILE_END] ne unfolding e by auto
    let ?f2 = "f\<lparr>f_world := w2\<rparr>"
    have v2: "V (f_world ?f2) (f_handle ?f2) = Some (c, length c)" "file_test ?f2"
      using w2(2) test by (simp_all add: file_test_def)
    have b: "seek_target c (length c) (int p) (lseek_whence_of ckFILE_BEGIN) = int p"
      by (simp add: seek_target_def lseek_whence_of_def)
    obtain w3 where w3: "file_seek2 U (int p) ckFILE_BEGIN ?f2 = (Ret (int p), ?f2\<lparr>f_world := w3\<rparr>)"
      "V w3 = (V w2)(f_handle f := Some (c, p))"
      using seek2_ok [OF assms(1) v2(2,1), of "int p" ckFILE_BEGIN] p unfolding b by auto
    have "V w3 = V (f_world f)" using w3(2) w2(2) w1(1) assms(3) by auto
    moreover have "file_size2 U f = (Ret (to_c_int (int (length c))), f\<lparr>f_world := w3\<rparr>)"
      using test tell w2(1) w3(1)
      by (simp add: file_size2_def act_catch_def act_bind_def act_return_def)
    ultimately show ?thesis using False sz by auto
  qed
qed

theorem file_size_open_witness:
  "\<exists>w'. one_file_view w' = one_file_view (f_world (File ''/a'' ([7, 8, 9], 2)\<lparr>f_handle := 3\<rparr>)) \<and>
    (if (2::nat) = 1 then \<exists>m. file_size2 one_file_os (File ''/a'' ([7, 8, 9], 2)\<lparr>f_handle := 3\<rparr>) =
        (Throw m, File ''/a'' ([7, 8, 9], 2)\<lparr>f_handle := 3, f_world := w'\<rparr>)
     else file_size2 one_file_os (File ''/a'' ([7, 8, 9], 2)\<lparr>f_handle := 3\<rparr>) =
       (Ret (if length [7, 8, 9 :: byte] < 2 ^ 31 then int (length [7, 8, 9 :: byte])
             else int (length [7, 8, 9 :: byte]) - 2 ^ 32),
        File ''/a'' ([7, 8, 9], 2)\<lparr>f_handle := 3, f_world := w'\<rparr>))"
  by (rule file_size_open [OF one_file_posix_lseek]) (simp_all add: File_def one_file_view_def)

text \<open>The file name and the path of a file object survive every system call.\<close>

lemma sys_keeps: "sys call f = (r, f') \<Longrightarrow> f_path f' = f_path f \<and> f_handle f' = f_handle f \<and> (\<exists>x. r = Ret x)"
  by (auto simp: sys_def split: prod.splits)

lemma close_ok:
  assumes "posix_close U"
  obtains w' where "file_close U f = (Ret (f_handle f \<noteq> -1), f\<lparr>f_handle := -1, f_world := w'\<rparr>)"
proof (cases "f_handle f = -1")
  case True
  then have "f = f\<lparr>f_handle := -1, f_world := f_world f\<rparr>" by (cases f) simp
  with True show thesis by (intro that [of "f_world f"]) (simp add: file_close_def)
next
  case False
  obtain w' where "ux_close U (f_handle f) (f_world f) = (0, w')"
    using assms unfolding posix_close_def by (metis prod.collapse)
  then have "sys (ux_close U (f_handle f)) f = (Ret 0, f\<lparr>f_world := w'\<rparr>)" by (rule sys_eq)
  with False show thesis by (intro that [of w']) (simp add: file_close_def act_bind_def act_update_def act_return_def)
qed

text \<open>No destroyed file object leaves its descriptor open, also after a failed operation.\<close>

lemma file_destroy_closes:
  assumes "posix_close U"
  obtains w' where "file_destroy U f = (Ret (), f\<lparr>f_handle := -1, f_world := w'\<rparr>)"
    "\<not> file_test (f\<lparr>f_handle := -1, f_world := w'\<rparr>)"
proof -
  obtain w' where "file_close U f = (Ret (f_handle f \<noteq> -1), f\<lparr>f_handle := -1, f_world := w'\<rparr>)"
    by (rule close_ok [OF assms])
  then show thesis by (intro that [of w']) (simp_all add: file_destroy_def file_test_def act_bind_def act_return_def)
qed

lemma throw_from_errno_plain:
  "\<exists>m. throw_from_errno g e None [] = (Throw m :: 'a outcome)"
  "\<exists>m. throw_from_errno g e (Some ''Error setting the file lock: '') [] = (Throw m :: 'a outcome)"
  by (rule throw_from_errno_Throw; simp add: fits_format_def)+

lemma lock_cases:
  assumes "posix_close U" "f_handle f \<noteq> -1"
  shows "(\<exists>f'. open2_lock U mode f = (Ret (), f') \<and> f_handle f' = f_handle f \<and> f_path f' = f_path f) \<or>
    (\<exists>m f'. open2_lock U mode f = (Throw m, f') \<and> f_handle f' = -1 \<and> f_path f' = f_path f)"
proof -
  obtain res w1 where l: "ux_setlk U (f_handle f) (mode \<noteq> ckOPEN_READ) (f_world f) = (res, w1)" by fastforce
  let ?f1 = "f\<lparr>f_world := w1\<rparr>" and ?e = "ux_errno U w1"
  have s: "sys (ux_setlk U (f_handle f) (mode \<noteq> ckOPEN_READ)) f = (Ret res, ?f1)" using l by (rule sys_eq)
  show ?thesis
  proof (cases "res = -1 \<and> (?e = EACCES \<or> ?e = EAGAIN)")
    case True
    obtain w2 where c: "file_close U ?f1 = (Ret (f_handle ?f1 \<noteq> -1), ?f1\<lparr>f_handle := -1, f_world := w2\<rparr>)"
      by (rule close_ok [OF assms(1)])
    obtain m where m: "throw_from_errno (ux_strerror U) ?e (Some ''Error setting the file lock: '') [] = (Throw m :: unit outcome)"
      using throw_from_errno_plain(2) by blast
    have "open2_lock U mode f = (Throw m, ?f1\<lparr>f_handle := -1, f_world := w2\<rparr>)"
      using True s c m by (simp add: open2_lock_def act_bind_def act_get_def act_lift_def)
    then show ?thesis by auto
  next
    case False
    then have "open2_lock U mode f = (Ret (), ?f1)"
      using s by (auto simp: open2_lock_def act_bind_def act_get_def act_return_def)
    then show ?thesis by auto
  qed
qed

lemma file_open2_cases:
  assumes "posix_close U" "length (f_path f) < 2 ^ 32"
  shows "(\<exists>f'. file_open2 U mode f = (Ret (), f') \<and> file_test f' \<and> f_path f' = f_path f) \<or>
    (\<exists>m f'. file_open2 U mode f = (Throw (''Error opening file \"'' @ file_name f @ ''\": '' @ m), f') \<and>
      \<not> file_test f' \<and> f_path f' = f_path f)"
proof -
  obtain w1 where "file_close U f = (Ret (f_handle f \<noteq> -1), f\<lparr>f_handle := -1, f_world := w1\<rparr>)"
    by (rule close_ok [OF assms(1)])
  then have "open2_close U f = (Ret (), if f_handle f \<noteq> -1 then f\<lparr>f_handle := -1, f_world := w1\<rparr> else f)"
    by (simp add: open2_close_def act_bind_def act_return_def)
  then obtain f1 where c: "open2_close U f = (Ret (), f1)" "f_handle f1 = -1" "f_path f1 = f_path f"
    by (cases "f_handle f = -1") auto
  obtain h w2 where o: "ux_open U (file_name f1) (open_flags_of mode) (f_world f1) = (h, w2)" by fastforce
  have s: "sys (ux_open U (file_name f1) (open_flags_of mode)) f1 = (Ret h, f1\<lparr>f_world := w2\<rparr>)"
    using o by (rule sys_eq)
  define f3 where "f3 = f1\<lparr>f_world := w2\<rparr>\<lparr>f_handle := h\<rparr>"
  have f3: "f_path f3 = f_path f" "f_handle f3 = h" using c(3) by (simp_all add: f3_def)
  have body: "open2_body U mode f = (if h = -1 then throw_errno U None [] else open2_lock U mode) f3"
    using c(1) s by (simp add: open2_body_def act_bind_def act_update_def f3_def)
  have body_cases: "(\<exists>f'. open2_body U mode f = (Ret (), f') \<and> file_test f' \<and> f_path f' = f_path f) \<or>
    (\<exists>m f'. open2_body U mode f = (Throw m, f') \<and> \<not> file_test f' \<and> f_path f' = f_path f)"
  proof (cases "h = -1")
    case True
    obtain m where "throw_from_errno (ux_strerror U) (ux_errno U (f_world f3)) None [] = (Throw m :: unit outcome)"
      using throw_from_errno_plain(1) by blast
    with True f3 body show ?thesis by (simp add: throw_errno_def file_test_def)
  next
    case False
    with lock_cases [OF assms(1), of f3 mode] f3 body show ?thesis by (auto simp: file_test_def)
  qed
  have n: "length (file_name f) < 2 ^ 32" using assms(2) by (simp add: file_name_def path_name_def)
  have nm: "f_path f' = f_path f \<Longrightarrow> file_name f' = file_name f" for f' :: "'a unix_file"
    by (simp add: file_name_def)
  from body_cases show ?thesis
  proof
    assume "\<exists>f'. open2_body U mode f = (Ret (), f') \<and> file_test f' \<and> f_path f' = f_path f"
    then show ?thesis by (auto simp: file_open2_def act_catch_def)
  next
    assume "\<exists>m f'. open2_body U mode f = (Throw m, f') \<and> \<not> file_test f' \<and> f_path f' = f_path f"
    then obtain m f' where m: "open2_body U mode f = (Throw m, f')" "\<not> file_test f'" "f_path f' = f_path f" by blast
    then have "file_open2 U mode f = (Throw (''Error opening file \"'' @ file_name f @ ''\": '' @ m), f')"
      using rethrow_name(1) [OF n, of m] nm [of f'] by (simp add: file_open2_def act_catch_def)
    with m show ?thesis by blast
  qed
qed



end
