(* ===== verification/File_Api.thy ===== *)
theory File_Api
  imports Unix_File
begin

text \<open>
  What the platforms promise of \<open>open2\<close>, and what the inline \<open>open\<close> of \<^verbatim>\<open>include/ckcore/file.hh\<close> makes
  of it: the contract is the locale \<open>file_opening\<close>, which \<open>Unix_File\<close> and \<open>Windows_File\<close> fulfil.
\<close>

text \<open>\<open>ready\<close> says what the state must satisfy for the system to keep its own promises.\<close>

locale file_opening =
  fixes open2 :: "('f, unit) act" and is_open :: "'f \<Rightarrow> bool" and ready :: "'f \<Rightarrow> bool"
  assumes open2_opens: "ready f \<Longrightarrow> open2 f = (Ret (), f') \<Longrightarrow> is_open f'"
    and open2_throws: "ready f \<Longrightarrow> open2 f = (Throw m, f') \<Longrightarrow> \<not> is_open f'"
    and open2_ends: "ready f \<Longrightarrow> (\<exists>f'. open2 f = (Ret (), f')) \<or> (\<exists>m f'. open2 f = (Throw m, f'))"
begin

lemma open_answers:
  "ready f \<Longrightarrow> \<exists>f'. act_catch_all (act_bind open2 (\<lambda>_. act_return True)) (act_return False) f = (Ret (is_open f'), f')"
  using open2_ends [of f] open2_opens [of f] open2_throws [of f] by (auto simp: act_catch_all_def act_bind_def)

end

interpretation unix_open: file_opening "file_open2 U mode" file_test
    "\<lambda>f. posix_close U \<and> length (f_path f) < 2 ^ 32" for U mode
proof
  fix f f' :: "'a unix_file" and m
  assume r: "posix_close U \<and> length (f_path f) < 2 ^ 32"
  show "(\<exists>f'. file_open2 U mode f = (Ret (), f')) \<or> (\<exists>m f'. file_open2 U mode f = (Throw m, f'))"
    using file_open2_cases [of U f mode] r by blast
  show "file_open2 U mode f = (Ret (), f') \<Longrightarrow> file_test f'"
    "file_open2 U mode f = (Throw m, f') \<Longrightarrow> \<not> file_test f'"
    using file_open2_cases [of U f mode] r by auto
qed

text \<open>\<open>open\<close> on Unix answers whether the file is open afterwards.\<close>

lemma unix_open_answers:
  "posix_close U \<Longrightarrow> length (f_path f) < 2 ^ 32 \<Longrightarrow> \<exists>f'. file_open U mode f = (Ret (file_test f'), f')"
  using unix_open.open_answers [of U f mode] by (simp add: file_open_def)

end
