(* ===== verification/File_Stream.thy ===== *)
theory File_Stream
  imports File_Api Stream_Clients
begin

text \<open>
  The file streams of \<^verbatim>\<open>src/filestream.cc\<close>. They are written against the class \<open>File\<close>, of which each platform has its own:
  \<open>file_class\<close> has the operations they use, the locales \<open>file_reading\<close>, \<open>file_seeking\<close>, \<open>file_opening_read\<close> and \<open>file_writing\<close>
  what they rely on. The streams are proved correct in the locales, and \<open>File_Systems\<close> shows that the classes of both
  platforms fulfil them.
\<close>

section \<open>The class \<open>File\<close>, as the streams use it\<close>

record 'f file_class =
  fc_open2 :: "FileMode \<Rightarrow> ('f, unit) act"
  fc_close :: "('f, bool) act"
  fc_test :: "'f \<Rightarrow> bool"
  fc_seek2 :: "int \<Rightarrow> FileWhence \<Rightarrow> ('f, int) act"
  fc_read :: "int \<Rightarrow> 'f \<Rightarrow> int \<times> byte list \<times> 'f"
  fc_write :: "byte list \<Rightarrow> 'f \<Rightarrow> int \<times> 'f"
  fc_size2 :: "('f, int) act"

section \<open>FileInStream\<close>

record 'f file_in =
  fi_file :: 'f
  fi_size :: int
  fi_read :: int

text \<open>An action on the file of a stream that answers a value or throws; \<open>catch (...)\<close> takes the default.\<close>

definition on_in_file :: "('f, 'a) act \<Rightarrow> ('f file_in, 'a) act" where
  "on_in_file m s = (case m (fi_file s) of (r, f') \<Rightarrow> (r, s\<lparr>fi_file := f'\<rparr>))"

definition query_size :: "'f file_class \<Rightarrow> ('f file_in, unit) act" where
  "query_size C = act_bind (act_catch_all (on_in_file (fc_size2 C)) (act_return (-1)))
     (\<lambda>n. act_update (\<lambda>s. s\<lparr>fi_size := n\<rparr>))"

text \<open>The constructors are given the object that \<open>file_\<close> becomes, made from the path by the constructor of its class.\<close>

definition FileInStream :: "'f file_class \<Rightarrow> 'f \<Rightarrow> unit outcome \<times> 'f file_in" where
  "FileInStream C new_file = query_size C \<lparr>fi_file = new_file, fi_size = 0, fi_read = 0\<rparr>"

definition file_in_open :: "'f file_class \<Rightarrow> ('f file_in, bool) act" where
  "file_in_open C = act_bind (query_size C) (\<lambda>_.
     act_catch_all (act_bind (on_in_file (fc_open2 C ckOPEN_READ)) (\<lambda>_. act_return True)) (act_return False))"

definition file_in_close :: "'f file_class \<Rightarrow> ('f file_in, bool) act" where
  "file_in_close C = act_bind (on_in_file (fc_close C)) (\<lambda>ok.
     if ok then act_bind (act_update (\<lambda>s. s\<lparr>fi_read := 0\<rparr>)) (\<lambda>_. act_return True) else act_return False)"

definition file_in_destroy :: "'f file_class \<Rightarrow> ('f file_in, unit) act" where
  "file_in_destroy C = act_bind (file_in_close C) (\<lambda>_. act_return ())"

definition file_in_end :: "'f file_in \<Rightarrow> bool" where
  "file_in_end s \<longleftrightarrow> fi_size s \<le> fi_read s"

definition file_whence_of :: "StreamWhence \<Rightarrow> FileWhence" where
  "file_whence_of wh = (case wh of ckSTREAM_CURRENT \<Rightarrow> ckFILE_CURRENT | _ \<Rightarrow> ckFILE_BEGIN)"

definition file_in_seek :: "'f file_class \<Rightarrow> u32 \<Rightarrow> StreamWhence \<Rightarrow> ('f file_in, bool) act" where
  "file_in_seek C distance whence = act_catch_all
     (act_bind (on_in_file (fc_seek2 C (int (unat distance)) (file_whence_of whence))) (\<lambda>result.
        act_bind (act_update (\<lambda>s. s\<lparr>fi_read := result\<rparr>)) (\<lambda>_. act_return True)))
     (act_return False)"

definition file_in_test :: "'f file_class \<Rightarrow> 'f file_in \<Rightarrow> bool" where
  "file_in_test C s = fc_test C (fi_file s)"

text \<open>\<open>read_ += result\<close> is computed in \<open>tint64\<close>.\<close>

definition file_in_read :: "'f file_class \<Rightarrow> u32 \<Rightarrow> 'f file_in \<Rightarrow> (int \<times> byte list \<times> 'f file_in) outcome" where
  "file_in_read C count s = (case fc_read C (int (unat count)) (fi_file s) of (result, bs, f') \<Rightarrow>
     let s' = s\<lparr>fi_file := f'\<rparr> in
     if result \<noteq> -1 then
       if fi_read s + result < 2 ^ 63 then Ret (result, bs, s'\<lparr>fi_read := fi_read s + result\<rparr>) else Undef
     else Ret (result, bs, s'))"

definition file_in_stream_size :: "'f file_in \<Rightarrow> int" where
  "file_in_stream_size s = fi_size s"

definition file_in_stream :: "'f file_class \<Rightarrow> 'f file_in in_stream" where
  "file_in_stream C = \<lparr>is_read = file_in_read C, is_size = file_in_stream_size, is_end = file_in_end,
     is_seek = (\<lambda>d wh. run_act (file_in_seek C d wh))\<rparr>"

section \<open>FileOutStream\<close>

record 'f file_out =
  fo_file :: 'f

definition on_out_file :: "('f, 'a) act \<Rightarrow> ('f file_out, 'a) act" where
  "on_out_file m s = (case m (fo_file s) of (r, f') \<Rightarrow> (r, s\<lparr>fo_file := f'\<rparr>))"

definition FileOutStream :: "'f \<Rightarrow> 'f file_out" where
  "FileOutStream new_file = \<lparr>fo_file = new_file\<rparr>"

definition file_out_open :: "'f file_class \<Rightarrow> ('f file_out, bool) act" where
  "file_out_open C = act_catch_all (act_bind (on_out_file (fc_open2 C ckOPEN_WRITE)) (\<lambda>_. act_return True))
     (act_return False)"

definition file_out_close :: "'f file_class \<Rightarrow> ('f file_out, bool) act" where
  "file_out_close C = on_out_file (fc_close C)"

definition file_out_destroy :: "'f file_class \<Rightarrow> ('f file_out, unit) act" where
  "file_out_destroy C = act_bind (file_out_close C) (\<lambda>_. act_return ())"

definition file_out_write :: "'f file_class \<Rightarrow> byte list \<Rightarrow> 'f file_out \<Rightarrow> (int \<times> 'f file_out) outcome" where
  "file_out_write C bs s = (case fc_write C bs (fo_file s) of (res, f') \<Rightarrow> Ret (res, s\<lparr>fo_file := f'\<rparr>))"

definition file_out_stream :: "'f file_class \<Rightarrow> 'f file_out out_stream" where
  "file_out_stream C = \<lparr>os_write = file_out_write C\<rparr>"

section \<open>What the streams rely on\<close>

text \<open>
  \<open>view f\<close> are the contents and the offset of the file behind an open object. A read gives a prefix of
  what is left, at least one byte unless there is none. Positions below \<open>reach\<close> are exact.
\<close>

locale file_reading =
  fixes C :: "'f file_class" and view :: "'f \<Rightarrow> (byte list \<times> nat) option"
  assumes view_test: "view f \<noteq> None \<Longrightarrow> fc_test C f"
    and fread_law: "view f = Some (c, p) \<Longrightarrow> 0 < unat n \<Longrightarrow>
      \<exists>bs f' rest. fc_read C (int (unat (n :: u32))) f = (int (length bs), bs, f') \<and> length bs \<le> unat n \<and>
        drop p c = bs @ rest \<and> (rest \<noteq> [] \<longrightarrow> bs \<noteq> []) \<and> view f' = Some (c, p + length bs)"

locale file_seeking = file_reading +
  fixes reach :: int
  assumes fseek_law: "view f = Some (c, p) \<Longrightarrow> 0 \<le> d \<Longrightarrow> d < 2 ^ 32 \<Longrightarrow>
      0 \<le> seek_target c p d (lseek_whence_of wh) \<Longrightarrow> seek_target c p d (lseek_whence_of wh) < reach \<Longrightarrow>
      \<exists>f'. fc_seek2 C d wh f = (Ret (seek_target c p d (lseek_whence_of wh)), f') \<and>
        view f' = Some (c, nat (seek_target c p d (lseek_whence_of wh)))"
    and reach_bound: "reach \<le> 2 ^ 63"

text \<open>\<open>disk f\<close> are the contents of the file that a closed object names.\<close>

locale file_opening_read = file_seeking +
  fixes disk :: "'a \<Rightarrow> byte list option"
  assumes fsize_law: "disk f = Some c \<Longrightarrow> length c < 2 ^ 63 \<Longrightarrow>
      \<exists>f'. fc_size2 C f = (Ret (int (length c)), f') \<and> disk f' = Some c"
    and fopen_law: "disk f = Some c \<Longrightarrow> \<exists>f'. fc_open2 C ckOPEN_READ f = (Ret (), f') \<and> view f' = Some (c, 0)"

text \<open>\<open>opened c\<close> is what opening for writing leaves of the contents \<open>c\<close>.\<close>

locale file_writing =
  fixes C :: "'f file_class" and view :: "'f \<Rightarrow> (byte list \<times> nat) option" and disk :: "'f \<Rightarrow> byte list option"
    and opened :: "byte list \<Rightarrow> byte list"
  assumes wopen_law: "disk f = Some c \<Longrightarrow>
      \<exists>f'. fc_open2 C ckOPEN_WRITE f = (Ret (), f') \<and> view f' = Some (opened c, 0)"
    and fwrite_law: "view f = Some cp \<Longrightarrow> length bs < 2 ^ 32 \<Longrightarrow> snd cp + length bs < 2 ^ 63 \<Longrightarrow>
      \<exists>f'. fc_write C bs f = (int (length bs), f') \<and> view f' = Some (overwrite cp bs)"

section \<open>The input stream\<close>

definition file_rem :: "('f \<Rightarrow> (byte list \<times> nat) option) \<Rightarrow> 'f file_in \<Rightarrow> byte list" where
  "file_rem view s = (case view (fi_file s) of None \<Rightarrow> [] | Some (c, p) \<Rightarrow> drop p c)"

definition file_inv :: "('f \<Rightarrow> (byte list \<times> nat) option) \<Rightarrow> 'f file_in \<Rightarrow> bool" where
  "file_inv view s \<longleftrightarrow> (case view (fi_file s) of None \<Rightarrow> False
     | Some (c, p) \<Rightarrow> fi_size s = int (length c) \<and> fi_read s = int p \<and> length c < 2 ^ 63 \<and> p < 2 ^ 63)"

lemma file_invE:
  assumes "file_inv view s"
  obtains c p where "view (fi_file s) = Some (c, p)" "fi_size s = int (length c)" "fi_read s = int p"
    "length c < 2 ^ 63" "p < 2 ^ 63" "file_rem view s = drop p c"
  using assms by (auto simp: file_inv_def file_rem_def split: option.splits)

context file_reading begin

lemma in_test: "file_inv view s \<Longrightarrow> file_in_test C s"
  by (rule file_invE) (auto simp: file_in_test_def intro: view_test)

lemma in_read_cases:
  assumes "view (fi_file s) = Some (c, p)" "fi_read s = int p" "length c < 2 ^ 63" "p < 2 ^ 63" "0 < unat n"
  obtains bs s' rest where "file_in_read C n s = Ret (int (length bs), bs, s')" "length bs \<le> unat n"
    "drop p c = bs @ rest" "rest \<noteq> [] \<longrightarrow> bs \<noteq> []" "p + length bs < 2 ^ 63" "fi_size s' = fi_size s"
    "fi_read s' = int (p + length bs)" "view (fi_file s') = Some (c, p + length bs)"
proof -
  obtain bs f' rest where r: "fc_read C (int (unat n)) (fi_file s) = (int (length bs), bs, f')" "length bs \<le> unat n"
    "drop p c = bs @ rest" "rest \<noteq> [] \<longrightarrow> bs \<noteq> []" "view f' = Some (c, p + length bs)"
    using fread_law [OF assms(1,5)] by blast
  have "length bs \<le> length c - p" using arg_cong [OF r(3), of length] by simp
  then have "p + length bs < 2 ^ 63" using assms(3,4) by (cases "p \<le> length c") auto
  moreover from this have "int p + int (length bs) < 2 ^ 63" by simp
  ultimately show thesis using r assms(2)
    by (intro that [of bs "s\<lparr>fi_file := f', fi_read := int (p + length bs)\<rparr>" rest])
      (simp_all add: file_in_read_def Let_def)
qed

lemma file_source: "in_source (file_in_stream C) (file_rem view) (file_inv view) cmax"
proof
  fix s assume "file_inv view s"
  then show "is_end (file_in_stream C) s \<longleftrightarrow> file_rem view s = []"
    by (elim file_invE) (simp add: file_in_stream_def file_in_end_def)
next
  fix s n assume a: "file_inv view s" "0 < unat (n::u32)"
  obtain c p where v: "view (fi_file s) = Some (c, p)" "fi_size s = int (length c)" "fi_read s = int p"
    "length c < 2 ^ 63" "p < 2 ^ 63" "file_rem view s = drop p c"
    by (rule file_invE [OF a(1)])
  obtain bs s' rest where r: "file_in_read C n s = Ret (int (length bs), bs, s')" "length bs \<le> unat n"
    "drop p c = bs @ rest" "rest \<noteq> [] \<longrightarrow> bs \<noteq> []" "p + length bs < 2 ^ 63" "fi_size s' = fi_size s"
    "fi_read s' = int (p + length bs)" "view (fi_file s') = Some (c, p + length bs)"
    by (rule in_read_cases [OF v(1,3,4,5) a(2)])
  have "drop (p + length bs) c = rest" using arg_cong [OF r(3), of "drop (length bs)"] by (simp add: add.commute)
  with r v show "\<exists>res bs s'. is_read (file_in_stream C) n s = Ret (res, bs, s') \<and> length bs \<le> unat n \<and>
      file_inv view s' \<and> (res = -1 \<or> (res = int (length bs) \<and> file_rem view s = bs @ file_rem view s' \<and>
      (file_rem view s \<noteq> [] \<longrightarrow> bs \<noteq> [])))"
    by (intro exI [of _ "int (length bs)"] exI [of _ bs] exI [of _ s'])
      (auto simp: file_in_stream_def file_inv_def file_rem_def)
next
  fix s n res bs s' assume a: "file_inv view s" "0 < unat (n::u32)" "is_read (file_in_stream C) n s = Ret (res, bs, s')"
  from a(1) obtain c p where v: "view (fi_file s) = Some (c, p)" "fi_read s = int p" "length c < 2 ^ 63" "p < 2 ^ 63"
    by (rule file_invE)
  show "res \<noteq> -1"
    by (rule in_read_cases [OF v a(2)]) (use a(3) in \<open>simp add: file_in_stream_def\<close>)
qed

sublocale to_memory: copy_sound "file_in_stream C" "file_rem view" "file_inv view" BUFFER_SIZE
    "memory_out_stream alloc_ok" memory_contents "(@)" memory_fits memory_oinv
  by (intro copy_sound.intro file_source mem_sink.out_sink_axioms copy_sound_axioms.intro order_refl)

end

context file_seeking begin

text \<open>Seeking moves both the file and the counter of the stream, so that \<open>end()\<close> stays right.\<close>

lemma in_seek:
  assumes "file_inv view s" "view (fi_file s) = Some (c, p)"
    and "t = (if whence = ckSTREAM_CURRENT then p else 0) + unat d" "int t < reach"
  shows "\<exists>s'. is_seek (file_in_stream C) d whence s = Ret (True, s') \<and> file_inv view s' \<and> file_rem view s' = drop t c \<and>
    view (fi_file s') = Some (c, t)"
proof -
  have d: "0 \<le> int (unat d)" "int (unat d) < 2 ^ 32" using unsigned_less [of d] by simp_all
  have t: "seek_target c p (int (unat d)) (lseek_whence_of (file_whence_of whence)) = int t"
    by (cases whence) (simp_all add: assms(3) seek_target_def file_whence_of_def lseek_whence_of_def)
  obtain f' where f': "fc_seek2 C (int (unat d)) (file_whence_of whence) (fi_file s) = (Ret (int t), f')"
    "view f' = Some (c, t)"
    using fseek_law [OF assms(2) d, of "file_whence_of whence"] assms(4) unfolding t by auto
  let ?s = "s\<lparr>fi_file := f', fi_read := int t\<rparr>"
  have "int t < 2 ^ 63" using assms(4) reach_bound by linarith
  with f' assms(1,2) have "file_inv view ?s" by (simp add: file_inv_def)
  moreover have "is_seek (file_in_stream C) d whence s = Ret (True, ?s)"
    using f'(1) by (simp add: file_in_stream_def file_in_seek_def run_act_def act_defs on_in_file_def)
  ultimately show ?thesis using f'(2) by (auto simp: file_rem_def)
qed

end

section \<open>The output stream\<close>

text \<open>What it has made is the contents behind the descriptor, and the offset.\<close>

definition file_made :: "('f \<Rightarrow> (byte list \<times> nat) option) \<Rightarrow> 'f file_out \<Rightarrow> byte list \<times> nat" where
  "file_made view s = the (view (fo_file s))"

definition file_fits :: "('f \<Rightarrow> (byte list \<times> nat) option) \<Rightarrow> 'f file_out \<Rightarrow> nat \<Rightarrow> bool" where
  "file_fits view s n \<longleftrightarrow> snd (file_made view s) + n < 2 ^ 63"

definition file_oinv :: "('f \<Rightarrow> (byte list \<times> nat) option) \<Rightarrow> 'f file_out \<Rightarrow> bool" where
  "file_oinv view s \<longleftrightarrow> view (fo_file s) \<noteq> None"

lemma overwrite_Nil [simp]: "overwrite a [] = a"
  by (cases a) (simp add: overwrite_def)

lemma overwrite_append: "overwrite a (xs @ ys) = overwrite (overwrite a xs) ys"
proof (cases "xs = [] \<or> ys = []")
  case False
  obtain c p where a: "a = (c, p)" by fastforce
  have "take (p + length xs) (take p c @ replicate (p - length c) 0 @ xs @ drop (p + length xs) c) =
      take p c @ replicate (p - length c) 0 @ xs"
    by (cases "p \<le> length c") (auto simp: min_def)
  moreover have "drop (p + (length xs + length ys)) (take p c @ replicate (p - length c) 0 @ xs @ drop (p + length xs) c) =
      drop (p + (length xs + length ys)) c"
    by (cases "p \<le> length c") (auto simp: min_def add_ac)
  moreover have "p + length xs - length (take p c @ replicate (p - length c) 0 @ xs @ drop (p + length xs) c) = 0"
    by simp
  ultimately show ?thesis using False by (simp add: a overwrite_def add.assoc)
qed (auto simp: overwrite_def split: prod.splits)

lemma snd_overwrite: "snd (overwrite cp bs) = snd cp + length bs"
  by (cases cp) (simp add: overwrite_def)

context file_writing begin

lemma out_write:
  assumes "file_oinv view s" "length bs < 2 ^ 32" "file_fits view s (length bs)"
  obtains s' where "os_write (file_out_stream C) bs s = Ret (int (length bs), s')" "file_oinv view s'"
    "file_made view s' = overwrite (file_made view s) bs"
proof -
  obtain cp where v: "view (fo_file s) = Some cp" "snd cp + length bs < 2 ^ 63"
    using assms by (auto simp: file_oinv_def file_fits_def file_made_def)
  obtain f' where "fc_write C bs (fo_file s) = (int (length bs), f')" "view f' = Some (overwrite cp bs)"
    using fwrite_law [OF v(1) assms(2) v(2)] by blast
  with v show thesis
    by (intro that [of "s\<lparr>fo_file := f'\<rparr>"])
      (simp_all add: file_out_stream_def file_out_write_def file_oinv_def file_made_def)
qed

lemma file_sink: "out_sink (file_out_stream C) (file_made view) overwrite (file_fits view) (file_oinv view)"
proof
  fix s m and bs :: "byte list" assume a: "file_oinv view s" "length bs < 2 ^ 32" "file_fits view s (length bs + m)"
  then have f: "file_fits view s (length bs)" by (simp add: file_fits_def)
  obtain s' where s': "os_write (file_out_stream C) bs s = Ret (int (length bs), s')" "file_oinv view s'"
    "file_made view s' = overwrite (file_made view s) bs"
    by (rule out_write [OF a(1,2) f])
  then have "file_fits view s' m" using a(3) by (simp add: file_fits_def snd_overwrite)
  with s' show "\<exists>res s'. os_write (file_out_stream C) bs s = Ret (res, s') \<and> file_oinv view s' \<and>
      file_fits view s' m \<and> (res = -1 \<and> file_made view s' = file_made view s \<or>
      res = int (length bs) \<and> file_made view s' = overwrite (file_made view s) bs)"
    by blast
next
  fix s bs res s' assume a: "file_oinv view s" "length bs < 2 ^ 32" "file_fits view s (length bs)"
    "os_write (file_out_stream C) bs s = Ret (res, s')"
  show "res \<noteq> -1" by (rule out_write [OF a(1-3)]) (use a(4) in simp)
qed (auto simp: overwrite_append file_fits_def)

sublocale from_memory: copy_sound memory_in_stream memory_rem "memory_inv BUFFER_SIZE" BUFFER_SIZE
    "file_out_stream C" "file_made view" overwrite "file_fits view" "file_oinv view"
  by (intro copy_sound.intro file_sink mem_in.in_source_axioms copy_sound_axioms.intro order_refl)

end

section \<open>Opening and copying\<close>

context file_opening_read begin

lemma query_size_closed:
  assumes "disk (fi_file s) = Some c" "length c < 2 ^ 63"
  obtains f' where "disk f' = Some c" "query_size C s = (Ret (), s\<lparr>fi_file := f', fi_size := int (length c)\<rparr>)"
proof -
  obtain f' where "fc_size2 C (fi_file s) = (Ret (int (length c)), f')" "disk f' = Some c"
    using fsize_law [OF assms] by blast
  then show thesis
    by (intro that [of f']) (simp_all add: query_size_def on_in_file_def act_bind_def act_catch_all_def act_update_def)
qed

lemma in_open_ok:
  assumes "disk (fi_file s) = Some c" "length c < 2 ^ 63" "fi_read s = 0"
  obtains s' where "file_in_open C s = (Ret True, s')" "file_inv view s'" "view (fi_file s') = Some (c, 0)"
proof -
  obtain f1 where q: "disk f1 = Some c" "query_size C s = (Ret (), s\<lparr>fi_file := f1, fi_size := int (length c)\<rparr>)"
    by (rule query_size_closed [OF assms(1,2)])
  obtain f' where f': "fc_open2 C ckOPEN_READ f1 = (Ret (), f')" "view f' = Some (c, 0)"
    using fopen_law [OF q(1)] by blast
  let ?s = "s\<lparr>fi_file := f', fi_size := int (length c)\<rparr>"
  have "file_in_open C s = (Ret True, ?s)"
    using q(2) f'(1) by (simp add: file_in_open_def act_bind_def act_catch_all_def on_in_file_def)
  with f' assms(2,3) show thesis
    by (intro that [of ?s]) (simp_all add: file_inv_def)
qed

lemma open_new:
  assumes "disk f = Some c" "length c < 2 ^ 63"
  obtains s0 s1 where "FileInStream C f = (Ret (), s0)" "file_in_open C s0 = (Ret True, s1)" "file_inv view s1"
    "view (fi_file s1) = Some (c, 0)"
proof -
  let ?s = "\<lparr>fi_file = f, fi_size = 0, fi_read = 0\<rparr>"
  have df: "disk (fi_file ?s) = Some c" using assms(1) by simp
  obtain f1 where q: "disk f1 = Some c" "query_size C ?s = (Ret (), ?s\<lparr>fi_file := f1, fi_size := int (length c)\<rparr>)"
    by (rule query_size_closed [OF df assms(2)])
  define s0 where "s0 = ?s\<lparr>fi_file := f1, fi_size := int (length c)\<rparr>"
  have s0: "disk (fi_file s0) = Some c" "fi_read s0 = 0" using q(1) by (simp_all add: s0_def)
  have "FileInStream C f = (Ret (), s0)" using q(2) by (simp add: FileInStream_def s0_def)
  with in_open_ok [OF s0(1) assms(2) s0(2)] show thesis using that by blast
qed

text \<open>Opening, moving to a position and copying the rest.\<close>

lemma copy_to_memory:
  assumes "disk f = Some c" "length c \<le> 2 ^ 31" "int (unat d) < reach" "length buf = BUFFER_SIZE" "length c < n"
  shows "\<exists>s0 s1 s2 i' s'. FileInStream C f = (Ret (), s0) \<and> file_in_open C s0 = (Ret True, s1) \<and>
    is_seek (file_in_stream C) d ckSTREAM_BEGIN s1 = Ret (True, s2) \<and>
    copy (file_in_stream C) (memory_out_stream alloc_ok) n buf s2 (MemoryOutStream alloc_ok k) = Ret (True, i', s') \<and>
    file_in_end i' \<and> memory_contents s' = drop (unat d) c"
proof -
  have lc: "length c < 2 ^ 63" using assms(2) by simp
  obtain s0 s1 where s1: "FileInStream C f = (Ret (), s0)" "file_in_open C s0 = (Ret True, s1)" "file_inv view s1"
    "view (fi_file s1) = Some (c, 0)"
    by (rule open_new [OF assms(1) lc])
  obtain s2 where s2: "is_seek (file_in_stream C) d ckSTREAM_BEGIN s1 = Ret (True, s2)" "file_inv view s2"
    "file_rem view s2 = drop (unat d) c"
    using in_seek [OF s1(3,4), of "unat d" ckSTREAM_BEGIN d] assms(3) by auto
  have l: "length c - unat d < n" "length c - unat d \<le> 2 ^ 31" using assms(2,5) by linarith+
  obtain i' s' where r: "copy (file_in_stream C) (memory_out_stream alloc_ok) n buf s2 (MemoryOutStream alloc_ok k) =
      Ret (True, i', s')" "file_inv view i'" "file_rem view i' = []" "memory_contents s' = drop (unat d) c"
    using to_memory.copy_complete [OF s2(2) memory_oinv_init assms(4), of k n] l s2(3)
    by (auto simp: stream_inits)
  have "file_in_end i'" using to_memory.end_law [OF r(2)] r(3) by (simp add: file_in_stream_def)
  with s1(1,2) s2(1) r show ?thesis by blast
qed

end

context file_writing begin

lemma open_out:
  assumes "disk f = Some old"
  obtains s where "file_out_open C (FileOutStream f) = (Ret True, s)" "file_oinv view s" "file_made view s = (opened old, 0)"
proof -
  obtain f' where "fc_open2 C ckOPEN_WRITE f = (Ret (), f')" "view f' = Some (opened old, 0)"
    using wopen_law [OF assms(1)] by blast
  then show thesis
    by (intro that [of "\<lparr>fo_file = f'\<rparr>"])
      (simp_all add: file_out_open_def FileOutStream_def act_bind_def act_catch_all_def on_out_file_def file_oinv_def file_made_def)
qed

lemma made_view:
  assumes "file_oinv view s" "file_made view s = overwrite (opened old, 0) data"
  shows "view (fo_file s) = Some (data @ drop (length data) (opened old), length data)"
  using assms by (auto simp: file_oinv_def file_made_def overwrite_def)

lemma copy_from_memory:
  assumes "disk f = Some old" "length data \<le> 2 ^ 31" "length buf = BUFFER_SIZE" "length data < n"
  shows "\<exists>o1 i' o2. file_out_open C (FileOutStream f) = (Ret True, o1) \<and>
    copy memory_in_stream (file_out_stream C) n buf (memory_source data) o1 = Ret (True, i', o2) \<and>
    view (fo_file o2) = Some (data @ drop (length data) (opened old), length data)"
proof -
  obtain o1 where o: "file_out_open C (FileOutStream f) = (Ret True, o1)" "file_oinv view o1" "file_made view o1 = (opened old, 0)"
    by (rule open_out [OF assms(1)])
  have l: "length data + BUFFER_SIZE < 2 ^ 32" using assms(2) by simp
  obtain i' o2 where "copy memory_in_stream (file_out_stream C) n buf (memory_source data) o1 = Ret (True, i', o2)"
    "file_oinv view o2" "file_made view o2 = overwrite (opened old, 0) data"
    using from_memory.copy_complete [OF memory_inv_init [OF l] o(2) assms(3), of n] assms(2,4) o(3)
    by (auto simp: stream_inits file_fits_def)
  with o(1) made_view show ?thesis by blast
qed

end

lemma grow_enough: "need \<le> sz \<Longrightarrow> grow alloc need buf sz = Ret (True, buf, sz)"
  by (subst grow.simps) simp

lemma memory_write_nothing:
  assumes "memory_oinv s"
  shows "\<exists>s'. os_write (memory_out_stream alloc_ok) [] s = Ret (0, s') \<and> memory_oinv s'"
proof -
  obtain buf where b: "mo_buffer s = Some buf" "length buf = unat (mo_size s)" "0 < mo_size s" "mo_pos s \<le> mo_size s"
    using assms by (auto simp: memory_oinv_def split: option.splits)
  then have "unat (mo_pos s) \<le> length buf" by (simp add: word_le_nat_alt)
  with b show ?thesis
    by (simp add: memory_out_stream_def memory_out_write_def memory_oinv_def grow_enough Let_def blit_def)
qed

context file_reading begin

text \<open>A file that has become shorter than the size the stream has noted.\<close>

lemma copy_truncated:
  assumes "view (fi_file i) = Some (c, p)" "fi_read i = int p" "length c \<le> p" "int p < fi_size i" "p < 2 ^ 63"
    and "length buf = BUFFER_SIZE" "memory_oinv s"
  shows "copy (file_in_stream C) (memory_out_stream alloc_ok) n buf i s = Fuel"
  unfolding copy_def using assms
proof (induction n arbitrary: i buf s)
  case (Suc n)
  have lc: "length c < 2 ^ 63" using Suc.prems(3,5) by simp
  obtain bs i' rest where r: "file_in_read C 8192 i = Ret (int (length bs), bs, i')"
    "drop p c = bs @ rest" "fi_size i' = fi_size i" "fi_read i' = int (p + length bs)"
    "view (fi_file i') = Some (c, p + length bs)"
    by (rule in_read_cases [OF Suc.prems(1,2) lc Suc.prems(5), of 8192]) simp_all
  then have bs: "bs = []" using Suc.prems(3) by simp
  obtain s' where w: "os_write (memory_out_stream alloc_ok) [] s = Ret (0, s')" "memory_oinv s'"
    using memory_write_nothing [OF Suc.prems(7)] by blast
  have "copy_loop (file_in_stream C) (memory_out_stream alloc_ok) n buf i' s' = Fuel"
    using r bs w Suc.prems by (intro Suc.IH) auto
  moreover have "copy_chunk (file_in_stream C) (memory_out_stream alloc_ok) 8192 buf i s = Ret (0, buf, i', s')"
    using r bs w by (simp add: copy_chunk_def read_into_def file_in_stream_def write_from_def store_def)
  moreover have "\<not> is_end (file_in_stream C) i"
    using Suc.prems(2,4) by (simp add: file_in_stream_def file_in_end_def)
  ultimately show ?case by simp
qed simp

end

end
