(* ===== verification/Windows_Util.thy ===== *)
theory Windows_Util
  imports Convert
begin

text \<open>
  \<^verbatim>\<open>src/windows/util.cc\<close>: the conversion of a \<^verbatim>\<open>SYSTEMTIME\<close> to a \<open>struct tm\<close>, which the Windows
  code of \<open>File::time\<close> and \<open>Directory::time\<close> uses.
\<close>

record systemtime =
  wYear :: u16
  wMonth :: u16
  wDayOfWeek :: u16
  wDay :: u16
  wHour :: u16
  wMinute :: u16
  wSecond :: u16

text \<open>The test is made on the years since 1900; \<^verbatim>\<open>%\<close> is only compared with 0.\<close>

definition leap_test :: "int \<Rightarrow> bool" where
  "leap_test year \<longleftrightarrow> year mod 400 = 0 \<or> (year mod 4 = 0 \<and> year mod 100 \<noteq> 0)"

definition month_len :: "bool \<Rightarrow> u8 list" where
  "month_len leap = (if leap then [31, 29, 31, 30, 31, 30, 31, 31, 30, 31, 30, 31]
     else [31, 28, 31, 30, 31, 30, 31, 31, 30, 31, 30, 31])"

text \<open>The loop adds the first entry in every round.\<close>

definition month_days :: "u8 list \<Rightarrow> int \<Rightarrow> int" where
  "month_days len mon = fold (\<lambda>i days. days + uint (len ! 0)) [0..<nat mon] 0"

definition SysTimeToTm :: "u32 \<Rightarrow> systemtime \<Rightarrow> tm" where
  "SysTimeToTm tzi stime =
     (let mon = uint (wMonth stime) - 1; year = uint (wYear stime) - 1900;
          days = month_days (month_len (leap_test year)) mon
      in \<lparr>tm_sec = uint (wSecond stime), tm_min = uint (wMinute stime), tm_hour = uint (wHour stime),
          tm_mday = uint (wDay stime), tm_mon = mon, tm_year = year, tm_wday = uint (wDayOfWeek stime),
          tm_yday = days + uint (wDay stime), tm_isdst = sint (tzi - 1)\<rparr>)"

section \<open>The day of the year\<close>

text \<open>The specification: the days since January 1st, as \<open>struct tm\<close> counts them.\<close>

definition leap_year :: "int \<Rightarrow> bool" where
  "leap_year y \<longleftrightarrow> y mod 400 = 0 \<or> (y mod 4 = 0 \<and> y mod 100 \<noteq> 0)"

definition day_of_year :: "systemtime \<Rightarrow> int" where
  "day_of_year s = sum_list (map uint (take (unat (wMonth s) - 1) (month_len (leap_year (uint (wYear s))))))
     + uint (wDay s) - 1"

lemma fold_const_add: "fold (\<lambda>i d. d + c) xs (d0 :: int) = d0 + c * int (length xs)"
  by (induction xs arbitrary: d0) (simp_all add: algebra_simps)

lemma month_days_eq: "0 \<le> m \<Longrightarrow> month_days (month_len leap) m = 31 * m"
  by (simp add: month_days_def month_len_def fold_const_add)

text \<open>What the months before the \<open>m\<close>th are short of 31 days.\<close>

lemma months_below: "m \<in> {1..12} \<Longrightarrow>
    sum_list (map uint (take (m - 1) (month_len leap))) \<le> 31 * (int m - 1) \<and>
    (sum_list (map uint (take (m - 1) (month_len leap))) = 31 * (int m - 1) \<longleftrightarrow> m \<le> 2)"
proof -
  assume "m \<in> {1..12}"
  then have "m \<in> {1, 2, 3, 4, 5, 6, 7, 8, 9, 10, 11, 12}"
    by (simp only: atLeastAtMost_iff insert_iff empty_iff) presburger
  then show ?thesis by (cases leap; elim insertE emptyE) (simp_all add: month_len_def)
qed

text \<open>\<open>SysTimeToTm\<close> keeps the date and the time of a \<^verbatim>\<open>SYSTEMTIME\<close>, but its \<open>tm_yday\<close> is always too
  large: it takes every month for 31 days long (\<^verbatim>\<open>month_len[0]\<close> instead of \<^verbatim>\<open>month_len[i]\<close>) and
  counts from 1 instead of 0. Only in January and February is it off by no more than 1.\<close>

theorem sys_time_yday:
  assumes "1 \<le> unat (wMonth s)" "unat (wMonth s) \<le> 12"
  shows "let t = SysTimeToTm tzi s in
    (tm_year t + 1900, tm_mon t + 1, tm_mday t) = (uint (wYear s), uint (wMonth s), uint (wDay s)) \<and>
    (tm_hour t, tm_min t, tm_sec t) = (uint (wHour s), uint (wMinute s), uint (wSecond s)) \<and>
    day_of_year s < tm_yday t \<and> (tm_yday t = day_of_year s + 1 \<longleftrightarrow> unat (wMonth s) \<le> 2)"
proof -
  define m where "m = unat (wMonth s)"
  have m: "uint (wMonth s) = int m" "m \<in> {1..12}" using assms by (simp_all add: m_def)
  then have "month_days (month_len l) (int m - 1) = 31 * (int m - 1)" for l by (intro month_days_eq) auto
  with m months_below [of m "leap_year (uint (wYear s))"] show ?thesis
    by (auto simp: SysTimeToTm_def day_of_year_def Let_def m_def [symmetric])
qed

definition christmas :: systemtime where
  "christmas = \<lparr>wYear = 2012, wMonth = 12, wDayOfWeek = 2, wDay = 25, wHour = 18, wMinute = 30, wSecond = 0\<rparr>"

theorem sys_time_yday_witness:
  "let t = SysTimeToTm 1 christmas in
    (tm_year t + 1900, tm_mon t + 1, tm_mday t) = (uint (wYear christmas), uint (wMonth christmas), uint (wDay christmas)) \<and>
    (tm_hour t, tm_min t, tm_sec t) = (uint (wHour christmas), uint (wMinute christmas), uint (wSecond christmas)) \<and>
    day_of_year christmas < tm_yday t \<and> (tm_yday t = day_of_year christmas + 1 \<longleftrightarrow> unat (wMonth christmas) \<le> 2)"
  by (rule sys_time_yday) (simp_all add: christmas_def)

end
