(* ===== verification/Windows_File.thy ===== *)
theory Windows_File
  imports File_Api Windows_Util
begin

text \<open>
  The class \<^verbatim>\<open>File\<close> on Windows (\<^verbatim>\<open>src/windows/file.cc\<close>). As in \<open>Unix_File\<close>, the calls of the system
  are a record of functions on its state; \<open>unsigned long\<close> and \<^verbatim>\<open>DWORD\<close> have 32 bits here.
\<close>

section \<open>The calls of the system\<close>

datatype win_access = GENERIC_READ | GENERIC_WRITE

datatype win_share = Share_read | Share_read_write

datatype win_disposition = OPEN_EXISTING | CREATE_ALWAYS

type_synonym filetime = u64

record 'w win_os =
  wn_last_error :: "'w \<Rightarrow> u32"
  wn_message :: "u32 \<Rightarrow> string option"   \<comment> \<open>\<^verbatim>\<open>FormatMessage\<close>\<close>
  wn_create :: "string \<Rightarrow> win_access \<Rightarrow> win_share \<Rightarrow> win_disposition \<Rightarrow> 'w \<Rightarrow> int \<times> 'w"
  wn_close :: "int \<Rightarrow> 'w \<Rightarrow> bool \<times> 'w"
  wn_set_pointer :: "int \<Rightarrow> u32 \<Rightarrow> u32 \<Rightarrow> lseek_whence \<Rightarrow> 'w \<Rightarrow> (u32 \<times> u32) \<times> 'w"   \<comment> \<open>low and high part\<close>
  wn_file_size :: "int \<Rightarrow> 'w \<Rightarrow> (u32 \<times> u32) \<times> 'w"
  wn_read :: "int \<Rightarrow> u32 \<Rightarrow> 'w \<Rightarrow> byte list option \<times> 'w"   \<comment> \<open>\<open>None\<close> for \<^verbatim>\<open>FALSE\<close>\<close>
  wn_write :: "int \<Rightarrow> byte list \<Rightarrow> 'w \<Rightarrow> u32 option \<times> 'w"
  wn_attributes :: "string \<Rightarrow> 'w \<Rightarrow> u32 \<times> 'w"
  wn_delete :: "string \<Rightarrow> 'w \<Rightarrow> bool \<times> 'w"
  wn_move :: "string \<Rightarrow> string \<Rightarrow> 'w \<Rightarrow> bool \<times> 'w"
  wn_file_time :: "int \<Rightarrow> 'w \<Rightarrow> (filetime \<times> filetime \<times> filetime) option \<times> 'w"   \<comment> \<open>created, accessed, modified\<close>
  wn_local_time :: "filetime \<Rightarrow> filetime option"
  wn_system_time :: "filetime \<Rightarrow> systemtime option"
  wn_time_zone :: "'w \<Rightarrow> u32"
  wn_temp_path :: "'w \<Rightarrow> string option \<times> 'w"
  wn_temp_name :: "string \<Rightarrow> string \<Rightarrow> 'w \<Rightarrow> string option \<times> 'w"

definition INVALID_HANDLE_VALUE :: int where "INVALID_HANDLE_VALUE = -1"

definition INVALID_SET_FILE_POINTER :: u32 where "INVALID_SET_FILE_POINTER = 0xffffffff"

definition FILE_ATTRIBUTE_READONLY :: u32 where "FILE_ATTRIBUTE_READONLY = 0x1"
definition FILE_ATTRIBUTE_HIDDEN :: u32 where "FILE_ATTRIBUTE_HIDDEN = 0x2"
definition FILE_ATTRIBUTE_DIRECTORY :: u32 where "FILE_ATTRIBUTE_DIRECTORY = 0x10"

section \<open>The object\<close>

record 'w win_file =
  wf_handle :: int
  wf_path :: path
  wf_world :: 'w

definition win_File :: "path \<Rightarrow> 'w \<Rightarrow> 'w win_file" where
  "win_File file_path w = \<lparr>wf_handle = INVALID_HANDLE_VALUE, wf_path = file_path, wf_world = w\<rparr>"

definition win_name :: "'w win_file \<Rightarrow> string" where
  "win_name f = path_name (wf_path f)"

definition win_sys :: "('w \<Rightarrow> 'a \<times> 'w) \<Rightarrow> ('w win_file, 'a) act" where
  "win_sys call f = (case call (wf_world f) of (x, w') \<Rightarrow> (Ret x, f\<lparr>wf_world := w'\<rparr>))"

definition win_test :: "'w win_file \<Rightarrow> bool" where
  "win_test f \<longleftrightarrow> wf_handle f \<noteq> INVALID_HANDLE_VALUE"

definition win_check_open :: "('w win_file, unit) act" where
  "win_check_open f = (if \<not> win_test f then (Throw ''file not yet opened.'', f) else (Ret (), f))"

definition win_close :: "'w win_os \<Rightarrow> ('w win_file, bool) act" where
  "win_close U f =
     (if wf_handle f = INVALID_HANDLE_VALUE then (Ret False, f)
      else act_bind (win_sys (wn_close U (wf_handle f))) (\<lambda>ok.
        if ok then act_bind (act_update (\<lambda>f. f\<lparr>wf_handle := INVALID_HANDLE_VALUE\<rparr>)) (\<lambda>_. act_return True)
        else act_return False) f)"

text \<open>The destructor closes; the answer is dropped.\<close>

definition win_file_destroy :: "'w win_os \<Rightarrow> ('w win_file, unit) act" where
  "win_file_destroy U = act_bind (win_close U) (\<lambda>_. act_return ())"

text \<open>The access and the disposition of the three modes.\<close>

definition win_open_mode :: "FileMode \<Rightarrow> win_access \<times> win_disposition" where
  "win_open_mode m = (case m of
       ckOPEN_READ \<Rightarrow> (GENERIC_READ, OPEN_EXISTING)
     | ckOPEN_WRITE \<Rightarrow> (GENERIC_WRITE, CREATE_ALWAYS)
     | ckOPEN_READWRITE \<Rightarrow> (GENERIC_WRITE, OPEN_EXISTING))"

definition win_open2_close :: "'w win_os \<Rightarrow> ('w win_file, unit) act" where
  "win_open2_close U f =
     (if wf_handle f \<noteq> INVALID_HANDLE_VALUE then act_bind (win_close U) (\<lambda>ok.
        if \<not> ok then act_lift (Throw ''Cannot close previously open file handle.'') else act_return ()) f
      else (Ret (), f))"

definition win_open2 :: "'w win_os \<Rightarrow> FileMode \<Rightarrow> ('w win_file, unit) act" where
  "win_open2 U mode = act_bind (win_open2_close U) (\<lambda>_.
     act_bind (\<lambda>f. win_sys (wn_create U (win_name f) (fst (win_open_mode mode)) Share_read (snd (win_open_mode mode))) f) (\<lambda>h.
     act_bind (act_update (\<lambda>f. f\<lparr>wf_handle := h\<rparr>)) (\<lambda>_ f.
       if h = INVALID_HANDLE_VALUE then
         (throw_from_last_error (wn_message U) (wn_last_error U (wf_world f)) (Some ''Error opening file \"%s\": '') [AStr (win_name f)], f)
       else (Ret (), f))))"

definition win_open :: "'w win_os \<Rightarrow> FileMode \<Rightarrow> ('w win_file, bool) act" where
  "win_open U mode = act_catch_all (act_bind (win_open2 U mode) (\<lambda>_. act_return True)) (act_return False)"

text \<open>A \<^verbatim>\<open>LARGE_INTEGER\<close> from its two parts, and the parts of a number.\<close>

definition quad_part :: "u32 \<times> u32 \<Rightarrow> int" where
  "quad_part li = sint (snd li) * 2 ^ 32 + uint (fst li)"

definition low_part :: "int \<Rightarrow> u32" where
  "low_part x = of_int x"

definition high_part :: "int \<Rightarrow> u32" where
  "high_part x = of_int (x div 2 ^ 32)"

text \<open>An all ones low part may be an error or the value; the last error tells.\<close>

definition check_quad :: "'w win_os \<Rightarrow> u32 \<times> u32 \<Rightarrow> ('w win_file, int) act" where
  "check_quad U li f =
     (if fst li = INVALID_SET_FILE_POINTER \<and> wn_last_error U (wf_world f) \<noteq> 0
      then (throw_from_given_last_error (wn_message U) (wn_last_error U (wf_world f)) None [], f)
      else (Ret (quad_part li), f))"

definition win_seek2 :: "'w win_os \<Rightarrow> int \<Rightarrow> FileWhence \<Rightarrow> ('w win_file, int) act" where
  "win_seek2 U distance whence = act_bind win_check_open (\<lambda>_.
     act_bind (\<lambda>f. win_sys (wn_set_pointer U (wf_handle f) (low_part distance) (high_part distance) (lseek_whence_of whence)) f)
       (check_quad U))"

definition win_seek :: "'w win_os \<Rightarrow> int \<Rightarrow> FileWhence \<Rightarrow> ('w win_file, int) act" where
  "win_seek U distance whence = act_catch_all (win_seek2 U distance whence) (act_return (-1))"

definition win_tell2 :: "'w win_os \<Rightarrow> ('w win_file, int) act" where
  "win_tell2 U = act_bind win_check_open (\<lambda>_.
     act_bind (\<lambda>f. win_sys (wn_set_pointer U (wf_handle f) 0 0 Seek_Cur) f) (check_quad U))"

definition win_tell :: "'w win_os \<Rightarrow> ('w win_file, int) act" where
  "win_tell U = act_catch_all (win_tell2 U) (act_return (-1))"

text \<open>The count is cut to a \<^verbatim>\<open>DWORD\<close>.\<close>

definition win_read :: "'w win_os \<Rightarrow> int \<Rightarrow> 'w win_file \<Rightarrow> int \<times> byte list \<times> 'w win_file" where
  "win_read U count f =
     (if wf_handle f = INVALID_HANDLE_VALUE then (-1, [], f)
      else case wn_read U (wf_handle f) (of_int count) (wf_world f) of
          (None, w') \<Rightarrow> (-1, [], f\<lparr>wf_world := w'\<rparr>)
        | (Some bs, w') \<Rightarrow> (int (length bs), bs, f\<lparr>wf_world := w'\<rparr>))"

definition win_write :: "'w win_os \<Rightarrow> byte list \<Rightarrow> 'w win_file \<Rightarrow> int \<times> 'w win_file" where
  "win_write U bs f =
     (if wf_handle f = INVALID_HANDLE_VALUE then (-1, f)
      else case wn_write U (wf_handle f) (take (unat (of_nat (length bs) :: u32)) bs) (wf_world f) of
          (None, w') \<Rightarrow> (-1, f\<lparr>wf_world := w'\<rparr>)
        | (Some written, w') \<Rightarrow> (uint written, f\<lparr>wf_world := w'\<rparr>))"

section \<open>The static functions\<close>

definition win_exist_static :: "'w win_os \<Rightarrow> path \<Rightarrow> 'w \<Rightarrow> bool \<times> 'w" where
  "win_exist_static U p w = (case wn_attributes U (path_name p) w of (attr, w') \<Rightarrow>
     (attr \<noteq> -1 \<and> attr AND FILE_ATTRIBUTE_DIRECTORY = 0, w'))"

definition win_remove_static :: "'w win_os \<Rightarrow> path \<Rightarrow> 'w \<Rightarrow> bool \<times> 'w" where
  "win_remove_static U p w = wn_delete U (path_name p) w"

definition win_rename_static :: "'w win_os \<Rightarrow> path \<Rightarrow> path \<Rightarrow> 'w \<Rightarrow> bool \<times> 'w" where
  "win_rename_static U old_path new_path w = (case win_exist_static U new_path w of (ex, w1) \<Rightarrow>
     if ex then (False, w1) else wn_move U (path_name old_path) (path_name new_path) w1)"

text \<open>All the conversions are made before the three results are assigned.\<close>

definition win_tms_of :: "'w win_os \<Rightarrow> 'w \<Rightarrow> (filetime \<times> filetime \<times> filetime) \<Rightarrow> tm \<times> tm \<times> tm \<Rightarrow> bool \<times> (tm \<times> tm \<times> tm)" where
  "win_tms_of U w fts ts = (case fts of (create, access, modify) \<Rightarrow>
     case wn_local_time U access of None \<Rightarrow> (False, ts) | Some la \<Rightarrow>
     case wn_local_time U modify of None \<Rightarrow> (False, ts) | Some lm \<Rightarrow>
     case wn_local_time U create of None \<Rightarrow> (False, ts) | Some lc \<Rightarrow>
     case wn_system_time U la of None \<Rightarrow> (False, ts) | Some sa \<Rightarrow>
     case wn_system_time U lm of None \<Rightarrow> (False, ts) | Some sm \<Rightarrow>
     case wn_system_time U lc of None \<Rightarrow> (False, ts) | Some sc \<Rightarrow>
       (True, (SysTimeToTm (wn_time_zone U w) sa, SysTimeToTm (wn_time_zone U w) sm, SysTimeToTm (wn_time_zone U w) sc)))"

definition win_time_static :: "'w win_os \<Rightarrow> path \<Rightarrow> tm \<times> tm \<times> tm \<Rightarrow> 'w \<Rightarrow> (bool \<times> (tm \<times> tm \<times> tm)) \<times> 'w" where
  "win_time_static U p ts w = (case wn_create U (path_name p) GENERIC_READ Share_read_write OPEN_EXISTING w of (h, w1) \<Rightarrow>
     if h = INVALID_HANDLE_VALUE then ((False, ts), w1)
     else case wn_file_time U h w1 of (r, w2) \<Rightarrow> (case wn_close U h w2 of (closed, w3) \<Rightarrow>
       (case r of None \<Rightarrow> (False, ts) | Some fts \<Rightarrow> win_tms_of U w3 fts ts, w3)))"

definition win_access_static :: "'w win_os \<Rightarrow> path \<Rightarrow> FileMode \<Rightarrow> 'w \<Rightarrow> bool \<times> 'w" where
  "win_access_static U p mode w =
     (if mode = ckOPEN_READ then win_exist_static U p w
      else case wn_attributes U (path_name p) w of (attr, w') \<Rightarrow>
        (attr \<noteq> -1 \<and> attr AND FILE_ATTRIBUTE_READONLY = 0, w'))"

definition win_hidden_static :: "'w win_os \<Rightarrow> path \<Rightarrow> 'w \<Rightarrow> bool \<times> 'w" where
  "win_hidden_static U p w = (case wn_attributes U (path_name p) w of (attr, w') \<Rightarrow>
     (if attr = 0xffffffff then False else attr AND FILE_ATTRIBUTE_HIDDEN \<noteq> 0, w'))"

text \<open>The last error is read before the handle is closed.\<close>

definition win_size2_try :: "'w win_os \<Rightarrow> path \<Rightarrow> ('w, int) act" where
  "win_size2_try U p w = (case wn_create U (path_name p) GENERIC_READ Share_read_write OPEN_EXISTING w of (h, w1) \<Rightarrow>
     if h = INVALID_HANDLE_VALUE then (throw_from_last_error (wn_message U) (wn_last_error U w1) None [], w1)
     else case wn_file_size U h w1 of (li, w2) \<Rightarrow> (case wn_close U h w2 of (closed, w3) \<Rightarrow>
       (if fst li = 0xffffffff \<and> wn_last_error U w2 \<noteq> 0
        then throw_from_given_last_error (wn_message U) (wn_last_error U w2) None [] else Ret (quad_part li), w3)))"

definition win_size2_static :: "'w win_os \<Rightarrow> path \<Rightarrow> ('w, int) act" where
  "win_size2_static U p = act_catch (win_size2_try U p) (\<lambda>e w.
     (rethrow_with_pfx e ''Error querying size of file \"%s\": '' [AStr (path_name p)], w))"

definition win_size_static :: "'w win_os \<Rightarrow> path \<Rightarrow> ('w, int) act" where
  "win_size_static U p = act_catch_all (win_size2_static U p) (act_return (-1))"

section \<open>Operations that use them\<close>

definition win_size2 :: "'w win_os \<Rightarrow> ('w win_file, int) act" where
  "win_size2 U f =
     (if \<not> win_test f then (case win_size_static U (wf_path f) (wf_world f) of (r, w') \<Rightarrow> (r, f\<lparr>wf_world := w'\<rparr>))
      else act_bind (win_sys (wn_file_size U (wf_handle f))) (check_quad U) f)"

definition win_size :: "'w win_os \<Rightarrow> ('w win_file, int) act" where
  "win_size U = act_catch_all (win_size2 U) (act_return (-1))"

definition win_exist :: "'w win_os \<Rightarrow> ('w win_file, bool) act" where
  "win_exist U f = win_sys (win_exist_static U (wf_path f)) f"

definition win_remove :: "'w win_os \<Rightarrow> ('w win_file, bool) act" where
  "win_remove U = act_bind (win_close U) (\<lambda>_ f. win_sys (win_remove_static U (wf_path f)) f)"

definition win_rename :: "'w win_os \<Rightarrow> path \<Rightarrow> ('w win_file, bool) act" where
  "win_rename U new_path = act_bind (win_sys (win_exist_static U new_path)) (\<lambda>ex.
     if ex then act_return False
     else act_bind (win_close U) (\<lambda>_.
       act_bind (\<lambda>f. win_sys (wn_move U (win_name f) (path_name new_path)) f) (\<lambda>ok.
         if ok then act_bind (act_update (\<lambda>f. f\<lparr>wf_path := new_path\<rparr>)) (\<lambda>_. act_return True)
         else act_return False)))"

definition win_time :: "'w win_os \<Rightarrow> tm \<times> tm \<times> tm \<Rightarrow> ('w win_file, bool \<times> (tm \<times> tm \<times> tm)) act" where
  "win_time U ts f =
     (if wf_handle f \<noteq> INVALID_HANDLE_VALUE then act_bind (win_sys (wn_file_time U (wf_handle f))) (\<lambda>r f.
        (Ret (case r of None \<Rightarrow> (False, ts) | Some fts \<Rightarrow> win_tms_of U (wf_world f) fts ts), f)) f
      else win_sys (win_time_static U (wf_path f) ts) f)"

text \<open>Temporary files. The buffers are not initialised, so a call that fails leaves nothing to read.\<close>

definition win_temp_in :: "'w win_os \<Rightarrow> path \<Rightarrow> string option \<Rightarrow> 'w \<Rightarrow> path outcome \<times> 'w" where
  "win_temp_in U dir prefix w =
     (case wn_temp_name U (path_name dir) (case prefix of None \<Rightarrow> ''tmp'' | Some p \<Rightarrow> p) w of
        (None, w') \<Rightarrow> (Undef, w') | (Some name, w') \<Rightarrow> (Ret name, w'))"

definition win_temp :: "'w win_os \<Rightarrow> string option \<Rightarrow> 'w \<Rightarrow> path outcome \<times> 'w" where
  "win_temp U prefix w =
     (case wn_temp_path U w of (None, w1) \<Rightarrow> (Undef, w1) | (Some dir, w1) \<Rightarrow>
      (case wn_temp_name U dir (case prefix of None \<Rightarrow> ''tmp'' | Some p \<Rightarrow> p) w1 of
        (None, w2) \<Rightarrow> (Undef, w2) | (Some name, w2) \<Rightarrow>
        (case win_exist_static U name w2 of (ex, w3) \<Rightarrow>
          (Ret name, if ex then snd (win_remove_static U name w3) else w3))))"

section \<open>What the calls are documented to do\<close>

text \<open>
  \<^verbatim>\<open>SetFilePointer\<close> answers the resulting position in its two parts. When the low part is all ones
  and there was no error, the last error is \<^verbatim>\<open>NO_ERROR\<close>; and so for \<^verbatim>\<open>GetFileSize\<close>. A view says
  which contents and which position a handle has.
\<close>

definition win_set_file_pointer :: "'w win_os \<Rightarrow> 'w fd_view \<Rightarrow> bool" where
  "win_set_file_pointer U V \<longleftrightarrow> (\<forall>w h c p d wh. V w h = Some (c, p) \<longrightarrow>
     (let t = seek_target c p d wh in - (2 ^ 63) \<le> d \<and> d < 2 ^ 63 \<and> 0 \<le> t \<and> t < 2 ^ 63 \<longrightarrow>
       (\<exists>w'. wn_set_pointer U h (low_part d) (high_part d) wh w = ((low_part t, high_part t), w') \<and>
          V w' = (V w)(h := Some (c, nat t)) \<and> (low_part t = INVALID_SET_FILE_POINTER \<longrightarrow> wn_last_error U w' = 0))))"

definition win_get_file_size :: "'w win_os \<Rightarrow> 'w fd_view \<Rightarrow> bool" where
  "win_get_file_size U V \<longleftrightarrow> (\<forall>w h c p. V w h = Some (c, p) \<longrightarrow> (let n = int (length c) in
     (\<exists>w'. wn_file_size U h w = ((low_part n, high_part n), w') \<and> V w' = V w \<and>
        (low_part n = INVALID_SET_FILE_POINTER \<longrightarrow> wn_last_error U w' = 0))))"

text \<open>A failure is reported with an error code; closing succeeds.\<close>

definition win_reports :: "'w win_os \<Rightarrow> bool" where
  "win_reports U \<longleftrightarrow> (\<forall>h w. fst (wn_close U h w)) \<and>
     (\<forall>n a s d w. fst (wn_create U n a s d w) = INVALID_HANDLE_VALUE \<longrightarrow> wn_last_error U (snd (wn_create U n a s d w)) \<noteq> 0)"

section \<open>Positions and sizes\<close>

lemma quad_parts: "- (2 ^ 63) \<le> t \<Longrightarrow> t < 2 ^ 63 \<Longrightarrow> quad_part (low_part t, high_part t) = t"
proof -
  assume t: "- (2 ^ 63) \<le> t" "t < 2 ^ 63"
  have "sint (of_int (t div 2 ^ 32) :: u32) = t div 2 ^ 32"
    using t by (simp add: signed_of_int signed_take_bit_int_eq_self)
  moreover have "uint (of_int t :: u32) = t mod 2 ^ 32" by (simp add: unsigned_of_int take_bit_eq_mod)
  ultimately show ?thesis
    unfolding quad_part_def low_part_def high_part_def fst_conv snd_conv using div_mult_mod_eq [of t "2 ^ 32"] by simp
qed

lemma win_sys_eq: "call (wf_world f) = (x, w') \<Longrightarrow> win_sys call f = (Ret x, f\<lparr>wf_world := w'\<rparr>)"
  by (simp add: win_sys_def)

lemma check_quad_parts:
  "0 \<le> t \<Longrightarrow> t < 2 ^ 63 \<Longrightarrow> (low_part t = INVALID_SET_FILE_POINTER \<longrightarrow> wn_last_error U (wf_world f) = 0) \<Longrightarrow>
    check_quad U (low_part t, high_part t) f = (Ret t, f)"
  by (auto simp: check_quad_def quad_parts)

lemma set_pointer_step:
  assumes "win_set_file_pointer U V" "V (wf_world f) (wf_handle f) = Some (c, p)"
    and "0 \<le> seek_target c p d wh" "seek_target c p d wh < 2 ^ 63" "- (2 ^ 63) \<le> d" "d < 2 ^ 63"
  obtains w' where "act_bind (\<lambda>f. win_sys (wn_set_pointer U (wf_handle f) (low_part d) (high_part d) wh) f) (check_quad U) f =
      (Ret (seek_target c p d wh), f\<lparr>wf_world := w'\<rparr>)"
    "V w' = (V (wf_world f))(wf_handle f := Some (c, nat (seek_target c p d wh)))"
proof -
  define t where "t = seek_target c p d wh"
  obtain w' where w': "wn_set_pointer U (wf_handle f) (low_part d) (high_part d) wh (wf_world f) = ((low_part t, high_part t), w')"
    "V w' = (V (wf_world f))(wf_handle f := Some (c, nat t))"
    "low_part t = INVALID_SET_FILE_POINTER \<longrightarrow> wn_last_error U w' = 0"
    using assms unfolding win_set_file_pointer_def Let_def t_def by blast
  have "check_quad U (low_part t, high_part t) (f\<lparr>wf_world := w'\<rparr>) = (Ret t, f\<lparr>wf_world := w'\<rparr>)"
    using assms(3,4) w'(3) by (intro check_quad_parts) (simp_all add: t_def)
  with w'(1) have "act_bind (\<lambda>f. win_sys (wn_set_pointer U (wf_handle f) (low_part d) (high_part d) wh) f) (check_quad U) f =
      (Ret t, f\<lparr>wf_world := w'\<rparr>)"
    by (simp add: act_bind_def win_sys_def)
  with w'(2) show thesis unfolding t_def by (rule that [rotated])
qed

text \<open>C31: On a system whose \<^verbatim>\<open>SetFilePointer\<close> and \<^verbatim>\<open>GetFileSize\<close> do what they are documented to do,
  seeking in an open file reaches every position below \<open>2 ^ 63\<close> and answers it, \<open>tell2\<close> then gives that position
  and \<open>size2\<close> the size, without moving: the two halves of a number are never mixed up with an error, also
  when the low one is all ones. (On Unix they are cut to 32 bits.)\<close>

theorem win_positions_exact:
  assumes "win_set_file_pointer U V" "win_get_file_size U V" "win_test f"
    and "V (wf_world f) (wf_handle f) = Some (c, p)" "length c < 2 ^ 63" "- (2 ^ 63) \<le> d" "d < 2 ^ 63"
    and "0 \<le> seek_target c p d (lseek_whence_of wh)" "seek_target c p d (lseek_whence_of wh) < 2 ^ 63"
  shows "\<exists>w1 w2 w3. win_seek2 U d wh f = (Ret (seek_target c p d (lseek_whence_of wh)), f\<lparr>wf_world := w1\<rparr>) \<and>
    win_tell2 U (f\<lparr>wf_world := w1\<rparr>) = (Ret (seek_target c p d (lseek_whence_of wh)), f\<lparr>wf_world := w2\<rparr>) \<and>
    win_size2 U (f\<lparr>wf_world := w2\<rparr>) = (Ret (int (length c)), f\<lparr>wf_world := w3\<rparr>) \<and>
    V w3 (wf_handle f) = Some (c, nat (seek_target c p d (lseek_whence_of wh)))"
proof -
  define t where "t = seek_target c p d (lseek_whence_of wh)"
  have t: "0 \<le> t" "t < 2 ^ 63" using assms(8,9) by (simp_all add: t_def)
  have check: "win_check_open g = (Ret (), g)" if "wf_handle g = wf_handle f" for g :: "'a win_file"
    using assms(3) that by (simp add: win_check_open_def win_test_def)
  let ?set = "\<lambda>d wh. act_bind (\<lambda>f. win_sys (wn_set_pointer U (wf_handle f) (low_part d) (high_part d) wh) f) (check_quad U)"
  obtain w1 where w1: "?set d (lseek_whence_of wh) f = (Ret t, f\<lparr>wf_world := w1\<rparr>)"
    "V w1 = (V (wf_world f))(wf_handle f := Some (c, nat t))"
    unfolding t_def by (rule set_pointer_step [OF assms(1,4,8,9,6,7)])
  let ?f1 = "f\<lparr>wf_world := w1\<rparr>"
  have s: "seek_target c (nat t) 0 Seek_Cur = t" using t by (simp add: seek_target_def)
  have v1: "V (wf_world ?f1) (wf_handle ?f1) = Some (c, nat t)" using w1(2) by simp
  obtain w2 where w2: "?set 0 Seek_Cur ?f1 = (Ret t, ?f1\<lparr>wf_world := w2\<rparr>)"
    "V w2 = (V w1)(wf_handle f := Some (c, nat t))"
    using set_pointer_step [OF assms(1) v1, of 0 Seek_Cur] t unfolding s by auto
  have seek: "win_seek2 U d wh f = (Ret t, f\<lparr>wf_world := w1\<rparr>)"
    using w1(1) by (simp add: win_seek2_def act_bind_Ret [where m = win_check_open, OF check])
  have tell: "win_tell2 U ?f1 = (Ret t, f\<lparr>wf_world := w2\<rparr>)"
    using w2(1) by (simp add: win_tell2_def act_bind_Ret [where m = win_check_open, OF check] low_part_def high_part_def)
  have v2: "V w2 (wf_handle f) = Some (c, nat t)" using w2(2) by simp
  obtain w3 where w3: "wn_file_size U (wf_handle f) w2 = ((low_part (int (length c)), high_part (int (length c))), w3)"
    "V w3 = V w2" "low_part (int (length c)) = INVALID_SET_FILE_POINTER \<longrightarrow> wn_last_error U w3 = 0"
    using assms(2) v2 unfolding win_get_file_size_def Let_def by blast
  have "check_quad U (low_part (int (length c)), high_part (int (length c))) (f\<lparr>wf_world := w3\<rparr>) = (Ret (int (length c)), f\<lparr>wf_world := w3\<rparr>)"
    using assms(5) w3(3) by (intro check_quad_parts) simp_all
  then have "win_size2 U (f\<lparr>wf_world := w2\<rparr>) = (Ret (int (length c)), f\<lparr>wf_world := w3\<rparr>)"
    using assms(3) w3(1) by (simp add: win_size2_def win_test_def act_bind_def win_sys_def)
  moreover have "V w3 (wf_handle f) = Some (c, nat t)" using w3(2) v2 by simp
  ultimately show ?thesis using seek tell unfolding t_def [symmetric] by blast
qed

text \<open>A system of one file for the examples. Handle 3 is made for reading, handle 4 for writing; no last
  error is ever set but by \<^verbatim>\<open>CreateFile\<close>.\<close>

definition one_win_os :: "bool \<Rightarrow> one_file win_os" where
  "one_win_os exists = \<lparr>wn_last_error = (\<lambda>w. if exists then 0 else 2), wn_message = (\<lambda>e. None),
     wn_create = (\<lambda>n a s d w. if exists \<or> d = CREATE_ALWAYS then (if a = GENERIC_READ then 3 else 4, (if d = CREATE_ALWAYS then [] else fst w, 0)) else (-1, w)),
     wn_close = (\<lambda>h w. (True, w)),
     wn_set_pointer = (\<lambda>h lo hi m w. let t = seek_target (fst w) (snd w) (quad_part (lo, hi)) m in
        if h = 3 \<and> 0 \<le> t then ((low_part t, high_part t), (fst w, nat t)) else ((-1, hi), w)),
     wn_file_size = (\<lambda>h w. ((low_part (int (length (fst w))), high_part (int (length (fst w)))), w)),
     wn_read = (\<lambda>h n w. let bs = take (unat n) (drop (snd w) (fst w)) in
        if h = 3 then (Some bs, (fst w, snd w + length bs)) else (None, w)),
     wn_write = (\<lambda>h bs w. (Some (of_nat (length bs)), overwrite w bs)),
     wn_attributes = (\<lambda>n w. (if exists then 0x80 else -1, w)), wn_delete = (\<lambda>n w. (True, w)),
     wn_move = (\<lambda>n m w. (True, w)), wn_file_time = (\<lambda>h w. (None, w)), wn_local_time = (\<lambda>t. None),
     wn_system_time = (\<lambda>t. None), wn_time_zone = (\<lambda>w. 1), wn_temp_path = (\<lambda>w. (None, w)), wn_temp_name = (\<lambda>d p w. (None, w))\<rparr>"

lemma one_win_set_file_pointer: "win_set_file_pointer (one_win_os True) one_file_view"
  unfolding win_set_file_pointer_def Let_def
  by (auto simp: one_win_os_def one_file_view_def quad_parts Let_def fun_eq_iff split: if_splits)

lemma one_win_get_file_size: "win_get_file_size (one_win_os True) one_file_view"
  unfolding win_get_file_size_def Let_def
  by (auto simp: one_win_os_def one_file_view_def split: if_splits)

definition one_win_file :: "one_file win_file" where
  "one_win_file = \<lparr>wf_handle = 3, wf_path = ''a'', wf_world = ([7, 8, 9], 2)\<rparr>"

theorem win_positions_exact_witness:
  "\<exists>w1 w2 w3. win_seek2 (one_win_os True) (-1) ckFILE_END one_win_file =
      (Ret (seek_target [7, 8, 9] 2 (-1) (lseek_whence_of ckFILE_END)), one_win_file\<lparr>wf_world := w1\<rparr>) \<and>
    win_tell2 (one_win_os True) (one_win_file\<lparr>wf_world := w1\<rparr>) =
      (Ret (seek_target [7, 8, 9] 2 (-1) (lseek_whence_of ckFILE_END)), one_win_file\<lparr>wf_world := w2\<rparr>) \<and>
    win_size2 (one_win_os True) (one_win_file\<lparr>wf_world := w2\<rparr>) =
      (Ret (int (length [7, 8, 9 :: byte])), one_win_file\<lparr>wf_world := w3\<rparr>) \<and>
    one_file_view w3 (wf_handle one_win_file) = Some ([7, 8, 9], nat (seek_target [7, 8, 9] 2 (-1) (lseek_whence_of ckFILE_END)))"
  by (rule win_positions_exact [OF one_win_set_file_pointer one_win_get_file_size])
    (simp_all add: one_win_file_def win_test_def INVALID_HANDLE_VALUE_def one_file_view_def seek_target_def lseek_whence_of_def)

section \<open>Opening\<close>

lemma win_close_ok:
  assumes "win_reports U"
  obtains w' where "win_close U f = (Ret (win_test f), f\<lparr>wf_handle := INVALID_HANDLE_VALUE, wf_world := w'\<rparr>)"
proof (cases "wf_handle f = INVALID_HANDLE_VALUE")
  case True
  then have "f = f\<lparr>wf_handle := INVALID_HANDLE_VALUE, wf_world := wf_world f\<rparr>" by (cases f) simp
  with True show thesis by (intro that [of "wf_world f"]) (simp add: win_close_def win_test_def)
next
  case False
  obtain w' where "wn_close U (wf_handle f) (wf_world f) = (True, w')"
    using assms unfolding win_reports_def by (metis prod.collapse)
  then have "win_sys (wn_close U (wf_handle f)) f = (Ret True, f\<lparr>wf_world := w'\<rparr>)" by (rule win_sys_eq)
  with False show thesis
    by (intro that [of w']) (simp add: win_close_def win_test_def act_bind_def act_update_def act_return_def)
qed

lemma win_file_destroy_closes:
  assumes "win_reports U"
  obtains w' where "win_file_destroy U f = (Ret (), f\<lparr>wf_handle := INVALID_HANDLE_VALUE, wf_world := w'\<rparr>)"
proof -
  obtain w' where "win_close U f = (Ret (win_test f), f\<lparr>wf_handle := INVALID_HANDLE_VALUE, wf_world := w'\<rparr>)"
    by (rule win_close_ok [OF assms])
  then show thesis by (intro that [of w']) (simp add: win_file_destroy_def act_bind_def act_return_def)
qed

text \<open>The error of a failed call and the prefix become the message.\<close>

lemma throw_from_last_error_Throw:
  "e \<noteq> 0 \<Longrightarrow> length name < 2 ^ 32 \<Longrightarrow>
    \<exists>m. throw_from_last_error g e (Some ''Error opening file \"%s\": '') [AStr name] = (Throw m :: 'a outcome)"
  by (simp add: throw_from_last_error_def throw_from_given_last_error_def build_last_error_msg_def prefix_msg_def vformatstr_expand)

text \<open>A successful \<open>open2\<close> leaves the handle \<^verbatim>\<open>CreateFile\<close> has given.\<close>

lemma win_open2_cases:
  assumes "win_reports U" "length (wf_path f) < 2 ^ 32"
  shows "(\<exists>w' h w''. wn_create U (win_name f) (fst (win_open_mode mode)) Share_read (snd (win_open_mode mode)) w' = (h, w'') \<and>
       win_open2 U mode f = (Ret (), f\<lparr>wf_handle := h, wf_world := w''\<rparr>) \<and> h \<noteq> INVALID_HANDLE_VALUE) \<or>
    (\<exists>m f'. win_open2 U mode f = (Throw m, f') \<and> \<not> win_test f')"
proof -
  obtain w1 where "win_close U f = (Ret (win_test f), f\<lparr>wf_handle := INVALID_HANDLE_VALUE, wf_world := w1\<rparr>)"
    by (rule win_close_ok [OF assms(1)])
  then have "\<exists>w2. win_open2_close U f = (Ret (), f\<lparr>wf_handle := INVALID_HANDLE_VALUE, wf_world := w2\<rparr>)"
    by (cases "win_test f"; cases f) (auto simp: win_open2_close_def win_test_def act_bind_def act_return_def)
  then obtain w2 where c: "win_open2_close U f = (Ret (), f\<lparr>wf_handle := INVALID_HANDLE_VALUE, wf_world := w2\<rparr>)" ..
  let ?create = "wn_create U (win_name f) (fst (win_open_mode mode)) Share_read (snd (win_open_mode mode))"
  obtain h w3 where h: "?create w2 = (h, w3)" by fastforce
  have name: "win_name (f\<lparr>wf_handle := a, wf_world := w\<rparr>) = win_name f"
      "win_name (f\<lparr>wf_world := w, wf_handle := a\<rparr>) = win_name f" for a w by (simp_all add: win_name_def)
  have body: "win_open2 U mode f = (if h = INVALID_HANDLE_VALUE then
       (throw_from_last_error (wn_message U) (wn_last_error U w3) (Some ''Error opening file \"%s\": '') [AStr (win_name f)],
        f\<lparr>wf_handle := h, wf_world := w3\<rparr>) else (Ret (), f\<lparr>wf_handle := h, wf_world := w3\<rparr>))"
    using c h name by (simp add: win_open2_def act_bind_def win_sys_def act_update_def)
  show ?thesis
  proof (cases "h = INVALID_HANDLE_VALUE")
    case True
    then have "wn_last_error U w3 \<noteq> 0" using assms(1) h unfolding win_reports_def by (metis fst_conv snd_conv)
    moreover have "length (win_name f) < 2 ^ 32" using assms(2) by (simp add: win_name_def path_name_def)
    ultimately obtain m where "throw_from_last_error (wn_message U) (wn_last_error U w3)
        (Some ''Error opening file \"%s\": '') [AStr (win_name f)] = (Throw m :: unit outcome)"
      using throw_from_last_error_Throw by blast
    with body True show ?thesis by (auto simp: win_test_def)
  next
    case False
    with body h show ?thesis by auto
  qed
qed

interpretation windows_open: file_opening "win_open2 U mode" win_test
    "\<lambda>f. win_reports U \<and> length (wf_path f) < 2 ^ 32" for U mode
proof
  fix f f' :: "'a win_file" and m
  assume r: "win_reports U \<and> length (wf_path f) < 2 ^ 32"
  show "(\<exists>f'. win_open2 U mode f = (Ret (), f')) \<or> (\<exists>m f'. win_open2 U mode f = (Throw m, f'))"
    using win_open2_cases [of U f mode] r by blast
  show "win_open2 U mode f = (Ret (), f') \<Longrightarrow> win_test f'"
    "win_open2 U mode f = (Throw m, f') \<Longrightarrow> \<not> win_test f'"
    using win_open2_cases [of U f mode] r by (auto simp: win_test_def)
qed

lemma windows_open_answers:
  "win_reports U \<Longrightarrow> length (wf_path f) < 2 ^ 32 \<Longrightarrow> \<exists>f'. win_open U mode f = (Ret (win_test f'), f')"
  using windows_open.open_answers [of U f mode] by (simp add: win_open_def)

text \<open>\<open>R w h\<close>: the handle gives the right to read. \<^verbatim>\<open>ReadFile\<close> fails without it.\<close>

definition win_access_rights :: "'w win_os \<Rightarrow> ('w \<Rightarrow> int \<Rightarrow> bool) \<Rightarrow> bool" where
  "win_access_rights U R \<longleftrightarrow>
     (\<forall>n a s d w h w'. wn_create U n a s d w = (h, w') \<longrightarrow> h \<noteq> INVALID_HANDLE_VALUE \<longrightarrow> R w' h = (a = GENERIC_READ)) \<and>
     (\<forall>w h n. \<not> R w h \<longrightarrow> fst (wn_read U h n w) = None)"

text \<open>A file opened with \<open>ckOPEN_READWRITE\<close> cannot be read on Windows: \<open>open\<close> answers true, but asks for
  \<^verbatim>\<open>GENERIC_WRITE\<close> only, and every \<open>read\<close> after it answers -1.\<close>

theorem win_readwrite_cannot_read:
  assumes "win_access_rights U R" "win_reports U" "length (wf_path f) < 2 ^ 32"
    and "win_open U ckOPEN_READWRITE f = (Ret True, f')"
  shows "win_test f' \<and> fst (win_read U count f') = -1"
proof -
  have "win_open2 U ckOPEN_READWRITE f = (Ret (), f')"
    using assms(4) win_open2_cases [OF assms(2,3), of ckOPEN_READWRITE]
    by (auto simp: win_open_def act_catch_all_def act_bind_def act_return_def)
  then obtain w' h w'' where h: "wn_create U (win_name f) GENERIC_WRITE Share_read OPEN_EXISTING w' = (h, w'')"
    "f' = f\<lparr>wf_handle := h, wf_world := w''\<rparr>" "h \<noteq> INVALID_HANDLE_VALUE"
    using win_open2_cases [OF assms(2,3), of ckOPEN_READWRITE] by (auto simp: win_open_mode_def)
  then have "\<not> R w'' h" using assms(1) unfolding win_access_rights_def by fastforce
  then have "fst (wn_read U h (of_int count) w'') = None" using assms(1) by (simp add: win_access_rights_def)
  with h(2,3) show ?thesis by (auto simp: win_test_def win_read_def split: prod.splits option.splits)
qed

lemma one_win_reports: "win_reports (one_win_os b)"
  by (auto simp: win_reports_def one_win_os_def INVALID_HANDLE_VALUE_def)

lemma one_win_access_rights: "win_access_rights (one_win_os b) (\<lambda>w h. h = 3)"
  by (auto simp: win_access_rights_def one_win_os_def INVALID_HANDLE_VALUE_def Let_def split: if_splits)

theorem win_readwrite_cannot_read_witness:
  "win_test (one_win_file\<lparr>wf_handle := 4, wf_world := ([7, 8, 9], 0)\<rparr>) \<and>
   fst (win_read (one_win_os True) 3 (one_win_file\<lparr>wf_handle := 4, wf_world := ([7, 8, 9], 0)\<rparr>)) = -1"
  by (rule win_readwrite_cannot_read [where f = "win_File ''a'' ([7, 8, 9], 0)", OF one_win_access_rights one_win_reports])
    (simp_all add: win_File_def one_win_file_def one_win_os_def win_open_def win_open2_def win_open2_close_def win_open_mode_def
      win_sys_def act_defs INVALID_HANDLE_VALUE_def)

text \<open>Of a closed file, \<open>size2\<close> asks \<open>size\<close> and so answers -1 where it should throw.\<close>

lemma win_size2_closed_no_throw: "\<not> win_test f \<Longrightarrow> fst (win_size2 U f) \<noteq> Throw m"
  using act_catch_all_no_throw [of "act_return (-1)" m "win_size2_static U (wf_path f)" "wf_world f"]
  by (auto simp: win_size2_def win_size_static_def split: prod.splits)

end
