(* ===== verification/File_Systems.thy ===== *)
theory File_Systems
  imports File_Stream Windows_File
begin

text \<open>
  The classes \<open>File\<close> of both platforms fulfil what the file streams rely on, on every system whose calls do
  what they are documented to do: the locales \<open>posix_reader\<close>, \<open>posix_writer\<close>, \<open>win_reader\<close> and \<open>win_writer\<close> collect the documentation,
  which the systems of one file satisfy. So copying to and from files is correct on both.
\<close>

definition unix_file_class :: "'w unix_os \<Rightarrow> 'w unix_file file_class" where
  "unix_file_class U = \<lparr>fc_open2 = file_open2 U, fc_close = file_close U, fc_test = file_test,
     fc_seek2 = file_seek2 U, fc_read = file_read U, fc_write = file_write U, fc_size2 = file_size2 U\<rparr>"

definition win_file_class :: "'w win_os \<Rightarrow> 'w win_file file_class" where
  "win_file_class U = \<lparr>fc_open2 = win_open2 U, fc_close = win_close U, fc_test = win_test,
     fc_seek2 = win_seek2 U, fc_read = win_read U, fc_write = win_write U, fc_size2 = win_size2 U\<rparr>"

section \<open>The class on Unix\<close>

text \<open>
  A view gives the contents and the offset of the descriptors that may be read, or of those that
  may be written. \<^verbatim>\<open>read\<close> on a regular file gives a prefix of what is left, at least one byte unless there
  is none; \<^verbatim>\<open>write\<close> takes all the bytes, below the largest \<^verbatim>\<open>off_t\<close>.
\<close>

definition posix_read :: "'w unix_os \<Rightarrow> 'w fd_view \<Rightarrow> bool" where
  "posix_read U V \<longleftrightarrow> (\<forall>w fd c p n. V w fd = Some (c, p) \<longrightarrow> 0 < n \<longrightarrow>
     (\<exists>bs w' rest. ux_read U fd n w = (int (length bs), bs, w') \<and> length bs \<le> nat n \<and>
        drop p c = bs @ rest \<and> (rest \<noteq> [] \<longrightarrow> bs \<noteq> []) \<and> V w' = (V w)(fd := Some (c, p + length bs))))"

definition posix_write :: "'w unix_os \<Rightarrow> 'w fd_view \<Rightarrow> bool" where
  "posix_write U V \<longleftrightarrow> (\<forall>w fd c p bs. V w fd = Some (c, p) \<longrightarrow> p + length bs < 2 ^ 63 \<longrightarrow>
     (\<exists>w'. ux_write U fd bs w = (int (length bs), w') \<and> V w' = (V w)(fd := Some (overwrite (c, p) bs))))"

text \<open>
  \<open>D w name\<close> are the contents of the regular file \<open>name\<close>: opening it gives a new descriptor at
  offset 0 (the contents stay, there is no \<^verbatim>\<open>O_TRUNC\<close>), \<^verbatim>\<open>stat\<close> answers its
  size, and a lock that nobody else wants is granted.
\<close>

definition posix_open :: "'w unix_os \<Rightarrow> 'w fd_view \<Rightarrow> ('w \<Rightarrow> string \<Rightarrow> byte list option) \<Rightarrow> FileMode \<Rightarrow> bool" where
  "posix_open U V D mode \<longleftrightarrow> (\<forall>w name c. D w name = Some c \<longrightarrow>
     (\<exists>h w'. ux_open U name (open_flags_of mode) w = (h, w') \<and> h \<noteq> -1 \<and> V w' h = Some (c, 0)))"

definition posix_stat :: "'w unix_os \<Rightarrow> ('w \<Rightarrow> string \<Rightarrow> byte list option) \<Rightarrow> bool" where
  "posix_stat U D \<longleftrightarrow> (\<forall>w name c. D w name = Some c \<longrightarrow>
     (\<exists>st w'. ux_stat U name w = (Some st, w') \<and> st_size st = int (length c) \<and> D w' = D w))"

definition posix_lock :: "'w unix_os \<Rightarrow> 'w fd_view \<Rightarrow> bool \<Rightarrow> bool" where
  "posix_lock U V wr \<longleftrightarrow> (\<forall>w fd. V w fd \<noteq> None \<longrightarrow> (\<exists>w'. ux_setlk U fd wr w = (0, w') \<and> V w' = V w))"

definition unix_view :: "'w fd_view \<Rightarrow> 'w unix_file \<Rightarrow> (byte list \<times> nat) option" where
  "unix_view V f = (if file_test f then V (f_world f) (f_handle f) else None)"

definition unix_disk :: "('w \<Rightarrow> string \<Rightarrow> byte list option) \<Rightarrow> 'w unix_file \<Rightarrow> byte list option" where
  "unix_disk D f = (if file_test f then None else D (f_world f) (file_name f))"

lemma unix_open2_ok:
  assumes "posix_open U V D mode" "posix_lock U V (mode \<noteq> ckOPEN_READ)" "unix_disk D f = Some c"
  shows "\<exists>f'. file_open2 U mode f = (Ret (), f') \<and> unix_view V f' = Some (c, 0)"
proof -
  from assms(3) have d: "D (f_world f) (file_name f) = Some c" "f_handle f = -1"
    by (auto simp: unix_disk_def file_test_def split: if_splits)
  obtain h w1 where o: "ux_open U (file_name f) (open_flags_of mode) (f_world f) = (h, w1)" "h \<noteq> -1" "V w1 h = Some (c, 0)"
    using assms(1) d(1) unfolding posix_open_def by meson
  then have "V w1 h \<noteq> None" by simp
  then obtain w2 where l: "ux_setlk U h (mode \<noteq> ckOPEN_READ) w1 = (0, w2)" "V w2 = V w1"
    using assms(2) unfolding posix_lock_def by meson
  have "open2_body U mode f = (Ret (), f\<lparr>f_handle := h, f_world := w2\<rparr>)"
    using o l d(2)
    by (simp add: open2_body_def open2_close_def act_bind_def sys_def act_update_def open2_lock_def act_return_def)
  with o l show ?thesis
    by (intro exI [of _ "f\<lparr>f_handle := h, f_world := w2\<rparr>"])
      (simp_all add: file_open2_def act_catch_simps(1) unix_view_def file_test_def)
qed

lemma unix_reading: "posix_read U V \<Longrightarrow> file_reading (unix_file_class U) (unix_view V)"
proof
  fix f :: "'a unix_file" and c p n
  assume rd: "posix_read U V" and v: "unix_view V f = Some (c, p)" and n: "0 < unat (n :: u32)"
  from v have h: "f_handle f \<noteq> -1" "V (f_world f) (f_handle f) = Some (c, p)"
    by (auto simp: unix_view_def file_test_def split: if_splits)
  have pos: "0 < int (unat n)" using n by (simp only: of_nat_0_less_iff)
  obtain bs w' rest where r: "ux_read U (f_handle f) (int (unat n)) (f_world f) = (int (length bs), bs, w')"
    "length bs \<le> nat (int (unat n))" "drop p c = bs @ rest" "rest \<noteq> [] \<longrightarrow> bs \<noteq> []"
    "V w' = (V (f_world f))(f_handle f := Some (c, p + length bs))"
    using rd h(2) pos unfolding posix_read_def by blast
  with h(1) show "\<exists>bs f' rest. fc_read (unix_file_class U) (int (unat n)) f = (int (length bs), bs, f') \<and>
      length bs \<le> unat n \<and> drop p c = bs @ rest \<and> (rest \<noteq> [] \<longrightarrow> bs \<noteq> []) \<and> unix_view V f' = Some (c, p + length bs)"
    by (intro exI [of _ bs] exI [of _ "f\<lparr>f_world := w'\<rparr>"] exI [of _ rest])
      (simp add: unix_file_class_def file_read_def unix_view_def file_test_def)
qed (simp_all add: unix_view_def unix_file_class_def split: if_splits)

locale posix_reader =
  fixes U :: "'w unix_os" and V :: "'w fd_view" and D :: "'w \<Rightarrow> string \<Rightarrow> byte list option"
  assumes opens: "posix_open U V D ckOPEN_READ" and stats: "posix_stat U D" and locks: "posix_lock U V False"
    and reads: "posix_read U V" and seeks: "posix_lseek U V"
begin

sublocale file_opening_read "unix_file_class U" "unix_view V" "2 ^ 31" "unix_disk D"
proof (intro file_opening_read.intro file_seeking.intro unix_reading reads; unfold_locales)
  fix f :: "'w unix_file" and c p d wh
  let ?t = "seek_target c p d (lseek_whence_of wh)"
  assume v: "unix_view V f = Some (c, p)" and t: "0 \<le> ?t" "?t < 2 ^ 31"
  then have h: "file_test f" "V (f_world f) (f_handle f) = Some (c, p)"
    by (auto simp: unix_view_def split: if_splits)
  have i: "to_c_int ?t = ?t" using t by (intro to_c_int_small) simp_all
  then have m: "to_c_int ?t \<noteq> -1" using t(1) by linarith
  obtain w' where "file_seek2 U d wh f = (Ret ?t, f\<lparr>f_world := w'\<rparr>)" "V w' = (V (f_world f))(f_handle f := Some (c, nat ?t))"
    using seek2_ok [OF seeks h t(1) m] unfolding i by blast
  with h(1) show "\<exists>f'. fc_seek2 (unix_file_class U) d wh f = (Ret ?t, f') \<and> unix_view V f' = Some (c, nat ?t)"
    by (intro exI [of _ "f\<lparr>f_world := w'\<rparr>"]) (simp add: unix_file_class_def unix_view_def file_test_def)
next
  fix f :: "'w unix_file" and c
  assume "unix_disk D f = Some c"
  then have d: "D (f_world f) (file_name f) = Some c" "\<not> file_test f" by (auto simp: unix_disk_def split: if_splits)
  obtain st w' where "ux_stat U (file_name f) (f_world f) = (Some st, w')" "st_size st = int (length c)" "D w' = D (f_world f)"
    using stats d(1) unfolding posix_stat_def by meson
  with d show "\<exists>f'. fc_size2 (unix_file_class U) f = (Ret (int (length c)), f') \<and> unix_disk D f' = Some c"
    by (intro exI [of _ "f\<lparr>f_world := w'\<rparr>"])
      (simp add: unix_file_class_def file_size2_def size2_static_def unix_disk_def file_name_def file_test_def)
next
  fix f :: "'w unix_file" and c
  assume "unix_disk D f = Some c"
  moreover have "posix_lock U V (ckOPEN_READ \<noteq> ckOPEN_READ)" using locks by simp
  ultimately show "\<exists>f'. fc_open2 (unix_file_class U) ckOPEN_READ f = (Ret (), f') \<and> unix_view V f' = Some (c, 0)"
    using unix_open2_ok [OF opens] by (simp add: unix_file_class_def)
qed simp

lemmas unix_copy_to_memory = copy_to_memory

end

locale posix_writer =
  fixes U :: "'w unix_os" and V :: "'w fd_view" and D :: "'w \<Rightarrow> string \<Rightarrow> byte list option"
  assumes opens: "posix_open U V D ckOPEN_WRITE" and locks: "posix_lock U V True" and writes: "posix_write U V"
begin

sublocale file_writing "unix_file_class U" "unix_view V" "unix_disk D" "\<lambda>c. c"
proof
  fix f :: "'w unix_file" and c
  assume "unix_disk D f = Some c"
  moreover have "posix_lock U V (ckOPEN_WRITE \<noteq> ckOPEN_READ)" using locks by simp
  ultimately show "\<exists>f'. fc_open2 (unix_file_class U) ckOPEN_WRITE f = (Ret (), f') \<and> unix_view V f' = Some (c, 0)"
    using unix_open2_ok [OF opens] by (simp add: unix_file_class_def)
next
  fix f :: "'w unix_file" and cp and bs :: "byte list"
  assume v: "unix_view V f = Some cp" and l: "snd cp + length bs < 2 ^ 63"
  obtain c p where cp: "cp = (c, p)" by fastforce
  from v have h: "f_handle f \<noteq> -1" "V (f_world f) (f_handle f) = Some (c, p)"
    by (auto simp: unix_view_def file_test_def cp split: if_splits)
  obtain w' where "ux_write U (f_handle f) bs (f_world f) = (int (length bs), w')"
    "V w' = (V (f_world f))(f_handle f := Some (overwrite (c, p) bs))"
    using writes h(2) l unfolding posix_write_def cp by fastforce
  with h(1) show "\<exists>f'. fc_write (unix_file_class U) bs f = (int (length bs), f') \<and> unix_view V f' = Some (overwrite cp bs)"
    by (intro exI [of _ "f\<lparr>f_world := w'\<rparr>"]) (simp add: unix_file_class_def file_write_def unix_view_def file_test_def cp)
qed

lemmas unix_copy_from_memory = copy_from_memory

end

definition one_file_dir :: "one_file \<Rightarrow> string \<Rightarrow> byte list option" where
  "one_file_dir w name = Some (fst w)"

lemma one_file_posix:
  "posix_read one_file_os one_file_view" "posix_open one_file_os one_file_view one_file_dir mode"
  "posix_stat one_file_os one_file_dir" "posix_lock one_file_os one_file_view wr"
  "posix_write one_file_os one_file_view"
  by (auto simp: posix_read_def posix_write_def posix_open_def posix_stat_def posix_lock_def one_file_os_def one_file_view_def
      one_file_dir_def fun_eq_iff Let_def split: if_splits)
     (auto intro: append_take_drop_id [symmetric])

interpretation one_file_in: posix_reader one_file_os one_file_view one_file_dir
  by unfold_locales (rule one_file_posix one_file_posix_lseek)+

interpretation one_file_out: posix_writer one_file_os one_file_view one_file_dir
  by unfold_locales (rule one_file_posix)+

section \<open>The class on Windows\<close>

text \<open>
  The same for the calls of Windows. \<^verbatim>\<open>CREATE_ALWAYS\<close> empties the file; opening an existing file, asking for its size
  and closing it leave all contents.
\<close>

definition win_create_file :: "'w win_os \<Rightarrow> 'w fd_view \<Rightarrow> ('w \<Rightarrow> string \<Rightarrow> byte list option)
    \<Rightarrow> win_access \<Rightarrow> win_share \<Rightarrow> win_disposition \<Rightarrow> bool" where
  "win_create_file U V D a s disp \<longleftrightarrow> (\<forall>w name c. D w name = Some c \<longrightarrow>
     (\<exists>h w'. wn_create U name a s disp w = (h, w') \<and> h \<noteq> INVALID_HANDLE_VALUE \<and>
        V w' h = Some (if disp = CREATE_ALWAYS then [] else c, 0) \<and> (disp = OPEN_EXISTING \<longrightarrow> D w' = D w)))"

definition win_keeps_files :: "'w win_os \<Rightarrow> ('w \<Rightarrow> string \<Rightarrow> byte list option) \<Rightarrow> bool" where
  "win_keeps_files U D \<longleftrightarrow> (\<forall>h w. D (snd (wn_file_size U h w)) = D w \<and> D (snd (wn_close U h w)) = D w)"

definition win_read_file :: "'w win_os \<Rightarrow> 'w fd_view \<Rightarrow> bool" where
  "win_read_file U V \<longleftrightarrow> (\<forall>w h c p n. V w h = Some (c, p) \<longrightarrow> 0 < unat n \<longrightarrow>
     (\<exists>bs w' rest. wn_read U h n w = (Some bs, w') \<and> length bs \<le> unat n \<and>
        drop p c = bs @ rest \<and> (rest \<noteq> [] \<longrightarrow> bs \<noteq> []) \<and> V w' = (V w)(h := Some (c, p + length bs))))"

definition win_write_file :: "'w win_os \<Rightarrow> 'w fd_view \<Rightarrow> bool" where
  "win_write_file U V \<longleftrightarrow> (\<forall>w h c p bs. V w h = Some (c, p) \<longrightarrow> length bs < 2 ^ 32 \<longrightarrow> p + length bs < 2 ^ 63 \<longrightarrow>
     (\<exists>w'. wn_write U h bs w = (Some (of_nat (length bs)), w') \<and> V w' = (V w)(h := Some (overwrite (c, p) bs))))"

definition win_view :: "'w fd_view \<Rightarrow> 'w win_file \<Rightarrow> (byte list \<times> nat) option" where
  "win_view V f = (if win_test f then V (wf_world f) (wf_handle f) else None)"

definition win_disk :: "('w \<Rightarrow> string \<Rightarrow> byte list option) \<Rightarrow> 'w win_file \<Rightarrow> byte list option" where
  "win_disk D f = (if win_test f then None else D (wf_world f) (win_name f))"

lemma win_open2_ok:
  assumes "win_create_file U V D (fst (win_open_mode mode)) Share_read (snd (win_open_mode mode))" "win_disk D f = Some c"
  shows "\<exists>f'. win_open2 U mode f = (Ret (), f') \<and>
    win_view V f' = Some (if snd (win_open_mode mode) = CREATE_ALWAYS then [] else c, 0)"
proof -
  from assms(2) have d: "D (wf_world f) (win_name f) = Some c" "wf_handle f = INVALID_HANDLE_VALUE"
    by (auto simp: win_disk_def win_test_def split: if_splits)
  obtain h w' where o: "wn_create U (win_name f) (fst (win_open_mode mode)) Share_read (snd (win_open_mode mode)) (wf_world f) = (h, w')"
    "h \<noteq> INVALID_HANDLE_VALUE" "V w' h = Some (if snd (win_open_mode mode) = CREATE_ALWAYS then [] else c, 0)"
    using assms(1) d(1) unfolding win_create_file_def by meson
  with d(2) show ?thesis
    by (intro exI [of _ "f\<lparr>wf_handle := h, wf_world := w'\<rparr>"])
      (simp add: win_open2_def win_open2_close_def act_bind_def win_sys_def act_update_def win_view_def win_test_def)
qed

text \<open>The size of a closed file is asked of a handle made for it.\<close>

lemma win_size2_closed:
  assumes "win_create_file U V D GENERIC_READ Share_read_write OPEN_EXISTING" "win_get_file_size U V" "win_keeps_files U D"
    and "win_disk D f = Some c" "length c < 2 ^ 63"
  shows "\<exists>f'. win_size2 U f = (Ret (int (length c)), f') \<and> win_disk D f' = Some c"
proof -
  from assms(4) have d: "D (wf_world f) (win_name f) = Some c" "\<not> win_test f" by (auto simp: win_disk_def split: if_splits)
  let ?create = "wn_create U (win_name f) GENERIC_READ Share_read_write OPEN_EXISTING (wf_world f)"
  have "\<exists>h w'. ?create = (h, w') \<and> h \<noteq> INVALID_HANDLE_VALUE \<and> V w' h = Some (c, 0) \<and> D w' = D (wf_world f)"
    using assms(1) d(1) unfolding win_create_file_def by fastforce
  then obtain h w1 where o: "?create = (h, w1)" "h \<noteq> INVALID_HANDLE_VALUE" "V w1 h = Some (c, 0)" "D w1 = D (wf_world f)"
    by blast
  define n where "n = int (length c)"
  obtain w2 where z: "wn_file_size U h w1 = ((low_part n, high_part n), w2)"
    "low_part n = INVALID_SET_FILE_POINTER \<longrightarrow> wn_last_error U w2 = 0"
    using assms(2) o(3) unfolding win_get_file_size_def Let_def n_def by blast
  obtain ok w3 where k: "wn_close U h w2 = (ok, w3)" by fastforce
  have D3: "D w3 = D (wf_world f)" using assms(3) z(1) k o(4) unfolding win_keeps_files_def by (metis snd_conv)
  have q: "quad_part (low_part n, high_part n) = n" using assms(5) by (intro quad_parts) (simp_all add: n_def)
  have t: "\<not> (low_part n = 0xffffffff \<and> wn_last_error U w2 \<noteq> 0)"
    using z(2) by (simp add: INVALID_SET_FILE_POINTER_def)
  have "win_size2_try U (wf_path f) (wf_world f) = (Ret n, w3)"
    using o(1,2) z(1) k t q unfolding win_name_def win_size2_try_def by (simp only: prod.case fst_conv if_False)
  then have "win_size_static U (wf_path f) (wf_world f) = (Ret n, w3)"
    by (simp add: win_size_static_def win_size2_static_def act_catch_all_def act_catch_def)
  with d D3 show ?thesis
    by (intro exI [of _ "f\<lparr>wf_world := w3\<rparr>"]) (simp add: win_size2_def win_disk_def win_test_def win_name_def n_def)
qed

locale win_reader =
  fixes U :: "'w win_os" and V :: "'w fd_view" and D :: "'w \<Rightarrow> string \<Rightarrow> byte list option"
  assumes opens: "win_create_file U V D GENERIC_READ Share_read OPEN_EXISTING"
    and queries: "win_create_file U V D GENERIC_READ Share_read_write OPEN_EXISTING"
    and sizes: "win_get_file_size U V" and keeps: "win_keeps_files U D"
    and reads: "win_read_file U V" and seeks: "win_set_file_pointer U V"
begin

sublocale file_opening_read "win_file_class U" "win_view V" "2 ^ 63" "win_disk D"
proof
  fix f :: "'w win_file" and c p n
  assume v: "win_view V f = Some (c, p)" and n: "0 < unat (n :: u32)"
  then have h: "wf_handle f \<noteq> INVALID_HANDLE_VALUE" "V (wf_world f) (wf_handle f) = Some (c, p)"
    by (auto simp: win_view_def win_test_def split: if_splits)
  have n': "of_int (int (unat n)) = n" by simp
  obtain bs w' rest where r: "wn_read U (wf_handle f) n (wf_world f) = (Some bs, w')" "length bs \<le> unat n"
    "drop p c = bs @ rest" "rest \<noteq> [] \<longrightarrow> bs \<noteq> []" "V w' = (V (wf_world f))(wf_handle f := Some (c, p + length bs))"
    using reads h(2) n unfolding win_read_file_def by blast
  have "win_read U (int (unat n)) f = (int (length bs), bs, f\<lparr>wf_world := w'\<rparr>)"
    unfolding win_read_def n' using h(1) r(1) by simp
  with h(1) r show "\<exists>bs f' rest. fc_read (win_file_class U) (int (unat n)) f = (int (length bs), bs, f') \<and>
      length bs \<le> unat n \<and> drop p c = bs @ rest \<and> (rest \<noteq> [] \<longrightarrow> bs \<noteq> []) \<and> win_view V f' = Some (c, p + length bs)"
    by (intro exI [of _ bs] exI [of _ "f\<lparr>wf_world := w'\<rparr>"] exI [of _ rest])
      (simp add: win_file_class_def win_view_def win_test_def)
next
  fix f :: "'w win_file" and c p d wh
  let ?t = "seek_target c p d (lseek_whence_of wh)"
  assume v: "win_view V f = Some (c, p)" and d: "0 \<le> d" "d < 2 ^ 32" and t: "0 \<le> ?t" "?t < 2 ^ 63"
  from v have h: "win_test f" "V (wf_world f) (wf_handle f) = Some (c, p)"
    by (auto simp: win_view_def split: if_splits)
  have d': "- (2 ^ 63) \<le> d" "d < 2 ^ 63" using d by simp_all
  obtain w' where w': "act_bind (\<lambda>f. win_sys (wn_set_pointer U (wf_handle f) (low_part d) (high_part d) (lseek_whence_of wh)) f) (check_quad U) f =
      (Ret ?t, f\<lparr>wf_world := w'\<rparr>)" "V w' = (V (wf_world f))(wf_handle f := Some (c, nat ?t))"
    by (rule set_pointer_step [OF seeks h(2) t d'])
  have "win_check_open f = (Ret (), f)" using h(1) by (simp add: win_check_open_def)
  with w'(1) have "win_seek2 U d wh f = (Ret ?t, f\<lparr>wf_world := w'\<rparr>)"
    by (simp add: win_seek2_def act_bind_Ret [where m = win_check_open])
  with w'(2) h(1) show "\<exists>f'. fc_seek2 (win_file_class U) d wh f = (Ret ?t, f') \<and> win_view V f' = Some (c, nat ?t)"
    by (intro exI [of _ "f\<lparr>wf_world := w'\<rparr>"]) (simp add: win_file_class_def win_view_def win_test_def)
next
  fix f :: "'w win_file" and c
  assume "win_disk D f = Some c" "length c < 2 ^ 63"
  then show "\<exists>f'. fc_size2 (win_file_class U) f = (Ret (int (length c)), f') \<and> win_disk D f' = Some c"
    using win_size2_closed [OF queries sizes keeps] by (simp add: win_file_class_def)
next
  fix f :: "'w win_file" and c
  assume "win_disk D f = Some c"
  then show "\<exists>f'. fc_open2 (win_file_class U) ckOPEN_READ f = (Ret (), f') \<and> win_view V f' = Some (c, 0)"
    using win_open2_ok [of U V D ckOPEN_READ f c] opens by (simp add: win_file_class_def win_open_mode_def)
qed (simp_all add: win_view_def win_file_class_def split: if_splits)

lemmas windows_copy_to_memory = copy_to_memory

end

locale win_writer =
  fixes U :: "'w win_os" and V :: "'w fd_view" and D :: "'w \<Rightarrow> string \<Rightarrow> byte list option"
  assumes opens: "win_create_file U V D GENERIC_WRITE Share_read CREATE_ALWAYS" and writes: "win_write_file U V"
begin

sublocale file_writing "win_file_class U" "win_view V" "win_disk D" "\<lambda>c. []"
proof
  fix f :: "'w win_file" and c
  assume "win_disk D f = Some c"
  then show "\<exists>f'. fc_open2 (win_file_class U) ckOPEN_WRITE f = (Ret (), f') \<and> win_view V f' = Some ([], 0)"
    using win_open2_ok [of U V D ckOPEN_WRITE f c] opens by (simp add: win_file_class_def win_open_mode_def)
next
  fix f :: "'w win_file" and cp and bs :: "byte list"
  assume v: "win_view V f = Some cp" and l: "length bs < 2 ^ 32" "snd cp + length bs < 2 ^ 63"
  obtain c p where cp: "cp = (c, p)" by fastforce
  from v have h: "wf_handle f \<noteq> INVALID_HANDLE_VALUE" "V (wf_world f) (wf_handle f) = Some (c, p)"
    by (auto simp: win_view_def win_test_def cp split: if_splits)
  obtain w' where w': "wn_write U (wf_handle f) bs (wf_world f) = (Some (of_nat (length bs)), w')"
    "V w' = (V (wf_world f))(wf_handle f := Some (overwrite (c, p) bs))"
    using writes h(2) l unfolding win_write_file_def cp by fastforce
  have u: "unat (of_nat (length bs) :: u32) = length bs" using l(1) by simp
  then have "uint (of_nat (length bs) :: u32) = int (length bs)" by (metis uint_nat)
  with w'(1) h(1) u have "win_write U bs f = (int (length bs), f\<lparr>wf_world := w'\<rparr>)"
    by (simp add: win_write_def)
  with w'(2) h(1) show "\<exists>f'. fc_write (win_file_class U) bs f = (int (length bs), f') \<and> win_view V f' = Some (overwrite cp bs)"
    by (intro exI [of _ "f\<lparr>wf_world := w'\<rparr>"]) (simp add: win_file_class_def win_view_def win_test_def cp)
qed

lemmas windows_copy_from_memory = copy_from_memory

end

text \<open>In the system of one file, handle 4 is the one that may be written.\<close>

definition one_win_write_view :: "one_file fd_view" where
  "one_win_write_view w h = (if h = 4 then Some w else None)"

lemma one_win_files:
  "win_create_file (one_win_os True) one_file_view one_file_dir GENERIC_READ s OPEN_EXISTING"
  "win_create_file (one_win_os True) one_win_write_view one_file_dir GENERIC_WRITE s CREATE_ALWAYS"
  "win_keeps_files (one_win_os True) one_file_dir"
  by (auto simp: win_create_file_def win_keeps_files_def one_win_os_def one_file_view_def one_win_write_view_def one_file_dir_def
      INVALID_HANDLE_VALUE_def)

lemma one_win_read_write:
  "win_read_file (one_win_os True) one_file_view" "win_write_file (one_win_os True) one_win_write_view"
  by (auto simp: win_read_file_def win_write_file_def one_win_os_def one_file_view_def one_win_write_view_def fun_eq_iff Let_def
      split: if_splits)
     (auto intro: append_take_drop_id [symmetric])

interpretation one_win_in: win_reader "one_win_os True" one_file_view one_file_dir
  by unfold_locales (rule one_win_files one_win_read_write one_win_set_file_pointer one_win_get_file_size)+

interpretation one_win_out: win_writer "one_win_os True" one_win_write_view one_file_dir
  by unfold_locales (rule one_win_files one_win_read_write)+

section \<open>Theorems\<close>

text \<open>C14: On a Unix system that behaves as documented, a \<^verbatim>\<open>FileInStream\<close> on an existing file opens, moves to any
  position below 2 GiB, and copying it into a memory stream gives exactly the contents of the file from there, however
  short the single reads of the system are; then it is at its end.\<close>

theorem file_to_memory_copy:
  assumes "posix_open U V D ckOPEN_READ" "posix_stat U D" "posix_lock U V False" "posix_read U V" "posix_lseek U V"
    and "D w path = Some c" "length c \<le> 2 ^ 31" "int (unat d) < 2 ^ 31" "length buf = BUFFER_SIZE" "length c < n"
  shows "\<exists>s0 s1 s2 i' s'. FileInStream (unix_file_class U) (File path w) = (Ret (), s0) \<and>
    file_in_open (unix_file_class U) s0 = (Ret True, s1) \<and>
    is_seek (file_in_stream (unix_file_class U)) d ckSTREAM_BEGIN s1 = Ret (True, s2) \<and>
    copy (file_in_stream (unix_file_class U)) (memory_out_stream alloc_ok) n buf s2 (MemoryOutStream alloc_ok k) =
      Ret (True, i', s') \<and>
    file_in_end i' \<and> memory_contents s' = drop (unat d) c"
proof -
  have r: "posix_reader U V D" using assms(1-5) by (intro posix_reader.intro)
  have d: "unix_disk D (File path w) = Some c"
    using assms(6) by (simp add: unix_disk_def File_def file_name_def path_name_def file_test_def)
  show ?thesis by (rule posix_reader.unix_copy_to_memory [OF r d assms(7-10)])
qed

theorem file_to_memory_copy_witness:
  "\<exists>s0 s1 s2 i' s'. FileInStream (unix_file_class one_file_os) (File ''/a'' ([7, 8, 9], 1)) = (Ret (), s0) \<and>
    file_in_open (unix_file_class one_file_os) s0 = (Ret True, s1) \<and>
    is_seek (file_in_stream (unix_file_class one_file_os)) 2 ckSTREAM_BEGIN s1 = Ret (True, s2) \<and>
    copy (file_in_stream (unix_file_class one_file_os)) (memory_out_stream alloc_ok) 4 (replicate 8192 0) s2 (MemoryOutStream alloc_ok 2) =
      Ret (True, i', s') \<and> file_in_end i' \<and> memory_contents s' = drop (unat (2 :: u32)) [7, 8, 9]"
  by (rule file_to_memory_copy [OF one_file_posix(2,3,4,1) one_file_posix_lseek]) (simp_all add: one_file_dir_def)

text \<open>On Windows the positions are not cut: a stream reaches all that its 32 bit argument can name.\<close>

lemma win_file_to_memory_copy:
  assumes "win_reader U V D"
    and "D w path = Some c" "length c \<le> 2 ^ 31" "length buf = BUFFER_SIZE" "length c < n"
  shows "\<exists>s0 s1 s2 i' s'. FileInStream (win_file_class U) (win_File path w) = (Ret (), s0) \<and>
    file_in_open (win_file_class U) s0 = (Ret True, s1) \<and>
    is_seek (file_in_stream (win_file_class U)) d ckSTREAM_BEGIN s1 = Ret (True, s2) \<and>
    copy (file_in_stream (win_file_class U)) (memory_out_stream alloc_ok) n buf s2 (MemoryOutStream alloc_ok k) =
      Ret (True, i', s') \<and>
    file_in_end i' \<and> memory_contents s' = drop (unat d) c"
proof -
  have f: "win_disk D (win_File path w) = Some c"
    using assms(2) by (simp add: win_disk_def win_File_def win_name_def path_name_def win_test_def)
  have "int (unat d) < 2 ^ 32" using unsigned_less [of d] by simp
  also have "\<dots> < (2 :: int) ^ 63" by simp
  finally have d: "int (unat d) < 2 ^ 63" .
  show ?thesis by (rule win_reader.windows_copy_to_memory [OF assms(1) f assms(3) d assms(4,5)])
qed



text \<open>C18: On Windows the same copy leaves exactly the data in the file: \<open>ckOPEN_WRITE\<close> creates it anew.\<close>

theorem win_memory_to_file_copy:
  assumes "win_create_file U V D GENERIC_WRITE Share_read CREATE_ALWAYS" "win_write_file U V" "D w path = Some old"
    and "length data \<le> 2 ^ 31" "length buf = BUFFER_SIZE" "length data < n"
  shows "\<exists>o1 i' o2. file_out_open (win_file_class U) (FileOutStream (win_File path w)) = (Ret True, o1) \<and>
    copy memory_in_stream (file_out_stream (win_file_class U)) n buf (memory_source data) o1 = Ret (True, i', o2) \<and>
    win_view V (fo_file o2) = Some (data, length data)"
proof -
  have r: "win_writer U V D" using assms(1,2) by (intro win_writer.intro)
  have d: "win_disk D (win_File path w) = Some old"
    using assms(3) by (simp add: win_disk_def win_File_def win_name_def path_name_def win_test_def)
  show ?thesis using win_writer.windows_copy_from_memory [OF r d assms(4-6)] by simp
qed

theorem win_memory_to_file_copy_witness:
  "\<exists>o1 i' o2. file_out_open (win_file_class (one_win_os True)) (FileOutStream (win_File ''a'' ([7, 8, 9], 2))) = (Ret True, o1) \<and>
    copy memory_in_stream (file_out_stream (win_file_class (one_win_os True))) 3 (replicate 8192 0) (memory_source [1, 2]) o1 =
      Ret (True, i', o2) \<and>
    win_view one_win_write_view (fo_file o2) = Some ([1, 2 :: byte], length [1, 2 :: byte])"
  by (rule win_memory_to_file_copy [OF one_win_files(2) one_win_read_write(2)]) (simp_all add: one_file_dir_def)

text \<open>\<^verbatim>\<open>end()\<close> compares with the size found when the stream was opened: when the file
  has become shorter since, a copy from the stream never returns; it reads 0 bytes for ever.\<close>

theorem file_copy_truncated:
  assumes "posix_read U V" "unix_view V (fi_file i) = Some (c, p)"
    and "fi_read i = int p" "length c \<le> p" "int p < fi_size i" "p < 2 ^ 63"
    and "length buf = BUFFER_SIZE" "memory_oinv s"
  shows "copy (file_in_stream (unix_file_class U)) (memory_out_stream alloc_ok) n buf i s = Fuel"
  by (rule file_reading.copy_truncated [OF unix_reading [OF assms(1)] assms(2-8)])

theorem file_copy_truncated_witness:
  "copy (file_in_stream (unix_file_class one_file_os)) (memory_out_stream alloc_ok) 1000 (replicate 8192 0)
     \<lparr>fi_file = File ''/a'' ([7], 1)\<lparr>f_handle := 3\<rparr>, fi_size = 2, fi_read = 1\<rparr> (MemoryOutStream alloc_ok 0) = Fuel"
  by (rule file_copy_truncated [OF one_file_posix(1), where c = "[7]" and p = 1])
    (simp_all add: one_file_view_def unix_view_def file_test_def File_def memory_oinv_init)

end
