(* ===== verification/Locker.thy ===== *)
theory Locker
  imports Prelude
begin

text \<open>
  The template class \<^verbatim>\<open>Locker\<close> of \<^verbatim>\<open>include/ckcore/locker.hh\<close>: a lockable class is a
  record of its two functions over the state of the object, what \<open>Locker\<close> needs of it is the
  locale \<open>lockable\<close>. A call that blocks for ever is \<open>Fuel\<close>.
\<close>

section \<open>The class\<close>

record 'm lockable_ops =
  lk_lock :: "'m \<Rightarrow> (bool \<times> 'm) outcome"
  lk_unlock :: "'m \<Rightarrow> (bool \<times> 'm) outcome"

record 'm locker =
  lo_lockable :: 'm
  lo_locked :: bool

definition Locker :: "'m lockable_ops \<Rightarrow> 'm \<Rightarrow> 'm locker outcome" where
  "Locker L m = obind (lk_lock L m) (\<lambda>(ok, m'). Ret \<lparr>lo_lockable = m', lo_locked = ok\<rparr>)"

definition locker_unlock :: "'m lockable_ops \<Rightarrow> 'm locker \<Rightarrow> (bool \<times> 'm locker) outcome" where
  "locker_unlock L l =
     (if \<not> lo_locked l then Ret (False, l)
      else obind (lk_unlock L (lo_lockable l)) (\<lambda>(ok, m').
        Ret (ok, l\<lparr>lo_lockable := m', lo_locked := \<not> ok\<rparr>)))"

definition locker_relock :: "'m lockable_ops \<Rightarrow> 'm locker \<Rightarrow> (bool \<times> 'm locker) outcome" where
  "locker_relock L l =
     (if lo_locked l then Ret (False, l)
      else obind (lk_lock L (lo_lockable l)) (\<lambda>(ok, m').
        Ret (ok, l\<lparr>lo_lockable := m', lo_locked := ok\<rparr>)))"

definition locker_locked :: "'m locker \<Rightarrow> bool" where
  "locker_locked l = lo_locked l"

text \<open>The destructor leaves the lockable object behind.\<close>

definition locker_destroy :: "'m lockable_ops \<Rightarrow> 'm locker \<Rightarrow> 'm outcome" where
  "locker_destroy L l = (if lo_locked l then obind (lk_unlock L (lo_lockable l)) (\<lambda>(ok, m'). Ret m')
     else Ret (lo_lockable l))"

section \<open>Scopes\<close>

text \<open>The calls in the scope of a locker, before its destructor.\<close>

datatype locker_call = Call_unlock | Call_relock

fun locker_run :: "'m lockable_ops \<Rightarrow> locker_call list \<Rightarrow> 'm locker \<Rightarrow> (bool list \<times> 'm locker) outcome" where
  "locker_run L [] l = Ret ([], l)"
| "locker_run L (c # cs) l =
     obind (case c of Call_unlock \<Rightarrow> locker_unlock L l | Call_relock \<Rightarrow> locker_relock L l) (\<lambda>(r, l').
       obind (locker_run L cs l') (\<lambda>(rs, l''). Ret (r # rs, l'')))"

definition locker_scope :: "'m lockable_ops \<Rightarrow> locker_call list \<Rightarrow> 'm \<Rightarrow> (bool list \<times> 'm) outcome" where
  "locker_scope L cs m = obind (Locker L m) (\<lambda>l. obind (locker_run L cs l) (\<lambda>(rs, l').
     obind (locker_destroy L l') (\<lambda>m'. Ret (rs, m'))))"

text \<open>Which calls answer true: \<open>held\<close> says whether the lock is held before the first.\<close>

fun locker_answers :: "bool \<Rightarrow> locker_call list \<Rightarrow> bool list" where
  "locker_answers held [] = []"
| "locker_answers held (Call_unlock # cs) = held # locker_answers False cs"
| "locker_answers held (Call_relock # cs) = (\<not> held) # locker_answers True cs"

locale lockable =
  fixes L :: "'m lockable_ops" and free :: "'m \<Rightarrow> bool" and held :: "'m \<Rightarrow> bool"
  assumes lock_law: "free m \<Longrightarrow> \<exists>m'. lk_lock L m = Ret (True, m') \<and> held m'"
    and unlock_law: "held m \<Longrightarrow> \<exists>m'. lk_unlock L m = Ret (True, m') \<and> free m'"
begin

definition in_order :: "'m locker \<Rightarrow> bool" where
  "in_order l \<longleftrightarrow> (if lo_locked l then held (lo_lockable l) else free (lo_lockable l))"

lemma Locker_locks: "free m \<Longrightarrow> \<exists>l. Locker L m = Ret l \<and> in_order l \<and> lo_locked l"
  using lock_law [of m] by (auto simp: Locker_def in_order_def)

lemma unlock_in_order:
  "in_order l \<Longrightarrow> \<exists>l'. locker_unlock L l = Ret (lo_locked l, l') \<and> in_order l' \<and> \<not> lo_locked l'"
proof (cases "lo_locked l")
  case True
  moreover assume "in_order l"
  ultimately obtain m' where "lk_unlock L (lo_lockable l) = Ret (True, m')" "free m'"
    using unlock_law by (auto simp: in_order_def)
  with True show ?thesis
    by (intro exI [of _ "l\<lparr>lo_lockable := m', lo_locked := False\<rparr>"]) (simp add: locker_unlock_def in_order_def)
qed (simp add: locker_unlock_def in_order_def)

lemma relock_in_order:
  "in_order l \<Longrightarrow> \<exists>l'. locker_relock L l = Ret (\<not> lo_locked l, l') \<and> in_order l' \<and> lo_locked l'"
  using lock_law [of "lo_lockable l"]
  by (cases "lo_locked l") (auto simp: locker_relock_def in_order_def)

lemma run_in_order:
  "in_order l \<Longrightarrow> \<exists>l'. locker_run L cs l = Ret (locker_answers (lo_locked l) cs, l') \<and> in_order l'"
proof (induction cs arbitrary: l)
  case (Cons c cs)
  obtain r l' where c: "(case c of Call_unlock \<Rightarrow> locker_unlock L l | Call_relock \<Rightarrow> locker_relock L l) = Ret (r, l')"
    "in_order l'" "locker_answers (lo_locked l) (c # cs) = r # locker_answers (lo_locked l') cs"
    using unlock_in_order [OF Cons.prems] relock_in_order [OF Cons.prems] by (cases c) auto
  with Cons.IH [OF c(2)] show ?case by auto
qed simp

lemma destroy_frees: "in_order l \<Longrightarrow> \<exists>m. locker_destroy L l = Ret m \<and> free m"
  using unlock_law [of "lo_lockable l"] by (auto simp: locker_destroy_def in_order_def)

lemma scope_frees:
  assumes "free m"
  shows "\<exists>m'. locker_scope L cs m = Ret (locker_answers True cs, m') \<and> free m'"
proof -
  obtain l where l: "Locker L m = Ret l" "in_order l" "lo_locked l" using Locker_locks [OF assms] by blast
  obtain l' where r: "locker_run L cs l = Ret (locker_answers True cs, l')" "in_order l'"
    using run_in_order [OF l(2), of cs] l(3) by auto
  obtain m' where "locker_destroy L l' = Ret m'" "free m'" using destroy_frees [OF r(2)] by blast
  with l r show ?thesis by (simp add: locker_scope_def)
qed

end

end
