(* ===== verification/Unix_Thread.thy ===== *)
theory Unix_Thread
  imports Locker
begin

text \<open>
  The thread classes of \<^verbatim>\<open>src/unix/thread.cc\<close>: \<open>Mutex\<close>, \<open>WaitCondition\<close> and
  \<open>Thread\<close>. A default pthread mutex is the identifier of the thread that holds it; a thread that
  locks a held one blocks. The blocking \<^verbatim>\<open>pthread_cond_wait\<close> divides an operation into the
  steps before and after it, and the steps of several threads are interleaved by an inductive
  relation.
\<close>

section \<open>Mutex\<close>

type_synonym mutex = "nat option"   \<comment> \<open>the thread that holds it\<close>

definition Mutex :: mutex where
  "Mutex = None"

definition mutex_lock :: "nat \<Rightarrow> mutex \<Rightarrow> (bool \<times> mutex) outcome" where
  "mutex_lock self m = (case m of None \<Rightarrow> Ret (True, Some self) | Some t \<Rightarrow> Fuel)"

definition mutex_unlock :: "nat \<Rightarrow> mutex \<Rightarrow> (bool \<times> mutex) outcome" where
  "mutex_unlock self m = (if m = Some self then Ret (True, None) else Undef)"

definition mutex_try_lock :: "nat \<Rightarrow> mutex \<Rightarrow> bool \<times> mutex" where
  "mutex_try_lock self m = (case m of None \<Rightarrow> (True, Some self) | Some t \<Rightarrow> (False, m))"

definition mutex_ops :: "nat \<Rightarrow> mutex lockable_ops" where
  "mutex_ops self = \<lparr>lk_lock = mutex_lock self, lk_unlock = mutex_unlock self\<rparr>"

interpretation mutex: lockable "mutex_ops self" "\<lambda>m. m = None" "\<lambda>m. m = Some self" for self
  by unfold_locales (simp_all add: mutex_ops_def mutex_lock_def mutex_unlock_def)

text \<open>A \<open>Locker\<close> on a free mutex never blocks on itself and never unlocks what it does not hold:
  whatever calls of \<open>unlock\<close> and \<open>relock\<close> its scope makes, each answers true exactly when it
  changes something, and the mutex is free after the scope.\<close>

theorem locker_scope_releases:
  "locker_scope (mutex_ops self) calls None = Ret (locker_answers True calls, None)"
  using mutex.scope_frees [of None self calls] by simp

section \<open>WaitCondition\<close>

record wait_condition =
  wc_waiters :: u32
  wc_wakeups :: u32

definition WaitCondition :: wait_condition where
  "WaitCondition = \<lparr>wc_waiters = 0, wc_wakeups = 0\<rparr>"

text \<open>The absolute time a wait of \<open>timeout\<close> milliseconds ends, from \<^verbatim>\<open>gettimeofday\<close>; \<open>long\<close> has 64 bits.\<close>

definition wait_deadline :: "int \<times> int \<Rightarrow> u32 \<Rightarrow> int \<times> int" where
  "wait_deadline tv timeout = (case tv of (tv_sec, tv_usec) \<Rightarrow>
     let nsec = (tv_usec + uint ((timeout mod 1000) * 1000)) * 1000
     in (tv_sec + uint (timeout div 1000) + nsec div 1000000000, nsec mod 1000000000))"

text \<open>
  \<^verbatim>\<open>wait(timeout)\<close> counts itself, and then waits until the call of pthread returns a wake-up
  that has been granted, or an error (\<open>res \<noteq> 0\<close>, the time-out).
\<close>

definition wait_enter :: "wait_condition \<Rightarrow> wait_condition" where
  "wait_enter c = c\<lparr>wc_waiters := wc_waiters c + 1\<rparr>"

definition wait_again :: "int \<Rightarrow> wait_condition \<Rightarrow> bool" where
  "wait_again res c \<longleftrightarrow> res = 0 \<and> wc_wakeups c = 0"

definition wait_leave :: "int \<Rightarrow> wait_condition \<Rightarrow> bool \<times> wait_condition" where
  "wait_leave res c =
     (let c' = c\<lparr>wc_waiters := wc_waiters c - 1\<rparr>
      in (res = 0, if res = 0 then c'\<lparr>wc_wakeups := wc_wakeups c' - 1\<rparr> else c'))"

definition signal_one :: "wait_condition \<Rightarrow> wait_condition" where
  "signal_one c = c\<lparr>wc_wakeups := min (wc_wakeups c + 1) (wc_waiters c)\<rparr>"

definition signal_all :: "wait_condition \<Rightarrow> wait_condition" where
  "signal_all c = c\<lparr>wc_wakeups := wc_waiters c\<rparr>"

text \<open>
  Several threads on one condition: \<open>cs_blocked\<close> are in the wait, \<open>cs_woken\<close> counts the waits that
  have answered true, \<open>cs_granted\<close> the wake-ups the signals have asked for.
\<close>

record cond_system =
  cs_cond :: wait_condition
  cs_blocked :: "nat set"
  cs_woken :: nat
  cs_granted :: nat

inductive cond_step :: "cond_system \<Rightarrow> cond_system \<Rightarrow> bool" where
  enter: "t \<notin> cs_blocked s \<Longrightarrow>
    cond_step s (s\<lparr>cs_cond := wait_enter (cs_cond s), cs_blocked := insert t (cs_blocked s)\<rparr>)"
| spurious: "t \<in> cs_blocked s \<Longrightarrow> wait_again 0 (cs_cond s) \<Longrightarrow> cond_step s s"
| leave: "t \<in> cs_blocked s \<Longrightarrow> \<not> wait_again res (cs_cond s) \<Longrightarrow> wait_leave res (cs_cond s) = (ok, c) \<Longrightarrow>
    cond_step s (s\<lparr>cs_cond := c, cs_blocked := cs_blocked s - {t}, cs_woken := cs_woken s + (if ok then 1 else 0)\<rparr>)"
| one: "cond_step s (s\<lparr>cs_cond := signal_one (cs_cond s), cs_granted := cs_granted s + 1\<rparr>)"
| all: "cond_step s (s\<lparr>cs_cond := signal_all (cs_cond s), cs_granted := cs_granted s + card (cs_blocked s)\<rparr>)"

definition cond_start :: cond_system where
  "cond_start = \<lparr>cs_cond = WaitCondition, cs_blocked = {}, cs_woken = 0, cs_granted = 0\<rparr>"

text \<open>The invariant: the counter counts the blocked threads, and no wake-up is made up.\<close>

definition cond_ok :: "cond_system \<Rightarrow> bool" where
  "cond_ok s \<longleftrightarrow> finite (cs_blocked s) \<and> wc_waiters (cs_cond s) = of_nat (card (cs_blocked s)) \<and>
     cs_woken s + unat (wc_wakeups (cs_cond s)) \<le> cs_granted s"

lemma unat_of_nat_le_u32: "unat (of_nat n :: u32) \<le> n"
  by (simp add: unat_of_nat)

lemma unat_succ_le_u32: "unat (x + 1 :: u32) \<le> unat x + 1"
  by (simp add: unat_word_ariths)

lemma unat_pred_u32: "x \<noteq> 0 \<Longrightarrow> unat (x - 1 :: u32) + 1 = unat x"
  by (metis Suc_eq_plus1 Suc_pred' measure_unat unat_minus_one word_gt_0 word_less_nat_alt unat_0)

lemma cond_step_ok: "cond_step s s' \<Longrightarrow> cond_ok s \<Longrightarrow> cond_ok s'"
proof (induction rule: cond_step.induct)
  case (leave t s res ok c)
  then have f: "finite (cs_blocked s)" "0 < card (cs_blocked s)" by (auto simp: cond_ok_def card_gt_0_iff)
  then have "(of_nat (card (cs_blocked s - {t})) :: u32) = of_nat (card (cs_blocked s)) - 1"
    using leave(1) by (simp add: of_nat_diff Suc_leI)
  with leave f show ?case
    using unat_pred_u32 [of "wc_wakeups (cs_cond s)"]
    by (auto simp: cond_ok_def wait_leave_def wait_again_def Let_def split: if_splits)
next
  case (one s)
  have "unat (min (wc_wakeups (cs_cond s) + 1) (wc_waiters (cs_cond s))) \<le> unat (wc_wakeups (cs_cond s)) + 1"
    using unat_succ_le_u32 [of "wc_wakeups (cs_cond s)"] by (auto simp: min_def word_le_nat_alt)
  with one show ?case by (simp add: cond_ok_def signal_one_def)
next
  case (all s)
  then show ?case using unat_of_nat_le_u32 [of "card (cs_blocked s)"] by (auto simp: cond_ok_def signal_all_def)
qed (auto simp: cond_ok_def wait_enter_def)



text \<open>The deadline is \<open>timeout\<close> milliseconds after the time of day, as a normal \<open>timespec\<close>.\<close>

lemma wait_deadline_exact:
  assumes "wait_deadline (sec, usec) timeout = (s, ns)"
  shows "0 \<le> ns \<and> ns < 1000000000 \<and>
    s * 1000000000 + ns = sec * 1000000000 + usec * 1000 + uint timeout * 1000000"
proof -
  have m: "uint (timeout mod 1000) = uint timeout mod 1000" "uint (timeout div 1000) = uint timeout div 1000"
    by (simp_all add: uint_mod uint_div)
  have "uint timeout mod 1000 < 1000" "0 \<le> uint timeout mod 1000" by simp_all
  then have p: "uint ((timeout mod 1000) * 1000) = (uint timeout mod 1000) * 1000"
    by (simp add: uint_word_ariths m take_bit_int_eq_self)
  define n where "n = (usec + (uint timeout mod 1000) * 1000) * 1000"
  have s: "s = sec + uint timeout div 1000 + n div 1000000000" and ns: "ns = n mod 1000000000"
    using assms by (simp_all add: wait_deadline_def Let_def m p n_def)
  have "n div 1000000000 * 1000000000 + n mod 1000000000 = n" by simp
  moreover have "uint timeout div 1000 * 1000 + uint timeout mod 1000 = uint timeout" by simp
  ultimately have "s * 1000000000 + ns = sec * 1000000000 + usec * 1000 + uint timeout * 1000000"
    unfolding s ns by (simp only: distrib_right n_def)
  then show ?thesis using ns by simp
qed

section \<open>Thread\<close>

text \<open>
  The object; \<open>th_thread\<close> is the handle of pthread, 0 before the first start. A method that waits
  on \<open>thread_done_\<close> is divided at the wait: \<open>Inl r\<close> is an answer before it, \<open>Inr\<close> that the method
  is in the wait.
\<close>

record thread_object =
  th_thread :: nat
  th_running :: bool
  th_done :: wait_condition

definition Thread :: thread_object where
  "Thread = \<lparr>th_thread = 0, th_running = False, th_done = WaitCondition\<rparr>"

text \<open>\<open>created\<close> is the handle when \<^verbatim>\<open>pthread_create\<close> succeeds.\<close>

definition thread_start :: "nat option \<Rightarrow> thread_object \<Rightarrow> bool \<times> thread_object" where
  "thread_start created t =
     (if th_running t then (False, t)
      else case created of None \<Rightarrow> (False, t)
        | Some h \<Rightarrow> (True, t\<lparr>th_thread := h, th_running := True\<rparr>))"

definition thread_cleanup :: "thread_object \<Rightarrow> thread_object" where
  "thread_cleanup t = t\<lparr>th_running := False, th_done := signal_all (th_done t)\<rparr>"

text \<open>The entry point: \<open>run\<close> may throw, the clean-up is done in any case.\<close>

definition thread_native :: "(thread_object \<Rightarrow> unit outcome \<times> thread_object) \<Rightarrow> thread_object \<Rightarrow> unit outcome \<times> thread_object" where
  "thread_native run t = (case run t of (r, t') \<Rightarrow>
     (case catch_all r (Ret ()) of Ret u \<Rightarrow> (Ret (), thread_cleanup t') | r' \<Rightarrow> (r', t')))"

definition thread_wait_begin :: "nat \<Rightarrow> thread_object \<Rightarrow> bool + thread_object" where
  "thread_wait_begin self t =
     (if th_thread t = self then Inl False
      else if \<not> th_running t then Inl False
      else Inr (t\<lparr>th_done := wait_enter (th_done t)\<rparr>))"

definition thread_wait_end :: "int \<Rightarrow> thread_object \<Rightarrow> bool \<times> thread_object" where
  "thread_wait_end res t = (case wait_leave res (th_done t) of (ok, c) \<Rightarrow> (ok, t\<lparr>th_done := c\<rparr>))"

text \<open>\<open>cancelled\<close> says whether \<^verbatim>\<open>pthread_cancel\<close> succeeds.\<close>

definition thread_kill_begin :: "bool \<Rightarrow> thread_object \<Rightarrow> bool + thread_object" where
  "thread_kill_begin cancelled t =
     (if \<not> th_running t then Inl False
      else if \<not> cancelled then Inl False
      else Inr (t\<lparr>th_done := wait_enter (th_done t)\<rparr>))"

text \<open>After the wait the mutex of the object is locked again before the answer, so that other calls can come between.\<close>

definition thread_kill_woken :: "int \<Rightarrow> thread_object \<Rightarrow> thread_object" where
  "thread_kill_woken res t = t\<lparr>th_done := snd (wait_leave res (th_done t))\<rparr>"

definition thread_kill_end :: "thread_object \<Rightarrow> bool \<times> thread_object" where
  "thread_kill_end t = (True, t\<lparr>th_running := False\<rparr>)"

definition thread_running :: "thread_object \<Rightarrow> bool" where
  "thread_running t = th_running t"

text \<open>After the entry point has returned the thread is not running, also when \<open>run\<close> has thrown, and the
  waits can leave.\<close>

lemma thread_native_done:
  assumes "run t = (r, t')" "r \<noteq> Undef" "r \<noteq> Fuel"
  shows "fst (thread_native run t) = Ret ()" "\<not> thread_running (snd (thread_native run t))"
    and "wc_waiters (th_done t') \<noteq> 0 \<Longrightarrow> \<not> wait_again 0 (th_done (snd (thread_native run t)))"
  using assms
  by (cases r; simp add: thread_native_def thread_cleanup_def thread_running_def wait_again_def signal_all_def)+

section \<open>The functions of the namespace\<close>

definition ideal_count :: "int \<Rightarrow> u32" where
  "ideal_count sysconf = (if sysconf = -1 then 1 else of_int sysconf)"

text \<open>\<^verbatim>\<open>milliseconds * 1000\<close> wraps at 2 ^ 32.\<close>

definition thread_sleep :: "(u32 \<Rightarrow> int) \<Rightarrow> u32 \<Rightarrow> bool" where
  "thread_sleep usleep milliseconds \<longleftrightarrow> usleep (milliseconds * 1000) = 0"

lemma thread_sleep_wraps: "thread_sleep usleep 4294968 \<longleftrightarrow> usleep 704 = 0"
proof -
  have "(4294968 * 1000 :: u32) = 704" by simp
  then show ?thesis by (simp only: thread_sleep_def)
qed

text \<open>\<open>thread::create\<close>: the parameter object is handed to the new thread, or deleted when there is none.\<close>

definition thread_create :: "nat option \<Rightarrow> ('p \<Rightarrow> 'r) \<Rightarrow> 'p \<Rightarrow> bool \<times> (unit \<Rightarrow> 'r) option" where
  "thread_create created func param =
     (case created of None \<Rightarrow> (False, None) | Some h \<Rightarrow> (True, Some (\<lambda>_. func param)))"

end
