(* ===== verification/Thread_Pool.thy ===== *)
theory Thread_Pool
  imports Unix_Thread "HOL-Library.Multiset" "HOL-Library.Product_Lexorder"
begin

text \<open>
  The class \<open>ThreadPool\<close> of \<^verbatim>\<open>src/threadpool.cc\<close>. Everything but the execution of a task
  and the wait for one happens with the mutex of the pool held, so the code between two such points
  is one step of the relation \<open>pool_step\<close>, and the steps of the callers and of the threads of the
  pool are interleaved. Tasks and thread objects are addresses; the counters are \<open>tuint32\<close> and
  wrap. \<^verbatim>\<open>ckASSERT\<close> does nothing, as in a release build.
\<close>

section \<open>Tasks\<close>

text \<open>The class \<open>Task\<close> of \<^verbatim>\<open>include/ckcore/task.hh\<close>; what its \<open>start\<close> does is up to the derived class.\<close>

record task_object =
  tk_auto_delete :: bool

definition Task :: task_object where
  "Task = \<lparr>tk_auto_delete = True\<rparr>"

definition auto_delete :: "task_object \<Rightarrow> bool" where
  "auto_delete tk = tk_auto_delete tk"

definition set_auto_delete :: "bool \<Rightarrow> task_object \<Rightarrow> task_object" where
  "set_auto_delete enable tk = tk\<lparr>tk_auto_delete := enable\<rparr>"

section \<open>The state\<close>

text \<open>Where a thread of the pool is: started but not yet in \<open>run\<close>, in \<^verbatim>\<open>task_->start()\<close>, in the
  wait, back from it but without the mutex (with the answer), back from \<open>run\<close>, and not running.\<close>

datatype worker_pc = Begin | Executing | In_wait | Relock bool | Returned | Ended

record worker =
  wk_thread :: thread_object
  wk_task :: "nat option"
  wk_pc :: worker_pc

type_synonym task_queue = "(nat \<times> u32) list"

record thread_pool =
  tp_exiting :: bool
  tp_max :: u32
  tp_pol :: u32
  tp_res :: u32
  tp_idl :: u32
  tp_ready :: wait_condition
  tp_all :: "nat list"
  tp_ret :: "nat list"
  tp_timeout :: u32
  tp_queue :: task_queue
  tp_threads :: "nat \<Rightarrow> worker option"   \<comment> \<open>the \<open>InternalThread\<close> objects\<close>
  tp_deleted :: "nat list"   \<comment> \<open>the tasks the pool has deleted\<close>
  tp_joining :: "nat list option"   \<comment> \<open>the copy of \<open>all_threads_\<close> a call of \<open>wait\<close> works on\<close>

definition THREAD_RETIRE_TIMEOUT :: u32 where "THREAD_RETIRE_TIMEOUT = 20000"

definition ThreadPool :: "int \<Rightarrow> thread_pool" where
  "ThreadPool sysconf = \<lparr>tp_exiting = False, tp_max = ideal_count sysconf, tp_pol = 0, tp_res = 0, tp_idl = 0,
     tp_ready = WaitCondition, tp_all = [], tp_ret = [], tp_timeout = THREAD_RETIRE_TIMEOUT, tp_queue = [],
     tp_threads = (\<lambda>_. None), tp_deleted = [], tp_joining = None\<rparr>"

section \<open>The queue\<close>

text \<open>A \<^verbatim>\<open>std::priority_queue\<close> of pairs: the top is the largest pair, by the task pointer first.\<close>

definition queue_top :: "task_queue \<Rightarrow> nat \<times> u32" where
  "queue_top q = fold max (tl q) (hd q)"

definition queue_pop :: "task_queue \<Rightarrow> task_queue" where
  "queue_pop q = remove1 (queue_top q) q"

section \<open>The private functions\<close>

definition active_threads :: "thread_pool \<Rightarrow> u32" where
  "active_threads s = of_nat (length (tp_all s)) + tp_res s - of_nat (length (tp_ret s)) - tp_idl s"

definition idle_threads :: "thread_pool \<Rightarrow> u32" where
  "idle_threads s = tp_idl s"

definition retired_threads :: "thread_pool \<Rightarrow> u32" where
  "retired_threads s = of_nat (length (tp_ret s))"

definition queued :: "thread_pool \<Rightarrow> u32" where
  "queued s = of_nat (length (tp_queue s))"

definition enqueue :: "nat \<Rightarrow> u32 \<Rightarrow> thread_pool \<Rightarrow> thread_pool" where
  "enqueue task priority s =
     s\<lparr>tp_queue := (task, priority) # tp_queue s, tp_ready := signal_one (tp_ready s)\<rparr>"

text \<open>\<open>new\<close> is the address of the new object, \<open>created\<close> the answer of \<^verbatim>\<open>pthread_create\<close>.\<close>

definition InternalThread :: "nat \<Rightarrow> worker" where
  "InternalThread task = \<lparr>wk_thread = Thread, wk_task = Some task, wk_pc = Ended\<rparr>"

definition start_worker :: "nat option \<Rightarrow> worker \<Rightarrow> bool \<times> worker" where
  "start_worker created w = (case thread_start created (wk_thread w) of (ok, th) \<Rightarrow>
     (ok, w\<lparr>wk_thread := th, wk_pc := (if ok then Begin else wk_pc w)\<rparr>))"

definition spawn :: "nat \<Rightarrow> nat option \<Rightarrow> nat \<Rightarrow> thread_pool \<Rightarrow> bool \<times> thread_pool" where
  "spawn new created task s = (case start_worker created (InternalThread task) of (ok, w) \<Rightarrow>
     (ok, s\<lparr>tp_all := tp_all s @ [new], tp_pol := tp_pol s + 1, tp_threads := (tp_threads s)(new \<mapsto> w)\<rparr>))"

definition overworking :: "thread_pool \<Rightarrow> bool" where
  "overworking s \<longleftrightarrow> tp_max s < active_threads s"

definition try_start :: "nat \<Rightarrow> nat option \<Rightarrow> nat \<Rightarrow> thread_pool \<Rightarrow> (bool \<times> thread_pool) outcome" where
  "try_start new created task s =
     (if tp_max s \<le> active_threads s then Ret (False, s)
      else if 0 < tp_idl s then Ret (True, enqueue task 0 (s\<lparr>tp_idl := tp_idl s - 1\<rparr>))
      else if tp_ret s \<noteq> [] then
        (let t = last (tp_ret s) in case tp_threads s t of None \<Rightarrow> Undef
         | Some w \<Rightarrow> (case start_worker created (w\<lparr>wk_task := Some task\<rparr>) of (ok, w') \<Rightarrow>
             Ret (True, s\<lparr>tp_ret := butlast (tp_ret s), tp_pol := tp_pol s + 1,
                          tp_threads := (tp_threads s)(t \<mapsto> w')\<rparr>)))
      else Ret (spawn new created task s))"

section \<open>The public functions\<close>

text \<open>A null task is \<open>None\<close>.\<close>

definition pool_start :: "nat \<Rightarrow> nat option \<Rightarrow> nat option \<Rightarrow> u32 \<Rightarrow> thread_pool \<Rightarrow> (bool \<times> thread_pool) outcome" where
  "pool_start new created task priority s = (case task of None \<Rightarrow> Ret (False, s)
     | Some task \<Rightarrow> obind (try_start new created task s) (\<lambda>(ok, s').
         Ret (True, if ok then s' else enqueue task priority s')))"

definition pool_start_now :: "nat \<Rightarrow> nat option \<Rightarrow> nat option \<Rightarrow> thread_pool \<Rightarrow> (bool \<times> thread_pool) outcome" where
  "pool_start_now new created task s = (case task of None \<Rightarrow> Ret (False, s)
     | Some task \<Rightarrow> if tp_max s < active_threads s then Ret (False, s) else try_start new created task s)"

definition pool_reserve :: "nat \<Rightarrow> nat option \<Rightarrow> u32 \<Rightarrow> thread_pool \<Rightarrow> thread_pool outcome" where
  "pool_reserve new created num_threads s =
     (let start_task = num_threads < tp_res s;
          s1 = s\<lparr>tp_res := (if tp_max s < num_threads then tp_max s else num_threads)\<rparr>
      in if start_task \<and> tp_queue s1 \<noteq> [] then
           let entry = queue_top (tp_queue s1); s2 = s1\<lparr>tp_queue := queue_pop (tp_queue s1)\<rparr>
           in obind (try_start new created (fst entry) s2) (\<lambda>(ok, s3).
                Ret (if ok then s3 else s3\<lparr>tp_queue := entry # tp_queue s3\<rparr>))
         else Ret s1)"

definition set_retire_timeout :: "u32 \<Rightarrow> thread_pool \<Rightarrow> thread_pool" where
  "set_retire_timeout timeout s = s\<lparr>tp_timeout := timeout\<rparr>"

text \<open>\<open>wait\<close>: its loop stops at every \<^verbatim>\<open>thread->wait()\<close>, with the mutex released.\<close>

definition pool_wait_round :: "thread_pool \<Rightarrow> thread_pool" where
  "pool_wait_round s =
     (if tp_all s \<noteq> [] then s\<lparr>tp_joining := Some (tp_all s), tp_all := []\<rparr>
      else s\<lparr>tp_ret := [], tp_pol := 0, tp_idl := 0, tp_exiting := False, tp_joining := None\<rparr>)"

definition pool_wait_begin :: "thread_pool \<Rightarrow> thread_pool" where
  "pool_wait_begin s = pool_wait_round (s\<lparr>tp_exiting := True, tp_ready := signal_all (tp_ready s)\<rparr>)"

definition pool_join :: "thread_pool \<Rightarrow> thread_pool" where
  "pool_join s = (case tp_joining s of Some (t # ts) \<Rightarrow>
       s\<lparr>tp_threads := (tp_threads s)(t := None), tp_joining := Some ts\<rparr>
     | _ \<Rightarrow> s)"

section \<open>InternalThread::run\<close>

definition set_worker :: "nat \<Rightarrow> worker \<Rightarrow> thread_pool \<Rightarrow> thread_pool" where
  "set_worker t w s = s\<lparr>tp_threads := (tp_threads s)(t \<mapsto> w)\<rparr>"

text \<open>\<open>run\<close> retires the thread, or returns because the pool is shut down.\<close>

definition worker_retire :: "nat \<Rightarrow> worker \<Rightarrow> thread_pool \<Rightarrow> thread_pool" where
  "worker_retire t w s = set_worker t (w\<lparr>wk_pc := Returned\<rparr>) (s\<lparr>tp_ret := tp_ret s @ [t], tp_pol := tp_pol s - 1\<rparr>)"

text \<open>What follows the loop over the tasks, up to the wait.\<close>

definition worker_no_task :: "nat \<Rightarrow> worker \<Rightarrow> thread_pool \<Rightarrow> thread_pool" where
  "worker_no_task t w s =
     (if tp_exiting s then set_worker t (w\<lparr>wk_pc := Returned\<rparr>) (s\<lparr>tp_pol := tp_pol s - 1\<rparr>)
      else if overworking s then worker_retire t w s
      else set_worker t (w\<lparr>wk_pc := In_wait\<rparr>)
        (s\<lparr>tp_idl := tp_idl s + 1, tp_pol := tp_pol s - 1, tp_ready := wait_enter (tp_ready s)\<rparr>))"

text \<open>The head of the loop: \<^verbatim>\<open>while (task_ != NULL)\<close>.\<close>

definition worker_loop :: "nat \<Rightarrow> worker \<Rightarrow> thread_pool \<Rightarrow> thread_pool" where
  "worker_loop t w s = (case wk_task w of
       Some task \<Rightarrow> set_worker t (w\<lparr>wk_pc := Executing\<rparr>) s
     | None \<Rightarrow> worker_no_task t w s)"

text \<open>Taking the first task of the queue, if there is one.\<close>

definition worker_fetch :: "worker \<Rightarrow> thread_pool \<Rightarrow> worker \<times> thread_pool" where
  "worker_fetch w s =
     (if tp_queue s \<noteq> [] then (w\<lparr>wk_task := Some (fst (queue_top (tp_queue s)))\<rparr>, s\<lparr>tp_queue := queue_pop (tp_queue s)\<rparr>)
      else (w, s))"

text \<open>After the execution of a task, from \<open>relock\<close> on; \<open>tk\<close> is the object the task has become.\<close>

definition dispose_task :: "task_object \<Rightarrow> nat option \<Rightarrow> thread_pool \<Rightarrow> thread_pool" where
  "dispose_task tk task s = (case task of None \<Rightarrow> s
     | Some a \<Rightarrow> if auto_delete tk then s\<lparr>tp_deleted := a # tp_deleted s\<rparr> else s)"

definition worker_executed :: "nat \<Rightarrow> task_object \<Rightarrow> worker \<Rightarrow> thread_pool \<Rightarrow> thread_pool" where
  "worker_executed t tk w s =
     (let s1 = dispose_task tk (wk_task w) s; w' = w\<lparr>wk_task := None\<rparr>
      in if overworking s1 then worker_no_task t w' s1
         else case worker_fetch w' s1 of (w'', s2) \<Rightarrow> worker_loop t w'' s2)"

text \<open>After the wait, with the mutex held again.\<close>

definition worker_woken :: "nat \<Rightarrow> bool \<Rightarrow> worker \<Rightarrow> thread_pool \<Rightarrow> thread_pool" where
  "worker_woken t expired w s =
     (let s1 = s\<lparr>tp_pol := tp_pol s + 1\<rparr>
      in if expired then worker_retire t w (s1\<lparr>tp_idl := tp_idl s1 - 1\<rparr>)
         else case worker_fetch w s1 of (w', s2) \<Rightarrow> worker_loop t w' s2)"

section \<open>Executions\<close>

text \<open>
  A state of an execution is the pool, the multiset of the tasks the pool has accepted and that of
  the tasks it has executed. Without \<open>faults\<close>, threads can be created and a retired thread has
  ended before it is restarted.
\<close>

type_synonym pool_run = "thread_pool \<times> nat multiset \<times> nat multiset"

definition quiet :: "nat option \<Rightarrow> thread_pool \<Rightarrow> bool" where
  "quiet created s \<longleftrightarrow> created \<noteq> None \<and>
     (\<forall>t \<in> set (tp_ret s). case tp_threads s t of None \<Rightarrow> True | Some w \<Rightarrow> \<not> thread_running (wk_thread w))"

inductive pool_step :: "bool \<Rightarrow> pool_run \<Rightarrow> pool_run \<Rightarrow> bool" for faults :: bool where
  start: "tp_threads s new = None \<Longrightarrow> faults \<or> quiet created s \<Longrightarrow>
    pool_start new created (Some task) priority s = Ret (ok, s') \<Longrightarrow>
    pool_step faults (s, acc, ex) (s', if ok then add_mset task acc else acc, ex)"
| start_now: "tp_threads s new = None \<Longrightarrow> faults \<or> quiet created s \<Longrightarrow>
    pool_start_now new created (Some task) s = Ret (ok, s') \<Longrightarrow>
    pool_step faults (s, acc, ex) (s', if ok then add_mset task acc else acc, ex)"
| reserve: "tp_threads s new = None \<Longrightarrow> faults \<or> quiet created s \<Longrightarrow>
    pool_reserve new created n s = Ret s' \<Longrightarrow> pool_step faults (s, acc, ex) (s', acc, ex)"
| timeout: "pool_step faults (s, acc, ex) (set_retire_timeout n s, acc, ex)"
| run_begin: "tp_threads s t = Some w \<Longrightarrow> wk_pc w = Begin \<Longrightarrow>
    pool_step faults (s, acc, ex) (worker_loop t w s, acc, ex)"
| execute: "tp_threads s t = Some w \<Longrightarrow> wk_pc w = Executing \<Longrightarrow> wk_task w = Some task \<Longrightarrow>
    pool_step faults (s, acc, ex) (worker_executed t tk w s, acc, add_mset task ex)"
| wait_leave: "tp_threads s t = Some w \<Longrightarrow> wk_pc w = In_wait \<Longrightarrow> \<not> wait_again res (tp_ready s) \<Longrightarrow>
    wait_leave res (tp_ready s) = (ok, c) \<Longrightarrow>
    pool_step faults (s, acc, ex) (set_worker t (w\<lparr>wk_pc := Relock (\<not> ok)\<rparr>) (s\<lparr>tp_ready := c\<rparr>), acc, ex)"
| woken: "tp_threads s t = Some w \<Longrightarrow> wk_pc w = Relock expired \<Longrightarrow>
    pool_step faults (s, acc, ex) (worker_woken t expired w s, acc, ex)"
| cleanup: "tp_threads s t = Some w \<Longrightarrow> wk_pc w = Returned \<Longrightarrow>
    pool_step faults (s, acc, ex)
      (set_worker t (w\<lparr>wk_thread := thread_cleanup (wk_thread w), wk_pc := Ended\<rparr>) s, acc, ex)"
| wait: "tp_joining s = None \<Longrightarrow> pool_step faults (s, acc, ex) (pool_wait_begin s, acc, ex)"
| join: "tp_joining s = Some (t # ts) \<Longrightarrow> tp_threads s t = Some w \<Longrightarrow> \<not> thread_running (wk_thread w) \<Longrightarrow>
    pool_step faults (s, acc, ex) (pool_join s, acc, ex)"
| joined: "tp_joining s = Some [] \<Longrightarrow> pool_step faults (s, acc, ex) (pool_wait_round s, acc, ex)"

definition pool_reachable :: "bool \<Rightarrow> pool_run \<Rightarrow> bool" where
  "pool_reachable faults r \<longleftrightarrow> (\<exists>sysconf. (pool_step faults)\<^sup>*\<^sup>* (ThreadPool sysconf, {#}, {#}) r)"


section \<open>Where the tasks are\<close>

definition slot :: "worker option \<Rightarrow> nat multiset" where
  "slot w = (case w of None \<Rightarrow> {#} | Some w \<Rightarrow> (case wk_task w of None \<Rightarrow> {#} | Some task \<Rightarrow> {#task#}))"

definition held :: "(nat \<Rightarrow> worker option) \<Rightarrow> nat multiset" where
  "held f = (\<Sum>t\<in>dom f. slot (f t))"

definition waiting_tasks :: "task_queue \<Rightarrow> nat multiset" where
  "waiting_tasks q = mset (map fst q)"

named_theorems pool_tasks \<open>where the tasks are after an operation\<close>

lemma slot_simps [simp]:
  "slot None = {#}"
  "slot (Some w) = (case wk_task w of None \<Rightarrow> {#} | Some task \<Rightarrow> {#task#})"
  by (simp_all add: slot_def)

lemma held_superset: "finite A \<Longrightarrow> dom f \<subseteq> A \<Longrightarrow> held f = (\<Sum>t\<in>A. slot (f t))"
  unfolding held_def by (rule sum.mono_neutral_left) (auto simp: dom_def)

lemma held_upd:
  assumes "finite (dom f)"
  shows "held (f(t := x)) + slot (f t) = held f + slot x"
proof -
  let ?A = "insert t (dom f)"
  have A: "finite ?A" "dom f \<subseteq> ?A" "dom (f(t := x)) \<subseteq> ?A" using assms by auto
  have "held (f(t := x)) = (\<Sum>u\<in>?A. slot ((f(t := x)) u))" by (rule held_superset [OF A(1,3)])
  also have "\<dots> = slot x + (\<Sum>u\<in>?A - {t}. slot (f u))" using A(1) by (subst sum.remove [where x = t]) auto
  finally have 1: "held (f(t := x)) = slot x + (\<Sum>u\<in>?A - {t}. slot (f u))" .
  have "held f = (\<Sum>u\<in>?A. slot (f u))" by (rule held_superset [OF A(1,2)])
  also have "\<dots> = slot (f t) + (\<Sum>u\<in>?A - {t}. slot (f u))" using A(1) by (subst sum.remove [where x = t]) auto
  finally have 2: "held f = slot (f t) + (\<Sum>u\<in>?A - {t}. slot (f u))" .
  show ?thesis unfolding 1 2 by (simp add: ac_simps)
qed

lemma held_upd_eq:
  "finite (dom f) \<Longrightarrow> slot (f t) = {#} \<Longrightarrow> held (f(t := x)) = held f + slot x"
  "finite (dom f) \<Longrightarrow> slot x = slot (f t) \<Longrightarrow> held (f(t := x)) = held f"
  using held_upd [of f t x] by auto

text \<open>The top has the largest address; the priority only matters among entries of the same task.\<close>

lemma queue_top_Max: "q \<noteq> [] \<Longrightarrow> queue_top q = Max (set q)"
  by (cases q) (simp_all add: queue_top_def Max.set_eq_fold [symmetric])

lemma queue_top_mem: "q \<noteq> [] \<Longrightarrow> queue_top q \<in> set q"
  using Max_in [of "set q"] by (simp add: queue_top_Max)

lemma queue_top_by_address: "e \<in> set q \<Longrightarrow> fst e \<le> fst (queue_top q)"
proof -
  assume e: "e \<in> set q"
  then have "e \<le> queue_top q" using queue_top_Max [of q] by (cases q) (auto intro: Max_ge)
  then show ?thesis by (auto simp: less_eq_prod_def)
qed

lemma waiting_tasks_pop:
  "q \<noteq> [] \<Longrightarrow> add_mset (fst (queue_top q)) (waiting_tasks (queue_pop q)) = waiting_tasks q"
  using queue_top_mem [of q]
  by (simp add: waiting_tasks_def queue_pop_def) (metis image_mset_add_mset insert_DiffM set_mset_mset)

text \<open>All the tasks the pool still has to execute, and the bookkeeping invariant of its threads.\<close>

definition pending :: "thread_pool \<Rightarrow> nat multiset" where
  "pending s = waiting_tasks (tp_queue s) + held (tp_threads s)"

definition worker_ok :: "worker \<Rightarrow> bool" where
  "worker_ok w \<longleftrightarrow> (thread_running (wk_thread w) \<longleftrightarrow> wk_pc w \<noteq> Ended) \<and>
     (wk_pc w \<notin> {Begin, Executing} \<longrightarrow> wk_task w = None)"

definition pool_ok :: "thread_pool \<Rightarrow> bool" where
  "pool_ok s \<longleftrightarrow> finite (dom (tp_threads s)) \<and> (\<forall>t w. tp_threads s t = Some w \<longrightarrow> worker_ok w)"

text \<open>The pending tasks change by \<open>m\<close>, the invariant is kept and nothing is deleted.\<close>

definition gains :: "nat multiset \<Rightarrow> thread_pool \<Rightarrow> thread_pool \<Rightarrow> bool" where
  "gains m s s' \<longleftrightarrow> pool_ok s' \<and> pending s' = pending s + m \<and> tp_deleted s' = tp_deleted s"

lemma pool_ok_upd: "pool_ok s \<Longrightarrow> worker_ok w \<Longrightarrow> tp_threads s' = (tp_threads s)(t \<mapsto> w) \<Longrightarrow> pool_ok s'"
  by (auto simp: pool_ok_def)

lemma enqueue_gains: "pool_ok s \<Longrightarrow> tp_threads s' = tp_threads s \<Longrightarrow> tp_queue s' = tp_queue s \<Longrightarrow> tp_deleted s' = tp_deleted s \<Longrightarrow>
    gains {#task#} s (enqueue task priority s')"
  by (auto simp: gains_def pool_ok_def pending_def enqueue_def waiting_tasks_def)

lemma start_worker_ok:
  assumes "created \<noteq> None" "\<not> thread_running (wk_thread w)" "start_worker created w = (ok, w')"
  shows "ok \<and> worker_ok w' \<and> wk_task w' = wk_task w"
  using assms by (auto simp: start_worker_def thread_start_def thread_running_def worker_ok_def)

lemma try_start_gains:
  assumes "pool_ok s" "quiet created s" "tp_threads s new = None" "try_start new created task s = Ret (ok, s')"
  shows "gains (if ok then {#task#} else {#}) s s'"
proof -
  have f: "finite (dom (tp_threads s))" using assms(1) by (simp add: pool_ok_def)
  consider (full) "tp_max s \<le> active_threads s" | (idle) "\<not> tp_max s \<le> active_threads s" "0 < tp_idl s"
    | (retired) "\<not> tp_max s \<le> active_threads s" "\<not> 0 < tp_idl s" "tp_ret s \<noteq> []"
    | (fresh) "\<not> tp_max s \<le> active_threads s" "\<not> 0 < tp_idl s" "tp_ret s = []" by blast
  then show ?thesis
  proof cases
    case full
    with assms(1,4) show ?thesis by (simp add: try_start_def gains_def)
  next
    case idle
    then have e: "ok" "s' = enqueue task 0 (s\<lparr>tp_idl := tp_idl s - 1\<rparr>)" using assms(4) by (auto simp: try_start_def)
    show ?thesis unfolding e(2) using e(1) enqueue_gains [OF assms(1), of "s\<lparr>tp_idl := tp_idl s - 1\<rparr>" task 0] by simp
  next
    case retired
    define t where "t = last (tp_ret s)"
    obtain w where w: "tp_threads s t = Some w" "\<not> thread_running (wk_thread w)"
      using assms(2,4) retired by (auto simp: try_start_def quiet_def t_def [symmetric] Let_def split: option.splits)
        (metis last_in_set option.simps(5) t_def)
    obtain k w' where k: "start_worker created (w\<lparr>wk_task := Some task\<rparr>) = (k, w')" by fastforce
    have ok': "k" "worker_ok w'" "wk_task w' = Some task"
      using start_worker_ok [OF _ _ k] assms(2) w(2) by (auto simp: quiet_def)
    have s': "ok" "s' = s\<lparr>tp_ret := butlast (tp_ret s), tp_pol := tp_pol s + 1, tp_threads := (tp_threads s)(t \<mapsto> w')\<rparr>"
      using assms(4) retired w k by (auto simp: try_start_def t_def [symmetric] Let_def)
    have "worker_ok w" using assms(1) w(1) by (auto simp: pool_ok_def)
    then have "slot (tp_threads s t) = {#}" using w by (auto simp: worker_ok_def)
    then show ?thesis using s' ok' assms(1) held_upd_eq(1) [OF f, of t "Some w'"]
      by (auto simp: gains_def pending_def intro: pool_ok_upd)
  next
    case fresh
    obtain k w where k: "start_worker created (InternalThread task) = (k, w)" by fastforce
    have "\<not> thread_running (wk_thread (InternalThread task))" "wk_task (InternalThread task) = Some task"
      by (simp_all add: InternalThread_def Thread_def thread_running_def)
    then have ok': "k" "worker_ok w" "wk_task w = Some task"
      using start_worker_ok [OF _ _ k] assms(2) by (auto simp: quiet_def)
    have s': "ok" "s' = s\<lparr>tp_all := tp_all s @ [new], tp_pol := tp_pol s + 1, tp_threads := (tp_threads s)(new \<mapsto> w)\<rparr>"
      using assms(4) fresh k ok' by (auto simp: try_start_def spawn_def)
    then show ?thesis using ok' assms(1,3) held_upd_eq(1) [OF f, of new "Some w"]
      by (auto simp: gains_def pending_def intro: pool_ok_upd)
  qed
qed


section \<open>The operations keep the tasks\<close>

lemma pool_start_gains:
  assumes "pool_ok s" "quiet created s" "tp_threads s new = None"
    "pool_start new created (Some task) priority s = Ret (ok, s')"
  shows "ok \<and> gains {#task#} s s'"
proof -
  obtain k s1 where k: "try_start new created task s = Ret (k, s1)" "ok" "s' = (if k then s1 else enqueue task priority s1)"
    using assms(4) by (auto simp: pool_start_def obind_Ret_eq)
  have g: "gains (if k then {#task#} else {#}) s s1" by (rule try_start_gains [OF assms(1-3) k(1)])
  show ?thesis
  proof (cases k)
    case False
    have "gains {#task#} s1 (enqueue task priority s1)" using g by (intro enqueue_gains) (auto simp: gains_def)
    with False g k show ?thesis by (simp add: gains_def)
  qed (use g k in simp)
qed

lemma pool_start_now_gains:
  assumes "pool_ok s" "quiet created s" "tp_threads s new = None"
    "pool_start_now new created (Some task) s = Ret (ok, s')"
  shows "gains (if ok then {#task#} else {#}) s s'"
proof (cases "tp_max s < active_threads s")
  case True
  with assms(1,4) show ?thesis by (auto simp: pool_start_now_def gains_def)
next
  case False
  with assms(4) have "try_start new created task s = Ret (ok, s')" by (simp add: pool_start_now_def)
  with assms(1-3) show ?thesis by (rule try_start_gains)
qed

lemma pool_reserve_gains:
  assumes "pool_ok s" "quiet created s" "tp_threads s new = None" "pool_reserve new created n s = Ret s'"
  shows "gains {#} s s'"
proof -
  define s1 where "s1 = s\<lparr>tp_res := (if tp_max s < n then tp_max s else n)\<rparr>"
  have s1: "gains {#} s s1" using assms(1) by (simp add: gains_def pool_ok_def pending_def s1_def)
  show ?thesis
  proof (cases "n < tp_res s \<and> tp_queue s1 \<noteq> []")
    case True
    define e where "e = queue_top (tp_queue s1)"
    define s2 where "s2 = s1\<lparr>tp_queue := queue_pop (tp_queue s1)\<rparr>"
    obtain ok s3 where t: "try_start new created (fst e) s2 = Ret (ok, s3)"
      "s' = (if ok then s3 else s3\<lparr>tp_queue := e # tp_queue s3\<rparr>)"
      using assms(4) True by (auto simp: pool_reserve_def Let_def s1_def e_def s2_def obind_Ret_eq)
    have s2: "pool_ok s2" "quiet created s2" "tp_threads s2 new = None"
      using assms(1-3) by (simp_all add: pool_ok_def quiet_def s2_def s1_def)
    have g: "gains (if ok then {#fst e#} else {#}) s2 s3" by (rule try_start_gains [OF s2 t(1)])
    have "pending s2 + {#fst e#} = pending s1"
      using waiting_tasks_pop [of "tp_queue s1"] True by (simp add: pending_def s2_def e_def add.commute)
    moreover have "tp_deleted s2 = tp_deleted s1" by (simp add: s2_def)
    ultimately show ?thesis using g s1 t(2)
      by (cases ok) (auto simp: gains_def pending_def waiting_tasks_def pool_ok_def)
  next
    case False
    then have "s' = s1" using assms(4) by (auto simp: pool_reserve_def Let_def s1_def split: if_splits)
    with s1 show ?thesis by simp
  qed
qed

text \<open>A worker step replaces the worker at its address; the old one's task is accounted for.\<close>

definition replaces :: "nat \<Rightarrow> worker \<Rightarrow> thread_pool \<Rightarrow> thread_pool \<Rightarrow> bool" where
  "replaces t w s s' \<longleftrightarrow> pool_ok s' \<and> pending s' + slot (tp_threads s t) = pending s + slot (Some w) \<and>
     tp_deleted s' = tp_deleted s"

lemma set_worker_replaces:
  assumes "pool_ok s" "worker_ok w'" "wk_task w' = wk_task w" "tp_threads s' = tp_threads s" "tp_queue s' = tp_queue s"
    "tp_deleted s' = tp_deleted s"
  shows "replaces t w s (set_worker t w' s')"
proof -
  have "finite (dom (tp_threads s))" using assms(1) by (simp add: pool_ok_def)
  from held_upd [OF this, of t "Some w'"] assms show ?thesis
    by (auto simp: replaces_def set_worker_def pending_def intro: pool_ok_upd simp: ac_simps)
qed

lemma worker_no_task_replaces:
  "pool_ok s \<Longrightarrow> thread_running (wk_thread w) \<Longrightarrow> wk_task w = None \<Longrightarrow> replaces t w s (worker_no_task t w s)"
  unfolding worker_no_task_def worker_retire_def
  by (auto intro!: set_worker_replaces simp: worker_ok_def)

lemma worker_loop_replaces:
  "pool_ok s \<Longrightarrow> thread_running (wk_thread w) \<Longrightarrow> replaces t w s (worker_loop t w s)"
  unfolding worker_loop_def
  by (cases "wk_task w") (auto intro!: set_worker_replaces worker_no_task_replaces simp: worker_ok_def)

lemma worker_fetch_loop_replaces:
  assumes "pool_ok s" "thread_running (wk_thread w)" "wk_task w = None" "worker_fetch w s = (w', s')"
  shows "replaces t w s (worker_loop t w' s')"
proof (cases "tp_queue s = []")
  case True
  with assms show ?thesis using worker_loop_replaces [OF assms(1,2)] by (simp add: worker_fetch_def)
next
  case False
  define e where "e = queue_top (tp_queue s)"
  have w': "w' = w\<lparr>wk_task := Some (fst e)\<rparr>" "s' = s\<lparr>tp_queue := queue_pop (tp_queue s)\<rparr>"
    using assms(4) False by (auto simp: worker_fetch_def e_def)
  have "pool_ok s'" using assms(1) by (simp add: pool_ok_def w')
  then have "replaces t w' s' (worker_loop t w' s')" using assms(2) by (intro worker_loop_replaces) (simp_all add: w')
  moreover have "pending s' + {#fst e#} = pending s"
    using waiting_tasks_pop [OF False] by (simp add: pending_def w' e_def add.commute)
  ultimately show ?thesis using assms(3) by (auto simp: replaces_def w')
qed

lemma replaces_upd:
  "replaces t w s1 s' \<Longrightarrow> tp_threads s1 = tp_threads s \<Longrightarrow> tp_queue s1 = tp_queue s \<Longrightarrow>
    tp_deleted s1 = tp_deleted s \<Longrightarrow> replaces t w s s'"
  by (simp add: replaces_def pending_def)

lemma dispose_task_simps [simp]:
  "tp_threads (dispose_task tk task s) = tp_threads s"
  "tp_queue (dispose_task tk task s) = tp_queue s"
  "pool_ok (dispose_task tk task s) = pool_ok s"
  "pending (dispose_task tk task s) = pending s"
  by (auto simp: dispose_task_def pool_ok_def pending_def split: option.splits)

lemma worker_executed_replaces:
  assumes "pool_ok s" "thread_running (wk_thread w)"
  shows "replaces t (w\<lparr>wk_task := None\<rparr>) (dispose_task tk (wk_task w) s) (worker_executed t tk w s)"
  using assms
  by (auto simp: worker_executed_def Let_def intro!: worker_no_task_replaces worker_fetch_loop_replaces split: prod.splits)

lemma worker_woken_replaces:
  assumes "pool_ok s" "thread_running (wk_thread w)" "wk_task w = None"
  shows "replaces t w s (worker_woken t expired w s)"
proof (cases expired)
  case True
  with assms show ?thesis
    by (auto simp: worker_woken_def worker_retire_def Let_def intro!: set_worker_replaces simp: worker_ok_def)
next
  case False
  define s1 where "s1 = s\<lparr>tp_pol := tp_pol s + 1\<rparr>"
  obtain w' s2 where "worker_fetch w s1 = (w', s2)" by fastforce
  moreover have "pool_ok s1" using assms(1) by (simp add: pool_ok_def s1_def)
  ultimately have "replaces t w s1 (worker_woken t expired w s)"
    using False assms(2,3) worker_fetch_loop_replaces [of s1 w w' s2 t] by (simp add: worker_woken_def Let_def s1_def)
  then show ?thesis by (rule replaces_upd) (simp_all add: s1_def)
qed

section \<open>No task is lost and none is executed twice\<close>

definition tasks_kept :: "pool_run \<Rightarrow> bool" where
  "tasks_kept r \<longleftrightarrow> (case r of (s, acc, ex) \<Rightarrow> pool_ok s \<and> acc = pending s + ex \<and> mset (tp_deleted s) \<subseteq># ex)"

lemma pool_step_keeps: "pool_step False r r' \<Longrightarrow> tasks_kept r \<Longrightarrow> tasks_kept r'"
proof (induction rule: pool_step.induct)
  case (start s new created task priority ok s' acc ex)
  then show ?case using pool_start_gains [of s created new task priority ok s']
    by (auto simp: tasks_kept_def gains_def)
next
  case (start_now s new created task ok s' acc ex)
  then show ?case using pool_start_now_gains [of s created new task ok s']
    by (cases ok) (auto simp: tasks_kept_def gains_def)
next
  case (reserve s new created n s' acc ex)
  then show ?case using pool_reserve_gains [of s created new n s'] by (auto simp: tasks_kept_def gains_def)
next
  case (run_begin s t w acc ex)
  then have "replaces t w s (worker_loop t w s)"
    by (intro worker_loop_replaces) (auto simp: tasks_kept_def pool_ok_def worker_ok_def)
  with run_begin show ?case by (auto simp: tasks_kept_def replaces_def)
next
  case (execute s t w task acc ex tk)
  then have "replaces t (w\<lparr>wk_task := None\<rparr>) (dispose_task tk (wk_task w) s) (worker_executed t tk w s)"
    by (intro worker_executed_replaces) (auto simp: tasks_kept_def pool_ok_def worker_ok_def)
  moreover have "mset (tp_deleted (dispose_task tk (Some task) s)) \<subseteq># add_mset task ex"
    using execute by (auto simp: tasks_kept_def dispose_task_def intro: subset_mset.order_trans)
  ultimately show ?case using execute by (auto simp: tasks_kept_def replaces_def)
next
  case (wait_leave s t w res ok c acc ex)
  then have "replaces t w s (set_worker t (w\<lparr>wk_pc := Relock (\<not> ok)\<rparr>) (s\<lparr>tp_ready := c\<rparr>))"
    by (intro set_worker_replaces) (auto simp: tasks_kept_def pool_ok_def worker_ok_def)
  with wait_leave show ?case by (auto simp: tasks_kept_def replaces_def)
next
  case (woken s t w expired acc ex)
  then have "replaces t w s (worker_woken t expired w s)"
    by (intro worker_woken_replaces) (auto simp: tasks_kept_def pool_ok_def worker_ok_def)
  with woken show ?case by (auto simp: tasks_kept_def replaces_def)
next
  case (cleanup s t w acc ex)
  then have "replaces t w s (set_worker t (w\<lparr>wk_thread := thread_cleanup (wk_thread w), wk_pc := Ended\<rparr>) s)"
    by (intro set_worker_replaces)
      (auto simp: tasks_kept_def pool_ok_def worker_ok_def thread_cleanup_def thread_running_def)
  with cleanup show ?case by (auto simp: tasks_kept_def replaces_def)
next
  case (join s t ts w acc ex)
  then have "finite (dom (tp_threads s))" "slot (tp_threads s t) = {#}"
    by (auto simp: tasks_kept_def pool_ok_def worker_ok_def)
  with join show ?case using held_upd_eq(1) [of "tp_threads s" t None]
    by (auto simp: tasks_kept_def pool_join_def pool_ok_def pending_def)
qed (auto simp: tasks_kept_def pool_ok_def pending_def set_retire_timeout_def pool_wait_begin_def pool_wait_round_def)

text \<open>C4: Whatever the callers do and however the threads of the pool are interleaved, every task the
  pool has accepted is in exactly one place: in the queue, with one of the threads, or executed; none
  is lost and none is executed more often than it was accepted; and the pool only deletes tasks that
  have been executed, each once. (As long as threads can be created
  and a retired thread has ended before it is restarted.)\<close>

theorem pool_tasks_conserved:
  assumes "pool_reachable False (s, accepted, executed)"
  shows "accepted = waiting_tasks (tp_queue s) + held (tp_threads s) + executed \<and> mset (tp_deleted s) \<subseteq># executed"
proof -
  obtain sysconf where r: "(pool_step False)\<^sup>*\<^sup>* (ThreadPool sysconf, {#}, {#}) (s, accepted, executed)"
    using assms by (auto simp: pool_reachable_def)
  have "tasks_kept (ThreadPool sysconf, {#}, {#})"
    by (simp add: tasks_kept_def ThreadPool_def pool_ok_def pending_def held_def waiting_tasks_def)
  with r have "tasks_kept (s, accepted, executed)"
    by (induction rule: rtranclp_induct) (auto intro: pool_step_keeps)
  then show ?thesis by (simp add: tasks_kept_def pending_def)
qed


theorem pool_tasks_conserved_witness:
  defines "s \<equiv> enqueue 5 1 (ThreadPool 0)"
  shows "{#5#} = waiting_tasks (tp_queue s) + held (tp_threads s) + {#} \<and> mset (tp_deleted s) \<subseteq># {#}"
proof (rule pool_tasks_conserved)
  have "pool_start 0 (Some 1) (Some 5) 1 (ThreadPool 0) = Ret (True, s)"
    by (simp add: s_def pool_start_def try_start_def ThreadPool_def ideal_count_def active_threads_def)
  moreover have "quiet (Some 1) (ThreadPool 0)" by (simp add: quiet_def ThreadPool_def)
  moreover have "tp_threads (ThreadPool 0) 0 = None" by (simp add: ThreadPool_def)
  ultimately have "pool_step False (ThreadPool 0, {#}, {#}) (s, {#5#}, {#})"
    using pool_step.start [of "ThreadPool 0" 0 False "Some 1" 5 1 True s "{#}" "{#}"] by simp
  then show "pool_reachable False (s, {#5#}, {#})" by (auto simp: pool_reachable_def)
qed

section \<open>Executing a schedule\<close>

text \<open>A schedule without faults as a list of events, to compute executions with; thread handles are 1
  and the pool deletes the tasks.\<close>

datatype pool_event = Ev_start nat nat | Ev_reserve nat u32 | Ev_begin nat | Ev_execute nat | Ev_leave nat | Ev_woken nat
  | Ev_cleanup nat | Ev_expire nat | Ev_retire nat

definition at_pc :: "thread_pool \<Rightarrow> nat \<Rightarrow> worker_pc \<Rightarrow> worker option" where
  "at_pc s t pc = (case tp_threads s t of None \<Rightarrow> None | Some w \<Rightarrow> if wk_pc w = pc then Some w else None)"

fun pool_exec :: "pool_event \<Rightarrow> pool_run \<Rightarrow> pool_run option" where
  "pool_exec (Ev_start new task) (s, acc, ex) =
     (if tp_threads s new = None \<and> quiet (Some 1) s then
        case pool_start new (Some 1) (Some task) 0 s of Ret (True, s') \<Rightarrow> Some (s', add_mset task acc, ex) | _ \<Rightarrow> None
      else None)"
| "pool_exec (Ev_reserve new n) (s, acc, ex) = (if tp_queue s = [] \<and> tp_threads s new = None \<and> quiet (Some 1) s then
     Some (s\<lparr>tp_res := (if tp_max s < n then tp_max s else n)\<rparr>, acc, ex) else None)"
| "pool_exec (Ev_begin t) (s, acc, ex) = (case at_pc s t Begin of None \<Rightarrow> None
     | Some w \<Rightarrow> Some (worker_loop t w s, acc, ex))"
| "pool_exec (Ev_execute t) (s, acc, ex) = (case at_pc s t Executing of None \<Rightarrow> None
     | Some w \<Rightarrow> (case wk_task w of None \<Rightarrow> None | Some task \<Rightarrow> Some (worker_executed t Task w s, acc, add_mset task ex)))"
| "pool_exec (Ev_leave t) (s, acc, ex) = (case at_pc s t In_wait of None \<Rightarrow> None
     | Some w \<Rightarrow> if wait_again 0 (tp_ready s) then None else
         Some (set_worker t (w\<lparr>wk_pc := Relock False\<rparr>) (s\<lparr>tp_ready := snd (wait_leave 0 (tp_ready s))\<rparr>), acc, ex))"
| "pool_exec (Ev_woken t) (s, acc, ex) = (case at_pc s t (Relock False) of None \<Rightarrow> None
     | Some w \<Rightarrow> Some (worker_woken t False w s, acc, ex))"
| "pool_exec (Ev_cleanup t) (s, acc, ex) = (case at_pc s t Returned of None \<Rightarrow> None
     | Some w \<Rightarrow> Some (set_worker t (w\<lparr>wk_thread := thread_cleanup (wk_thread w), wk_pc := Ended\<rparr>) s, acc, ex))"
| "pool_exec (Ev_expire t) (s, acc, ex) = (case at_pc s t In_wait of None \<Rightarrow> None
     | Some w \<Rightarrow> Some (set_worker t (w\<lparr>wk_pc := Relock True\<rparr>) (s\<lparr>tp_ready := snd (wait_leave 110 (tp_ready s))\<rparr>), acc, ex))"
| "pool_exec (Ev_retire t) (s, acc, ex) = (case at_pc s t (Relock True) of None \<Rightarrow> None
     | Some w \<Rightarrow> Some (worker_woken t True w s, acc, ex))"

fun pool_execs :: "pool_event list \<Rightarrow> pool_run \<Rightarrow> pool_run option" where
  "pool_execs [] r = Some r"
| "pool_execs (e # es) r = (case pool_exec e r of None \<Rightarrow> None | Some r' \<Rightarrow> pool_execs es r')"

lemma at_pc_eq: "at_pc s t pc = Some w \<longleftrightarrow> tp_threads s t = Some w \<and> wk_pc w = pc"
  by (auto simp: at_pc_def split: option.splits if_splits)

lemma reserve_empty:
  "tp_queue s = [] \<Longrightarrow> pool_reserve new created n s = Ret (s\<lparr>tp_res := (if tp_max s < n then tp_max s else n)\<rparr>)"
  by (simp add: pool_reserve_def Let_def)


lemma pool_exec_step: "pool_exec e (s, acc, ex) = Some r \<Longrightarrow> pool_step False (s, acc, ex) r"
proof (cases e)
  case (Ev_start new task)
  moreover assume "pool_exec e (s, acc, ex) = Some r"
  ultimately obtain s' where s': "tp_threads s new = None" "quiet (Some 1) s"
    "pool_start new (Some 1) (Some task) 0 s = Ret (True, s')" "r = (s', add_mset task acc, ex)"
    by (auto split: if_splits outcome.splits prod.splits bool.splits)
  show ?thesis
    unfolding s'(4) using pool_step.start [OF s'(1) _ s'(3), of False acc ex] s'(2) by simp
next
  case (Ev_reserve new n)
  moreover assume "pool_exec e (s, acc, ex) = Some r"
  ultimately show ?thesis
    by (auto intro!: pool_step.reserve [where new = new and created = "Some 1" and n = n] simp: reserve_empty split: if_splits)
next
  case (Ev_leave t)
  moreover assume "pool_exec e (s, acc, ex) = Some r"
  ultimately obtain w where w: "tp_threads s t = Some w" "wk_pc w = In_wait" "\<not> wait_again 0 (tp_ready s)"
    "r = (set_worker t (w\<lparr>wk_pc := Relock (\<not> True)\<rparr>) (s\<lparr>tp_ready := snd (wait_leave 0 (tp_ready s))\<rparr>), acc, ex)"
    by (auto simp: at_pc_eq split: option.splits if_splits)
  have "wait_leave 0 (tp_ready s) = (True, snd (wait_leave 0 (tp_ready s)))" by (simp add: wait_leave_def Let_def)
  then show ?thesis unfolding w(4) by (rule pool_step.wait_leave [OF w(1-3)])
next
  case (Ev_expire t)
  moreover assume "pool_exec e (s, acc, ex) = Some r"
  ultimately obtain w where w: "tp_threads s t = Some w" "wk_pc w = In_wait"
    "r = (set_worker t (w\<lparr>wk_pc := Relock (\<not> False)\<rparr>) (s\<lparr>tp_ready := snd (wait_leave 110 (tp_ready s))\<rparr>), acc, ex)"
    by (auto simp: at_pc_eq split: option.splits)
  have "wait_leave 110 (tp_ready s) = (False, snd (wait_leave 110 (tp_ready s)))" by (simp add: wait_leave_def Let_def)
  moreover have "\<not> wait_again 110 (tp_ready s)" by (simp add: wait_again_def)
  ultimately show ?thesis unfolding w(3) using pool_step.wait_leave [OF w(1,2)] by blast
qed (auto simp: at_pc_eq intro: pool_step.intros split: option.splits)

lemma pool_execs_steps: "pool_execs es r = Some r' \<Longrightarrow> (pool_step False)\<^sup>*\<^sup>* r r'"
proof (induction es arbitrary: r)
  case (Cons e es)
  obtain s acc ex where r: "r = (s, acc, ex)" by (cases r) auto
  obtain r1 where "pool_exec e r = Some r1" "pool_execs es r1 = Some r'"
    using Cons.prems by (auto split: option.splits)
  moreover from this have "pool_step False r r1" unfolding r by (intro pool_exec_step)
  ultimately show ?case using Cons.IH [of r1] by (auto intro: converse_rtranclp_into_rtranclp)
qed simp

text \<open>
  A pool that has stopped working: no thread is left, and the count of the active ones is wrong (it may have
  wrapped below 0), so that no new one is ever started.
\<close>

definition stopped :: "thread_pool \<Rightarrow> bool" where
  "stopped s \<longleftrightarrow> tp_joining s = None \<and> tp_all s \<noteq> [] \<and> tp_max s \<le> active_threads s \<and>
     (\<forall>t w. tp_threads s t = Some w \<longrightarrow> wk_pc w = Ended)"

lemma stopped_try: "stopped s \<Longrightarrow> try_start new created task s = Ret (False, s)"
  by (auto simp: stopped_def try_start_def)

lemma try_start_res:
  assumes "try_start new created task s = Ret (ok, s')"
  shows "tp_res s' = tp_res s"
proof (cases "tp_max s \<le> active_threads s \<or> 0 < tp_idl s \<or> tp_ret s = []")
  case True
  with assms show ?thesis
    by (auto simp: try_start_def enqueue_def spawn_def split: if_splits prod.splits)
next
  case False
  with assms show ?thesis by (auto simp: try_start_def Let_def split: option.splits prod.splits)
qed

lemma reserve_res:
  assumes "pool_reserve new created n s = Ret s'" "tp_res s' = tp_res s"
  shows "s' = s"
proof -
  define r where "r = (if tp_max s < n then tp_max s else n)"
  define s1 where "s1 = s\<lparr>tp_res := r\<rparr>"
  have "r \<le> n" by (auto simp: r_def)
  show ?thesis
  proof (cases "n < tp_res s \<and> tp_queue s1 \<noteq> []")
    case True
    define e where "e = queue_top (tp_queue s1)"
    obtain ok s3 where t: "try_start new created (fst e) (s1\<lparr>tp_queue := queue_pop (tp_queue s1)\<rparr>) = Ret (ok, s3)"
      "s' = (if ok then s3 else s3\<lparr>tp_queue := e # tp_queue s3\<rparr>)"
      using assms(1) True by (auto simp: pool_reserve_def Let_def r_def [symmetric] s1_def [symmetric] e_def obind_Ret_eq)
    have "tp_res s' = r" using try_start_res [OF t(1)] t(2) by (simp add: s1_def)
    with assms(2) True \<open>r \<le> n\<close> show ?thesis by auto
  next
    case False
    then have "s' = s1" using assms(1)
      by (auto simp: pool_reserve_def Let_def r_def [symmetric] s1_def [symmetric] split: if_splits)
    with assms(2) show ?thesis by (simp add: s1_def)
  qed
qed

lemma stopped_step:
  assumes "pool_step faults (s, acc, ex) (s', acc', ex')" "stopped s"
    and "tp_res s' = tp_res s" "tp_joining s' = None"
  shows "stopped s' \<and> ex' = ex"
  using assms
proof (cases rule: pool_step.cases)
  case (start new created task priority ok)
  then have "s' = enqueue task priority s" "ex' = ex"
    using stopped_try [OF assms(2)] by (simp_all add: pool_start_def)
  with assms(2) show ?thesis by (simp add: stopped_def enqueue_def active_threads_def)
next
  case (start_now new created task ok)
  with assms(2) stopped_try [OF assms(2)] show ?thesis by (auto simp: pool_start_now_def split: if_splits)
next
  case (reserve new created n)
  then have "s' = s" using assms(3) by (intro reserve_res)
  with reserve assms(2) show ?thesis by simp
qed (use assms in \<open>auto simp: stopped_def set_retire_timeout_def active_threads_def pool_wait_begin_def pool_wait_round_def\<close>)


text \<open>The schedule: a reservation is made and released while a thread of the pool waits for work.\<close>

definition reservation_schedule :: "pool_event list" where
  "reservation_schedule = [Ev_start 1 10, Ev_begin 1, Ev_execute 1, Ev_reserve 2 1, Ev_start 2 11, Ev_leave 1, Ev_woken 1,
     Ev_execute 1, Ev_reserve 2 0, Ev_start 2 12, Ev_leave 1, Ev_woken 1, Ev_start 2 13, Ev_execute 1, Ev_cleanup 1]"

lemma wrapped_counts: "(1 :: u32) < -1" "(1 :: u32) < -2" "(1 :: u32) \<le> -1" "(1 :: u32) \<le> -2"
proof -
  have "(-1 :: u32) = 0xffffffff" "(-2 :: u32) = 0xfffffffe" by simp_all
  then show "(1 :: u32) < -1" "(1 :: u32) < -2" "(1 :: u32) \<le> -1" "(1 :: u32) \<le> -2"
    by (simp_all only:) simp_all
qed

lemma reservation_run:
  "\<exists>s. pool_execs reservation_schedule (ThreadPool 1, {#}, {#}) = Some (s, {#10, 11, 12, 13#}, {#10, 11, 12#}) \<and>
     stopped s \<and> map fst (tp_queue s) = [13]"
  unfolding reservation_schedule_def
  by (simp add: ThreadPool_def ideal_count_def pool_start_def try_start_def active_threads_def quiet_def spawn_def
      start_worker_def InternalThread_def thread_start_def Thread_def at_pc_def worker_loop_def set_worker_def
      worker_executed_def dispose_task_def overworking_def worker_fetch_def worker_no_task_def wait_enter_def WaitCondition_def
      enqueue_def signal_one_def wait_again_def wait_leave_def worker_woken_def queue_top_def queue_pop_def
      worker_retire_def thread_cleanup_def stopped_def Let_def wrapped_counts)


text \<open>C37: A pool of one thread on which \<open>reserve(1)\<close> is called while its thread is idle, a task is started,
  and \<open>reserve(0)\<close> is called, loses count of its threads: \<open>start\<close> signals the waiting thread without
  taking it from \<open>idl_threads_\<close>. The count of active threads then wraps below 0 and the thread retires
  with a task in the queue. From then on \<open>start\<close> answers true and only ever queues the task (and by
  \<open>stopped_step\<close> no call but \<open>wait\<close> and \<open>reserve\<close> can get a task executed again).\<close>

theorem reservation_strands_tasks:
  "\<exists>s. pool_reachable False (s, {#10, 11, 12, 13#}, {#10, 11, 12#}) \<and> stopped s \<and> map fst (tp_queue s) = [13] \<and>
     (\<forall>new created task priority. pool_start new created (Some task) priority s = Ret (True, enqueue task priority s))"
proof -
  obtain s where s: "pool_execs reservation_schedule (ThreadPool 1, {#}, {#}) = Some (s, {#10, 11, 12, 13#}, {#10, 11, 12#})"
    "stopped s" "map fst (tp_queue s) = [13]" using reservation_run by (elim exE conjE)
  have "pool_reachable False (s, {#10, 11, 12, 13#}, {#10, 11, 12#})"
    unfolding pool_reachable_def using pool_execs_steps [OF s(1)] by (rule exI [of _ 1])
  moreover have "\<forall>new created task priority. pool_start new created (Some task) priority s = Ret (True, enqueue task priority s)"
    by (simp add: pool_start_def stopped_try [OF s(2)])
  ultimately show ?thesis using s(2,3) by (intro exI [of _ s] conjI)
qed

text \<open>
  The race between a time-out and a new task: \<open>start\<close> takes the idle thread from the count, but its wait
  has just timed out; the thread takes itself from the count a second time, which wraps, and retires.
  The task stays in the queue.
\<close>

definition timeout_schedule :: "pool_event list" where
  "timeout_schedule = [Ev_start 1 10, Ev_begin 1, Ev_execute 1, Ev_start 2 11, Ev_expire 1, Ev_retire 1, Ev_cleanup 1]"

lemma timeout_run:
  "\<exists>s. pool_execs timeout_schedule (ThreadPool 1, {#}, {#}) = Some (s, {#10, 11#}, {#10#}) \<and>
     stopped s \<and> map fst (tp_queue s) = [11] \<and> tp_idl s = -1"
  unfolding timeout_schedule_def
  by (simp add: ThreadPool_def ideal_count_def pool_start_def try_start_def active_threads_def quiet_def spawn_def
      start_worker_def InternalThread_def thread_start_def Thread_def at_pc_def worker_loop_def set_worker_def
      worker_executed_def dispose_task_def overworking_def worker_fetch_def worker_no_task_def wait_enter_def WaitCondition_def
      enqueue_def signal_one_def wait_again_def wait_leave_def worker_woken_def queue_top_def queue_pop_def
      worker_retire_def thread_cleanup_def stopped_def Let_def wrapped_counts)

lemma timeout_strands_task:
  "\<exists>s. pool_reachable False (s, {#10, 11#}, {#10#}) \<and> stopped s \<and> map fst (tp_queue s) = [11]"
proof -
  obtain s where s: "pool_execs timeout_schedule (ThreadPool 1, {#}, {#}) = Some (s, {#10, 11#}, {#10#})"
    "stopped s" "map fst (tp_queue s) = [11]" using timeout_run by (elim exE conjE)
  have "pool_reachable False (s, {#10, 11#}, {#10#})"
    unfolding pool_reachable_def using pool_execs_steps [OF s(1)] by (rule exI [of _ 1])
  with s(2,3) show ?thesis by (intro exI [of _ s] conjI)
qed

end
