(* ===== verification/Pool_Progress.thy ===== *)
theory Pool_Progress
  imports Thread_Pool
begin

text \<open>
  The thread pool gets its work done: as long as nothing is reserved, no wait of a thread times out and
  the pool is not shut down, a task in the queue always has a thread that will fetch it, and from
  every reachable state the threads of the pool can execute everything that has been accepted. The
  invariant counts the threads by where they are, and ties the counters of the pool and of its wait
  condition to these numbers.
\<close>

section \<open>Counting the threads\<close>

definition workers_at :: "(worker_pc \<Rightarrow> bool) \<Rightarrow> (nat \<Rightarrow> worker option) \<Rightarrow> nat set" where
  "workers_at P f = {t. \<exists>w. f t = Some w \<and> P (wk_pc w)}"

definition count_at :: "(worker_pc \<Rightarrow> bool) \<Rightarrow> (nat \<Rightarrow> worker option) \<Rightarrow> nat" where
  "count_at P f = card (workers_at P f)"

abbreviation busy :: "worker_pc \<Rightarrow> bool" where "busy pc \<equiv> pc = Begin \<or> pc = Executing"
abbreviation waiting :: "worker_pc \<Rightarrow> bool" where "waiting pc \<equiv> pc = In_wait"
abbreviation awake :: "worker_pc \<Rightarrow> bool" where "awake pc \<equiv> pc = Relock False"

lemma workers_at_finite: "finite (dom f) \<Longrightarrow> finite (workers_at P f)"
  by (rule finite_subset [of _ "dom f"]) (auto simp: workers_at_def)

lemma count_at_upd:
  assumes "finite (dom f)"
  shows "count_at P (f(t \<mapsto> w)) + (if t \<in> workers_at P f then 1 else 0) = count_at P f + (if P (wk_pc w) then 1 else 0)"
proof -
  let ?A = "workers_at P f - {t}"
  have f: "finite (workers_at P f)" using assms by (rule workers_at_finite)
  have u: "workers_at P (f(t \<mapsto> w)) = (if P (wk_pc w) then insert t ?A else ?A)"
    by (auto simp: workers_at_def)
  have "card (insert t ?A) = Suc (card ?A)" using f by (intro card_insert_disjoint) simp_all
  then have "count_at P (f(t \<mapsto> w)) = card ?A + (if P (wk_pc w) then 1 else 0)"
    unfolding count_at_def u by simp
  moreover have "count_at P f = card ?A + (if t \<in> workers_at P f then 1 else 0)"
    using f card_Suc_Diff1 [OF f, of t] by (auto simp: count_at_def)
  ultimately show ?thesis by simp
qed

lemma count_at_pos: "finite (dom f) \<Longrightarrow> f t = Some w \<Longrightarrow> P (wk_pc w) \<Longrightarrow> 0 < count_at P f"
  using workers_at_finite [of f P] by (auto simp: count_at_def card_gt_0_iff workers_at_def)

lemma count_at_posE:
  assumes "0 < count_at P f"
  obtains t w where "f t = Some w" "P (wk_pc w)"
  using assms by (auto simp: count_at_def card_gt_0_iff workers_at_def)

section \<open>The invariant\<close>

definition pool_calm :: "thread_pool \<Rightarrow> bool" where
  "pool_calm s \<longleftrightarrow> tp_res s = 0 \<and> \<not> tp_exiting s \<and> (\<forall>t w. tp_threads s t = Some w \<longrightarrow> wk_pc w \<noteq> Relock True)"

definition worker_live :: "worker \<Rightarrow> bool" where
  "worker_live w \<longleftrightarrow> (busy (wk_pc w) \<or> waiting (wk_pc w) \<or> awake (wk_pc w)) \<and> (busy (wk_pc w) \<longleftrightarrow> wk_task w \<noteq> None)"

definition workers_live :: "(nat \<Rightarrow> worker option) \<Rightarrow> bool" where
  "workers_live f \<longleftrightarrow> finite (dom f) \<and> (\<forall>t w. f t = Some w \<longrightarrow> worker_live w)"

lemma workers_liveD: "workers_live f \<Longrightarrow> f t = Some w \<Longrightarrow> worker_live w" "workers_live f \<Longrightarrow> finite (dom f)"
  by (auto simp: workers_live_def)

lemma workers_live_upd: "workers_live f \<Longrightarrow> worker_live w \<Longrightarrow> workers_live (f(t \<mapsto> w))"
  by (auto simp: workers_live_def)

definition pool_inv :: "thread_pool \<Rightarrow> bool" where
  "pool_inv s \<longleftrightarrow>
     workers_live (tp_threads s) \<and>
     tp_res s = 0 \<and> \<not> tp_exiting s \<and> tp_ret s = [] \<and> tp_joining s = None \<and>
     length (tp_all s) = card (dom (tp_threads s)) \<and> length (tp_all s) \<le> unat (tp_max s) \<and> 0 < tp_max s \<and> tp_max s < 0xffffffff \<and>
     wc_waiters (tp_ready s) = of_nat (count_at waiting (tp_threads s)) \<and>
     unat (tp_idl s) + unat (wc_wakeups (tp_ready s)) \<le> count_at waiting (tp_threads s) \<and>
     (tp_queue s \<noteq> [] \<longrightarrow> 0 < count_at busy (tp_threads s) \<or> 0 < count_at awake (tp_threads s) \<or> 0 < wc_wakeups (tp_ready s))"

lemma pool_inv_calm: "pool_inv s \<Longrightarrow> pool_calm s"
  by (auto simp: pool_inv_def pool_calm_def worker_live_def dest: workers_liveD(1))

lemma pool_inv_total:
  assumes "pool_inv s"
  shows "length (tp_all s) = count_at busy (tp_threads s) + count_at waiting (tp_threads s) + count_at awake (tp_threads s)"
proof -
  let ?f = "tp_threads s"
  have f: "finite (dom ?f)" and l: "\<And>t w. ?f t = Some w \<Longrightarrow> worker_live w"
    using assms workers_liveD [of ?f] by (auto simp: pool_inv_def)
  have "dom ?f = workers_at busy ?f \<union> workers_at waiting ?f \<union> workers_at awake ?f"
    using l by (fastforce simp: workers_at_def worker_live_def)
  moreover have "workers_at busy ?f \<inter> workers_at waiting ?f = {}"
    "(workers_at busy ?f \<union> workers_at waiting ?f) \<inter> workers_at awake ?f = {}" by (auto simp: workers_at_def)
  ultimately have "card (dom ?f) = count_at busy ?f + count_at waiting ?f + count_at awake ?f"
    unfolding count_at_def using workers_at_finite [OF f] by (simp add: card_Un_disjoint)
  then show ?thesis using assms by (simp add: pool_inv_def)
qed

lemma pool_inv_active:
  assumes "pool_inv s"
  shows "unat (active_threads s) = length (tp_all s) - unat (tp_idl s)" "unat (tp_idl s) \<le> length (tp_all s)"
    "active_threads s \<le> tp_max s"
proof -
  show le: "unat (tp_idl s) \<le> length (tp_all s)"
    using assms pool_inv_total [OF assms] by (auto simp: pool_inv_def)
  have "length (tp_all s) \<le> unat (tp_max s)" using assms by (simp add: pool_inv_def)
  moreover have "unat (tp_max s) < 2 ^ 32" by (rule unat_lt_u32)
  ultimately have "length (tp_all s) < 2 ^ 32" by linarith
  then have n: "unat (of_nat (length (tp_all s)) :: u32) = length (tp_all s)" by simp
  have "active_threads s = of_nat (length (tp_all s)) - tp_idl s"
    using assms by (auto simp: active_threads_def pool_inv_def)
  then show a: "unat (active_threads s) = length (tp_all s) - unat (tp_idl s)"
    using unat_u32_diff [of "tp_idl s" "of_nat (length (tp_all s))"] n le by simp
  show "active_threads s \<le> tp_max s" using assms a by (auto simp: pool_inv_def word_le_nat_alt)
qed

lemma pool_inv_not_overworking: "pool_inv s \<Longrightarrow> \<not> overworking s"
  using pool_inv_active(3) [of s] by (auto simp: overworking_def)

section \<open>The operations keep the invariant\<close>

text \<open>A thread moves, and the counters move with it.\<close>

lemma pool_inv_move:
  assumes inv: "pool_inv s" and w: "tp_threads s t = Some w" and live: "worker_live w'"
    and s': "tp_threads s' = (tp_threads s)(t \<mapsto> w')" "tp_res s' = tp_res s" "tp_exiting s' = tp_exiting s"
      "tp_ret s' = tp_ret s" "tp_joining s' = tp_joining s" "tp_all s' = tp_all s" "tp_max s' = tp_max s"
    and waiters: "wc_waiters (tp_ready s') + (if waiting (wk_pc w) then 1 else 0) =
      wc_waiters (tp_ready s) + (if waiting (wk_pc w') then 1 else 0)"
    and idle: "unat (tp_idl s') + unat (wc_wakeups (tp_ready s')) + (if waiting (wk_pc w) then 1 else 0) \<le>
      unat (tp_idl s) + unat (wc_wakeups (tp_ready s)) + (if waiting (wk_pc w') then 1 else 0)"
    and queue: "tp_queue s' \<noteq> [] \<Longrightarrow> busy (wk_pc w') \<or> awake (wk_pc w')"
  shows "pool_inv s'"
proof -
  let ?f = "tp_threads s" and ?g = "tp_threads s'"
  have l: "workers_live ?f" using inv by (simp add: pool_inv_def)
  note f = workers_liveD(2) [OF l]
  have t: "t \<in> workers_at P ?f \<longleftrightarrow> P (wk_pc w)" for P using w by (simp add: workers_at_def)
  have c: "count_at P ?g + (if P (wk_pc w) then 1 else 0) = count_at P ?f + (if P (wk_pc w') then 1 else 0)" for P
    using count_at_upd [OF f, of P t w'] unfolding s'(1) t .
  have d: "dom ?g = dom ?f" using w by (auto simp: s'(1))
  have n: "of_nat (count_at waiting ?g) + (if waiting (wk_pc w) then 1 else 0) =
      (of_nat (count_at waiting ?f) + (if waiting (wk_pc w') then 1 else 0) :: u32)"
    using arg_cong [OF c [of waiting], of "of_nat :: nat \<Rightarrow> u32"] by (simp split: if_splits)
  have "wc_waiters (tp_ready s) = of_nat (count_at waiting ?f)" using inv by (simp add: pool_inv_def)
  with waiters n have "wc_waiters (tp_ready s') + (if waiting (wk_pc w) then 1 else 0) =
      of_nat (count_at waiting ?g) + (if waiting (wk_pc w) then 1 else 0)" by simp
  then have "wc_waiters (tp_ready s') = of_nat (count_at waiting ?g)" by (rule add_right_imp_eq)
  moreover have "unat (tp_idl s') + unat (wc_wakeups (tp_ready s')) \<le> count_at waiting ?g"
    using idle c [of waiting] inv by (auto simp: pool_inv_def split: if_splits)
  moreover have "tp_queue s' \<noteq> [] \<longrightarrow> 0 < count_at busy ?g \<or> 0 < count_at awake ?g"
  proof
    assume "tp_queue s' \<noteq> []"
    then have "busy (wk_pc w') \<or> awake (wk_pc w')" by (rule queue)
    moreover have "?g t = Some w'" "finite (dom ?g)" using f d by (simp_all add: s'(1))
    ultimately show "0 < count_at busy ?g \<or> 0 < count_at awake ?g" 
      using count_at_pos [of ?g t w' busy] count_at_pos [of ?g t w' awake] by auto
  qed
  moreover have "workers_live ?g" unfolding s'(1) using l live by (rule workers_live_upd)
  ultimately show ?thesis using inv s'(2-7) unfolding pool_inv_def d by auto
qed

lemma pool_inv_no_task:
  assumes inv: "pool_inv s" and w: "tp_threads s t = Some w0" and w0: "\<not> waiting (wk_pc w0)"
    and k: "wk_task w = None" and q: "tp_queue s = []"
  shows "pool_inv (worker_no_task t w s)"
proof -
  have n: "worker_no_task t w s = set_worker t (w\<lparr>wk_pc := In_wait\<rparr>)
        (s\<lparr>tp_idl := tp_idl s + 1, tp_pol := tp_pol s - 1, tp_ready := wait_enter (tp_ready s)\<rparr>)"
    using inv pool_inv_not_overworking [OF inv] by (simp add: worker_no_task_def pool_inv_def)
  show ?thesis unfolding n
    by (rule pool_inv_move [OF inv w, of "w\<lparr>wk_pc := In_wait\<rparr>"])
      (use w0 k q unat_succ_le_u32 [of "tp_idl s"] in \<open>simp_all add: set_worker_def wait_enter_def worker_live_def\<close>)
qed

lemma pool_inv_fetch_loop:
  assumes inv: "pool_inv s" and w: "tp_threads s t = Some w0" and w0: "\<not> waiting (wk_pc w0)"
    and k: "wk_task w = None" and f: "worker_fetch w s = (w', s')"
  shows "pool_inv (worker_loop t w' s')"
proof (cases "tp_queue s = []")
  case True
  then have "w' = w" "s' = s" using f by (simp_all add: worker_fetch_def)
  then show ?thesis using pool_inv_no_task [OF inv w w0 k True] k by (simp add: worker_loop_def)
next
  case False
  define task where "task = fst (queue_top (tp_queue s))"
  have e: "worker_loop t w' s' = set_worker t (w\<lparr>wk_task := Some task, wk_pc := Executing\<rparr>) (s\<lparr>tp_queue := queue_pop (tp_queue s)\<rparr>)"
    using f False by (auto simp: worker_fetch_def worker_loop_def task_def)
  show ?thesis unfolding e
    by (rule pool_inv_move [OF inv w, of "w\<lparr>wk_task := Some task, wk_pc := Executing\<rparr>"])
      (use w0 in \<open>simp_all add: set_worker_def worker_live_def\<close>)
qed

lemma pool_inv_same:
  "pool_inv s \<Longrightarrow> tp_threads s' = tp_threads s \<Longrightarrow> tp_res s' = tp_res s \<Longrightarrow> tp_exiting s' = tp_exiting s \<Longrightarrow>
   tp_ret s' = tp_ret s \<Longrightarrow> tp_joining s' = tp_joining s \<Longrightarrow> tp_all s' = tp_all s \<Longrightarrow> tp_max s' = tp_max s \<Longrightarrow>
   tp_ready s' = tp_ready s \<Longrightarrow> tp_idl s' = tp_idl s \<Longrightarrow> tp_queue s' = tp_queue s \<Longrightarrow> pool_inv s'"
  by (simp add: pool_inv_def)

lemma pool_inv_executed:
  assumes inv: "pool_inv s" and w: "tp_threads s t = Some w" "wk_pc w = Executing"
  shows "pool_inv (worker_executed t tk w s)"
proof -
  define s1 where "s1 = dispose_task tk (wk_task w) s"
  have s1: "pool_inv s1" using inv unfolding s1_def
    by (rule pool_inv_same) (auto simp: dispose_task_def split: option.splits)
  obtain w' s2 where f: "worker_fetch (w\<lparr>wk_task := None\<rparr>) s1 = (w', s2)" by fastforce
  have "tp_threads s1 t = Some w" using w(1) by (simp add: s1_def)
  from pool_inv_fetch_loop [OF s1 this _ _ f] show ?thesis
    using w(2) f pool_inv_not_overworking [OF s1] by (simp add: worker_executed_def Let_def s1_def [symmetric])
qed

lemma pool_inv_woken:
  assumes inv: "pool_inv s" and w: "tp_threads s t = Some w" "wk_pc w = Relock False"
  shows "pool_inv (worker_woken t False w s)"
proof -
  define s1 where "s1 = s\<lparr>tp_pol := tp_pol s + 1\<rparr>"
  have s1: "pool_inv s1" using inv unfolding s1_def by (rule pool_inv_same) simp_all
  obtain w' s2 where f: "worker_fetch w s1 = (w', s2)" by fastforce
  have "tp_threads s1 t = Some w" using w(1) by (simp add: s1_def)
  moreover have "wk_task w = None"
    using inv w by (auto simp: pool_inv_def worker_live_def dest!: workers_liveD(1))
  ultimately show ?thesis
    using pool_inv_fetch_loop [OF s1 _ _ _ f, of t w] f w(2) by (simp add: worker_woken_def Let_def s1_def [symmetric])
qed

lemma pool_inv_leave:
  assumes inv: "pool_inv s" and w: "tp_threads s t = Some w" "wk_pc w = In_wait" and k: "0 < wc_wakeups (tp_ready s)"
  shows "pool_inv (set_worker t (w\<lparr>wk_pc := Relock False\<rparr>) (s\<lparr>tp_ready := snd (wait_leave 0 (tp_ready s))\<rparr>))"
  by (rule pool_inv_move [OF inv w(1), of "w\<lparr>wk_pc := Relock False\<rparr>"])
    (use inv w k unat_pred_u32 [of "wc_wakeups (tp_ready s)"] in
     \<open>auto simp: set_worker_def wait_leave_def Let_def worker_live_def pool_inv_def dest!: workers_liveD(1)\<close>)

lemma pool_inv_begin:
  assumes inv: "pool_inv s" and w: "tp_threads s t = Some w" "wk_pc w = Begin"
  shows "pool_inv (worker_loop t w s)"
proof -
  have "wk_task w \<noteq> None" using inv w by (auto simp: pool_inv_def worker_live_def dest!: workers_liveD(1))
  then have e: "worker_loop t w s = set_worker t (w\<lparr>wk_pc := Executing\<rparr>) s" by (auto simp: worker_loop_def)
  show ?thesis unfolding e
    by (rule pool_inv_move [OF inv w(1), of "w\<lparr>wk_pc := Executing\<rparr>"])
      (use w \<open>wk_task w \<noteq> None\<close> in \<open>simp_all add: set_worker_def worker_live_def\<close>)
qed

text \<open>A new task: a thread is made for it, an idle one is signalled, or all of them have work.\<close>

lemma pool_inv_signal:
  assumes inv: "pool_inv s" and idl: "unat idl + 1 = unat (tp_idl s) \<or> idl = 0 \<and> tp_idl s = 0"
    and room: "idl = 0 \<and> tp_idl s = 0 \<Longrightarrow> tp_max s \<le> active_threads s"
  shows "pool_inv (enqueue task priority (s\<lparr>tp_idl := idl\<rparr>))"
proof -
  let ?f = "tp_threads s" and ?k = "wc_wakeups (tp_ready s)" and ?W = "count_at waiting (tp_threads s)"
  have W: "wc_waiters (tp_ready s) = of_nat ?W" "unat (tp_idl s) + unat ?k \<le> ?W" using inv by (simp_all add: pool_inv_def)
  have "?W \<le> length (tp_all s)" "length (tp_all s) \<le> unat (tp_max s)"
    using pool_inv_total [OF inv] inv by (simp_all add: pool_inv_def)
  moreover have "unat (tp_max s) < 2 ^ 32 - 1" using inv by (simp add: pool_inv_def word_less_nat_alt)
  ultimately have l: "?W < 2 ^ 32 - 1" by linarith
  then have w: "unat (wc_waiters (tp_ready s)) = ?W" using W(1) by simp
  have "unat (?k + 1) = unat ?k + 1" using unat_u32_add [of ?k 1] W(2) l by simp
  then have k1: "unat (min (?k + 1) (wc_waiters (tp_ready s))) = min (unat ?k + 1) ?W"
    using w by (auto simp: min_def word_le_nat_alt)
  have "0 < count_at busy ?f \<or> 0 < count_at awake ?f \<or> 0 < min (?k + 1) (wc_waiters (tp_ready s))"
  proof (cases "?W = 0")
    case True
    then have "idl = 0 \<and> tp_idl s = 0" using W(2) idl by auto
    then have "tp_max s \<le> active_threads s" by (rule room)
    then have "0 < length (tp_all s)" using inv pool_inv_active(1) [OF inv]
      by (auto simp: pool_inv_def word_le_nat_alt word_less_nat_alt)
    then show ?thesis using pool_inv_total [OF inv] True by auto
  next
    case False
    then show ?thesis using k1 by (simp add: word_less_nat_alt)
  qed
  moreover have "unat idl + min (unat ?k + 1) ?W \<le> ?W" using W(2) idl by auto
  ultimately show ?thesis using inv k1 by (simp add: pool_inv_def enqueue_def signal_one_def)
qed

lemma pool_inv_spawn:
  assumes inv: "pool_inv s" and new: "tp_threads s new = None" and room: "active_threads s < tp_max s" "tp_idl s = 0"
    and w: "spawn new (Some h) task s = (ok, s')"
  shows "ok \<and> pool_inv s'"
proof -
  obtain wk where k: "start_worker (Some h) (InternalThread task) = (True, wk)" "wk_pc wk = Begin" "wk_task wk = Some task"
    by (auto simp: start_worker_def InternalThread_def thread_start_def Thread_def)
  have s': "ok" "s' = s\<lparr>tp_all := tp_all s @ [new], tp_pol := tp_pol s + 1, tp_threads := (tp_threads s)(new \<mapsto> wk)\<rparr>"
    using w k by (simp_all add: spawn_def)
  let ?f = "tp_threads s" and ?g = "(tp_threads s)(new \<mapsto> wk)"
  have l: "workers_live ?f" using inv by (simp add: pool_inv_def)
  note f = workers_liveD(2) [OF l]
  have "new \<notin> workers_at P ?f" for P using new by (simp add: workers_at_def)
  then have c: "count_at P ?g = count_at P ?f + (if P Begin then 1 else 0)" for P
    using count_at_upd [OF f, of P new wk] k(2) by simp
  have "length (tp_all s) + 1 \<le> unat (tp_max s)"
    using room pool_inv_active(1) [OF inv] by (simp add: word_less_nat_alt)
  moreover have "workers_live ?g" using l k by (intro workers_live_upd) (simp_all add: worker_live_def)
  moreover have "card (dom ?g) = card (dom ?f) + 1" using f new by (simp add: domIff)
  ultimately show ?thesis using inv c [of waiting] c [of busy] by (simp add: s' pool_inv_def)
qed

lemma pool_inv_try_start:
  assumes inv: "pool_inv s" and q: "quiet created s" "tp_threads s new = None"
    and t: "try_start new created task s = Ret (ok, s')"
  shows "pool_inv s' \<and> (\<not> ok \<longrightarrow> s' = s \<and> tp_max s \<le> active_threads s)"
proof -
  consider (full) "tp_max s \<le> active_threads s" | (idle) "\<not> tp_max s \<le> active_threads s" "0 < tp_idl s"
    | (fresh) "active_threads s < tp_max s" "tp_idl s = 0"
    by (metis not_le word_gt_0)
  then show ?thesis
  proof cases
    case full
    with t inv show ?thesis by (auto simp: try_start_def)
  next
    case idle
    then have s': "ok" "s' = enqueue task 0 (s\<lparr>tp_idl := tp_idl s - 1\<rparr>)" using t by (auto simp: try_start_def)
    have "unat (tp_idl s - 1) + 1 = unat (tp_idl s)" using idle(2) unat_pred_u32 [of "tp_idl s"] by auto
    then have "pool_inv s'" unfolding s'(2) by (intro pool_inv_signal [OF inv]) (use idle(2) in auto)
    with s' show ?thesis by simp
  next
    case fresh
    obtain h where h: "created = Some h" using q(1) by (auto simp: quiet_def)
    have "spawn new (Some h) task s = (ok, s')"
    proof -
      have "\<not> tp_max s \<le> active_threads s" "tp_ret s = []" using fresh(1) inv by (simp_all add: pool_inv_def)
      then show ?thesis using t fresh(2) h by (simp add: try_start_def)
    qed
    from pool_inv_spawn [OF inv q(2) fresh this] show ?thesis by simp
  qed
qed

lemma pool_inv_start:
  assumes inv: "pool_inv s" and q: "quiet created s" "tp_threads s new = None"
    and t: "pool_start new created (Some task) priority s = Ret (ok, s')"
  shows "pool_inv s'"
proof -
  obtain k s1 where k: "try_start new created task s = Ret (k, s1)" "s' = (if k then s1 else enqueue task priority s1)"
    using t by (auto simp: pool_start_def obind_Ret_eq)
  note i = pool_inv_try_start [OF inv q k(1)]
  show ?thesis
  proof (cases k)
    case False
    then have full: "s1 = s" "tp_max s \<le> active_threads s" using i by simp_all
    then have "unat (tp_idl s) = 0"
      using pool_inv_active(1,2) [OF inv] inv by (auto simp: pool_inv_def word_le_nat_alt)
    then have z: "tp_idl s = 0" by (simp add: unat_eq_0)
    have "pool_inv (enqueue task priority (s\<lparr>tp_idl := 0\<rparr>))" using full(2) z by (intro pool_inv_signal [OF inv]) auto
    moreover have "s\<lparr>tp_idl := 0\<rparr> = s" using z by (cases s) simp
    ultimately show ?thesis using False k(2) full(1) by simp
  qed (use i k in simp)
qed

text \<open>A step that leaves the pool calm keeps the invariant.\<close>

lemma pool_inv_step:
  "pool_step False r r' \<Longrightarrow> pool_inv (fst r) \<Longrightarrow> pool_calm (fst r') \<Longrightarrow> pool_inv (fst r')"
proof (induction rule: pool_step.induct)
  case (start s new created task priority ok s' acc ex)
  then show ?case using pool_inv_start [of s created new task priority ok s'] by simp
next
  case (start_now s new created task ok s' acc ex)
  then show ?case using pool_inv_try_start [of s created new task ok s']
    by (auto simp: pool_start_now_def split: if_splits)
next
  case (reserve s new created n s' acc ex)
  then have "tp_res s' = tp_res s" by (simp add: pool_inv_def pool_calm_def)
  with reserve show ?case using reserve_res [of new created n s s'] by simp
next
  case (timeout s acc ex n)
  from timeout(1) have "pool_inv (set_retire_timeout n s)"
    by (simp add: pool_inv_def set_retire_timeout_def)
  then show ?case by simp
next
  case (run_begin s t w acc ex)
  then show ?case using pool_inv_begin [of s t w] by simp
next
  case (execute s t w task acc ex tk)
  then show ?case using pool_inv_executed [of s t w tk] by simp
next
  case (wait_leave s t w res ok c acc ex)
  have "ok" using wait_leave(6) by (auto simp: pool_calm_def set_worker_def dest!: spec [of _ t])
  then have res: "res = 0" "c = snd (wait_leave 0 (tp_ready s))"
    using wait_leave(4) by (auto simp: wait_leave_def Let_def)
  then have "0 < wc_wakeups (tp_ready s)" using wait_leave(3) by (auto simp: wait_again_def word_gt_0)
  from pool_inv_leave [OF _ wait_leave(1,2) this] wait_leave(5) show ?case using \<open>ok\<close> res(2) by simp
next
  case (woken s t w expired acc ex)
  then have "\<not> expired" by (auto simp: pool_inv_def worker_live_def dest!: workers_liveD(1))
  with woken show ?case using pool_inv_woken [of s t w] by simp
next
  case (cleanup s t w acc ex)
  then show ?case by (auto simp: pool_inv_def worker_live_def dest!: workers_liveD(1))
next
  case (wait s acc ex)
  show ?case
  proof (cases "tp_all s = []")
    case True
    then have "count_at P (tp_threads s) = 0" for P
      using wait(2) by (auto simp: pool_inv_def workers_live_def count_at_def workers_at_def)
    with True wait(2) show ?thesis
      by (auto simp: pool_inv_def pool_wait_begin_def pool_wait_round_def signal_all_def unat_eq_0)
  next
    case False
    then show ?thesis using wait(3) by (simp add: pool_calm_def pool_wait_begin_def pool_wait_round_def)
  qed
next
  case (join s t ts w acc ex)
  then show ?case by (simp add: pool_inv_def)
next
  case (joined s acc ex)
  then show ?case by (simp add: pool_inv_def)
qed

section \<open>Every task can be executed\<close>

text \<open>A step of an execution without reservations, time-outs and shutdown.\<close>

inductive calm_step :: "pool_run \<Rightarrow> pool_run \<Rightarrow> bool" where
  calm: "pool_step False r r' \<Longrightarrow> pool_calm (fst r') \<Longrightarrow> calm_step r r'"

lemma calm_step_keeps:
  assumes "calm_step\<^sup>*\<^sup>* r r'" "pool_inv (fst r)" "tasks_kept r"
  shows "pool_inv (fst r')" "tasks_kept r'"
proof -
  have "pool_inv (fst r') \<and> tasks_kept r'"
    using assms by (induction rule: rtranclp_induct)
      (auto elim!: calm_step.cases intro: pool_inv_step pool_step_keeps)
  then show "pool_inv (fst r')" "tasks_kept r'" by simp_all
qed

text \<open>A state in which some thread executes a task, and the steps that lead to one.\<close>

definition executing :: "thread_pool \<Rightarrow> bool" where
  "executing s \<longleftrightarrow> 0 < count_at (\<lambda>pc. pc = Executing) (tp_threads s)"

lemma executing_step:
  assumes "pool_inv s" "tasks_kept (s, acc, ex)" "executing s"
  shows "\<exists>s' task. calm_step (s, acc, ex) (s', acc, add_mset task ex)"
proof -
  obtain t w where w: "tp_threads s t = Some w" "wk_pc w = Executing"
    using assms(3) unfolding executing_def by (rule count_at_posE)
  have "wk_task w \<noteq> None"
    using assms(1) w by (auto simp: pool_inv_def worker_live_def dest!: workers_liveD(1))
  then obtain task where task: "wk_task w = Some task" by blast
  have "pool_step False (s, acc, ex) (worker_executed t Task w s, acc, add_mset task ex)"
    using w task by (rule pool_step.execute)
  moreover have "pool_calm (worker_executed t Task w s)" using pool_inv_executed [OF assms(1) w] by (rule pool_inv_calm)
  ultimately show ?thesis by (intro exI calm) simp_all
qed

lemma set_worker_executing [simp]:
  "workers_live (tp_threads s) \<Longrightarrow> executing (set_worker t (w\<lparr>wk_pc := Executing\<rparr>) s)"
  unfolding executing_def set_worker_def
  by (rule count_at_pos [of _ t "w\<lparr>wk_pc := Executing\<rparr>"]) (auto simp: workers_live_def)

lemma begin_executing:
  assumes "pool_inv s" "tp_threads s t = Some w" "wk_pc w = Begin"
  shows "\<exists>s'. calm_step (s, acc, ex) (s', acc, ex) \<and> executing s'"
proof -
  have "pool_step False (s, acc, ex) (worker_loop t w s, acc, ex)" using assms(2,3) by (rule pool_step.run_begin)
  moreover have "pool_calm (worker_loop t w s)" using pool_inv_begin [OF assms] by (rule pool_inv_calm)
  moreover have "wk_task w \<noteq> None" using assms by (auto simp: pool_inv_def worker_live_def dest!: workers_liveD(1))
  then have "executing (worker_loop t w s)"
    using assms(1) by (auto simp: worker_loop_def pool_inv_def)
  ultimately show ?thesis by (intro exI [of _ "worker_loop t w s"]) (auto intro: calm)
qed

lemma awake_executing:
  assumes "pool_inv s" "tp_threads s t = Some w" "wk_pc w = Relock False" "tp_queue s \<noteq> []"
  shows "\<exists>s'. calm_step (s, acc, ex) (s', acc, ex) \<and> executing s'"
proof -
  have "pool_step False (s, acc, ex) (worker_woken t False w s, acc, ex)" using assms(2,3) by (rule pool_step.woken)
  moreover have "pool_calm (worker_woken t False w s)" using pool_inv_woken [OF assms(1-3)] by (rule pool_inv_calm)
  moreover have "executing (worker_woken t False w s)"
    using assms(1,4) by (auto simp: worker_woken_def Let_def worker_fetch_def worker_loop_def pool_inv_def)
  ultimately show ?thesis by (intro exI [of _ "worker_woken t False w s"]) (auto intro: calm)
qed

lemma pending_executing:
  assumes inv: "pool_inv s" and kept: "tasks_kept (s, acc, ex)" and pending: "pending s \<noteq> {#}"
  shows "\<exists>s'. calm_step\<^sup>*\<^sup>* (s, acc, ex) (s', acc, ex) \<and> executing s'"
proof (cases "0 < count_at busy (tp_threads s)")
  case True
  then obtain t w where w: "tp_threads s t = Some w" "busy (wk_pc w)" by (rule count_at_posE)
  show ?thesis
  proof (cases "wk_pc w = Begin")
    case True
    from begin_executing [OF inv w(1) this] show ?thesis by blast
  next
    case False
    with w have "executing s"
      using inv unfolding executing_def by (intro count_at_pos [of _ t w]) (auto simp: pool_inv_def workers_live_def)
    then show ?thesis by blast
  qed
next
  case False
  then have "slot (tp_threads s t) = {#}" for t
    using inv count_at_pos [of "tp_threads s" t _ busy]
    by (auto simp: pool_inv_def worker_live_def workers_live_def slot_def split: option.splits)
  then have "held (tp_threads s) = {#}" by (simp add: held_def)
  with pending have q: "tp_queue s \<noteq> []" by (auto simp: pending_def waiting_tasks_def)
  show ?thesis
  proof (cases "0 < count_at awake (tp_threads s)")
    case True
    then obtain t w where "tp_threads s t = Some w" "awake (wk_pc w)" by (rule count_at_posE)
    from awake_executing [OF inv this q] show ?thesis by blast
  next
    case none: False
    then have k: "0 < wc_wakeups (tp_ready s)" using inv False q by (simp add: pool_inv_def)
    then have "0 < count_at waiting (tp_threads s)"
      using inv by (auto simp: pool_inv_def word_less_nat_alt)
    then obtain t w where w: "tp_threads s t = Some w" "wk_pc w = In_wait" by (rule count_at_posE)
    define w' where "w' = w\<lparr>wk_pc := Relock (\<not> True)\<rparr>"
    define s1 where "s1 = set_worker t w' (s\<lparr>tp_ready := snd (wait_leave 0 (tp_ready s))\<rparr>)"
    have i1: "pool_inv s1" using pool_inv_leave [OF inv w k] by (simp add: s1_def w'_def)
    have "\<not> wait_again 0 (tp_ready s)" using k by (simp add: wait_again_def word_gt_0)
    moreover have "wait_leave 0 (tp_ready s) = (True, snd (wait_leave 0 (tp_ready s)))" by (simp add: wait_leave_def Let_def)
    ultimately have "pool_step False (s, acc, ex) (s1, acc, ex)"
      unfolding s1_def w'_def by (rule pool_step.wait_leave [OF w])
    then have s1: "calm_step (s, acc, ex) (s1, acc, ex)" using i1 by (intro calm) (simp_all add: pool_inv_calm)
    have "tp_threads s1 t = Some w'" "wk_pc w' = Relock False" "tp_queue s1 \<noteq> []"
      using q by (simp_all add: s1_def w'_def set_worker_def)
    from awake_executing [OF i1 this] s1 show ?thesis
      by (blast intro: converse_rtranclp_into_rtranclp r_into_rtranclp)
  qed
qed

lemma pending_drains:
  "pool_inv s \<Longrightarrow> tasks_kept (s, acc, ex) \<Longrightarrow> \<exists>s'. calm_step\<^sup>*\<^sup>* (s, acc, ex) (s', acc, acc)"
proof (induction "size (pending s)" arbitrary: s ex rule: less_induct)
  case less
  show ?case
  proof (cases "pending s = {#}")
    case True
    then have "ex = acc" using less.prems(2) by (simp add: tasks_kept_def)
    then show ?thesis by blast
  next
    case False
    obtain s1 where s1: "calm_step\<^sup>*\<^sup>* (s, acc, ex) (s1, acc, ex)" "executing s1"
      using pending_executing [OF less.prems False] by blast
    have k1: "pool_inv s1" "tasks_kept (s1, acc, ex)" using calm_step_keeps [OF s1(1)] less.prems by simp_all
    obtain s2 task where s2: "calm_step (s1, acc, ex) (s2, acc, add_mset task ex)"
      using executing_step [OF k1 s1(2)] by blast
    then have k2: "pool_inv s2" "tasks_kept (s2, acc, add_mset task ex)"
      using calm_step_keeps [OF r_into_rtranclp [where r = calm_step, OF s2]] k1 by simp_all
    have "pending s + ex = pending s2 + add_mset task ex"
      using less.prems(2) k2(2) by (simp add: tasks_kept_def)
    from arg_cong [OF this, of size] have "size (pending s2) < size (pending s)" by simp
    from less.hyps [OF this k2] s1(1) s2 show ?thesis
      by (meson converse_rtranclp_into_rtranclp rtranclp_trans)
  qed
qed


text \<open>C5: A pool gets all its work done: however the calls of \<open>start\<close> and \<open>start_now\<close> and the threads are
  interleaved, the threads of the pool can go on from every state that is reached to one where every
  task that was accepted has been executed, exactly as often. (As long as nothing is reserved, no
  wait of a thread times out, the pool is not shut down, and threads can be created; with
  reservations the pool can strand its tasks.)\<close>

theorem pool_completes:
  assumes "calm_step\<^sup>*\<^sup>* (ThreadPool sysconf, {#}, {#}) (s, accepted, executed)"
    and "0 < ideal_count sysconf" "ideal_count sysconf < 0xffffffff"
  shows "\<exists>s'. calm_step\<^sup>*\<^sup>* (s, accepted, executed) (s', accepted, accepted) \<and> tp_queue s' = [] \<and> held (tp_threads s') = {#}"
proof -
  have i: "pool_inv (fst (ThreadPool sysconf, {#} :: nat multiset, {#} :: nat multiset))"
    using assms(2,3) by (simp add: pool_inv_def ThreadPool_def workers_live_def count_at_def workers_at_def WaitCondition_def)
  have k: "tasks_kept (ThreadPool sysconf, {#}, {#})"
    by (simp add: tasks_kept_def ThreadPool_def pool_ok_def pending_def held_def waiting_tasks_def)
  have r: "pool_inv s" "tasks_kept (s, accepted, executed)"
    using calm_step_keeps [OF assms(1) i k] by simp_all
  then obtain s' where s': "calm_step\<^sup>*\<^sup>* (s, accepted, executed) (s', accepted, accepted)"
    using pending_drains by blast
  have "tasks_kept (s', accepted, accepted)" using calm_step_keeps(2) [OF s' _ r(2)] r(1) by simp
  then have "pending s' = {#}" by (simp add: tasks_kept_def)
  then show ?thesis using s' by (auto simp: pending_def waiting_tasks_def)
qed

theorem pool_completes_witness:
  "\<exists>s s'. calm_step (ThreadPool 1, {#}, {#}) (s, {#5#}, {#}) \<and>
    calm_step\<^sup>*\<^sup>* (s, {#5#}, {#}) (s', {#5#}, {#5#}) \<and> tp_queue s' = [] \<and> held (tp_threads s') = {#}"
proof -
  obtain s where s: "pool_start 0 (Some 1) (Some 5) 1 (ThreadPool 1) = Ret (True, s)" and c: "pool_calm s"
    by (auto simp: pool_start_def try_start_def ThreadPool_def ideal_count_def active_threads_def spawn_def
        start_worker_def InternalThread_def thread_start_def Thread_def pool_calm_def)
  have "quiet (Some 1) (ThreadPool 1)" "tp_threads (ThreadPool 1) 0 = None" by (simp_all add: quiet_def ThreadPool_def)
  then have "pool_step False (ThreadPool 1, {#}, {#}) (s, {#5#}, {#})"
    using pool_step.start [of "ThreadPool 1" 0 False "Some 1" 5 1 True s "{#}" "{#}"] s by simp
  then have st: "calm_step (ThreadPool 1, {#}, {#}) (s, {#5#}, {#})" using c by (intro calm) simp_all
  have "calm_step\<^sup>*\<^sup>* (ThreadPool 1, {#}, {#}) (s, {#5#}, {#})" using st by (rule r_into_rtranclp)
  from pool_completes [OF this] st show ?thesis by (auto simp: ideal_count_def)
qed

end
