(* ===== verification/Unix_Process.thy ===== *)
theory Unix_Process
  imports Unix_File
begin

text \<open>
  The class \<open>Process\<close> of \<^verbatim>\<open>src/unix/process.cc\<close> and the \<open>ProcessMonitor\<close> that handles
  \<^verbatim>\<open>SIGCHLD\<close>. The caller of \<open>create\<close>, the thread that listens to the pipes and the signal
  handler work on the same object; their code is divided where it blocks or where the others can
  come in between, and \<open>proc_step\<close> interleaves the pieces. The system calls are parameters.
\<close>

section \<open>The system calls\<close>

definition EINTR :: int where "EINTR = 4"

datatype signal = SIGKILL | SIGTERM

record 'w proc_os =
  po_file :: "'w unix_os"   \<comment> \<open>\<open>read\<close>, \<open>write\<close>, \<open>close\<close>, \<open>stat\<close>\<close>
  po_pipe :: "'w \<Rightarrow> (int \<times> int) option \<times> 'w"
  po_nonblock :: "int \<Rightarrow> 'w \<Rightarrow> 'w"
  po_fork :: "'w \<Rightarrow> int \<times> 'w"
  po_thread :: "'w \<Rightarrow> bool \<times> 'w"   \<comment> \<open>\<^verbatim>\<open>pthread_create\<close>\<close>
  po_select :: "int \<Rightarrow> int \<Rightarrow> 'w \<Rightarrow> (int \<times> bool \<times> bool) \<times> 'w"   \<comment> \<open>which of the two descriptors is set\<close>
  po_kill :: "int \<Rightarrow> signal \<Rightarrow> 'w \<Rightarrow> int \<times> 'w"
  po_dup2 :: "int \<Rightarrow> int \<Rightarrow> 'w \<Rightarrow> int \<times> 'w"

text \<open>What \<^verbatim>\<open>wait\<close> reports of a child: that it has exited with a code, or been killed.\<close>

datatype child_status = Exited u32 | Signaled

section \<open>The object\<close>

datatype proc_mode = STATE_STOPPED | STATE_RUNNING

datatype proc_event = Event_output string | Event_finished

record process =
  pr_invalid_inheritor :: bool
  pr_stdin :: "int \<times> int"   \<comment> \<open>\<open>FD_READ\<close>, \<open>FD_WRITE\<close>\<close>
  pr_stdout :: "int \<times> int"
  pr_stderr :: "int \<times> int"
  pr_pid :: int
  pr_state :: proc_mode
  pr_exit_code :: u32
  pr_delims :: "char set"
  pr_block_out :: string
  pr_block_err :: string
  pr_started :: bool
  pr_events :: "proc_event list"   \<comment> \<open>the calls of the virtual functions so far\<close>

text \<open>A process with its address, the system, and the map of the monitor.\<close>

record 'w proc_state =
  ps_proc :: process
  ps_this :: nat
  ps_monitor :: "int \<Rightarrow> nat option"
  ps_world :: 'w

definition READ_BUFFER_SIZE :: nat where "READ_BUFFER_SIZE = 128"

definition MAX_ARG_COUNT :: nat where "MAX_ARG_COUNT = 127"

definition Process :: process where
  "Process = \<lparr>pr_invalid_inheritor = False, pr_stdin = (-1, -1), pr_stdout = (-1, -1), pr_stderr = (-1, -1),
     pr_pid = -1, pr_state = STATE_STOPPED, pr_exit_code = 0, pr_delims = {CHR 10, CHR 13}, pr_block_out = [],
     pr_block_err = [], pr_started = False, pr_events = []\<rparr>"

text \<open>\<open>close\<close>: the descriptors in the order of the loop.\<close>

definition close_fd :: "'w proc_os \<Rightarrow> int \<Rightarrow> 'w \<Rightarrow> 'w" where
  "close_fd U fd w = (if fd \<noteq> -1 then snd (ux_close (po_file U) fd w) else w)"

definition close_pipes :: "'w proc_os \<Rightarrow> process \<Rightarrow> 'w \<Rightarrow> 'w" where
  "close_pipes U p w = fold (close_fd U) [fst (pr_stdin p), fst (pr_stdout p), fst (pr_stderr p),
     snd (pr_stdin p), snd (pr_stdout p), snd (pr_stderr p)] w"

definition process_close :: "'w proc_os \<Rightarrow> 'w proc_state \<Rightarrow> 'w proc_state" where
  "process_close U s = (let p = ps_proc s in
     s\<lparr>ps_world := close_pipes U p (ps_world s),
       ps_proc := p\<lparr>pr_stdin := (-1, -1), pr_stdout := (-1, -1), pr_stderr := (-1, -1),
                   pr_started := False, pr_pid := -1, pr_state := STATE_STOPPED\<rparr>\<rparr>)"

definition process_running :: "'w proc_state \<Rightarrow> bool" where
  "process_running s \<longleftrightarrow> pr_state (ps_proc s) = STATE_RUNNING"

section \<open>The output of the child\<close>

text \<open>The loop over the bytes read: \<open>buf\<close> is the block so far, the result the complete ones and the rest.\<close>

fun split_blocks :: "char set \<Rightarrow> string \<Rightarrow> string \<Rightarrow> string list \<times> string" where
  "split_blocks D buf [] = ([], buf)"
| "split_blocks D buf (c # cs) =
     (if c \<in> D then
        if buf \<noteq> [] then (case split_blocks D [] cs of (bs, buf') \<Rightarrow> (buf # bs, buf')) else split_blocks D buf cs
      else split_blocks D (buf @ [c]) cs)"

definition output_events :: "process \<Rightarrow> string list \<Rightarrow> proc_event list" where
  "output_events p blocks = (if pr_invalid_inheritor p then [] else map Event_output blocks)"

definition chars_of :: "byte list \<Rightarrow> string" where
  "chars_of bs = map (\<lambda>b. char_of (unat b)) bs"

text \<open>A descriptor is read into a buffer of 128 bytes, the last of which is for a NUL.\<close>

definition read_stdout :: "'w proc_os \<Rightarrow> int \<Rightarrow> 'w proc_state \<Rightarrow> bool \<times> 'w proc_state" where
  "read_stdout U fd s = (case ux_read (po_file U) fd (int (READ_BUFFER_SIZE - 1)) (ps_world s) of (res, bs, w') \<Rightarrow>
     let s' = s\<lparr>ps_world := w'\<rparr>; p = ps_proc s in
     if res \<le> 0 then (False, s')
     else case split_blocks (pr_delims p) (pr_block_out p) (chars_of bs) of (blocks, buf) \<Rightarrow>
       (True, s'\<lparr>ps_proc := p\<lparr>pr_block_out := buf, pr_events := pr_events p @ output_events p blocks\<rparr>\<rparr>))"

definition read_stderr :: "'w proc_os \<Rightarrow> int \<Rightarrow> 'w proc_state \<Rightarrow> bool \<times> 'w proc_state" where
  "read_stderr U fd s = (case ux_read (po_file U) fd (int (READ_BUFFER_SIZE - 1)) (ps_world s) of (res, bs, w') \<Rightarrow>
     let s' = s\<lparr>ps_world := w'\<rparr>; p = ps_proc s in
     if res \<le> 0 then (False, s')
     else case split_blocks (pr_delims p) (pr_block_err p) (chars_of bs) of (blocks, buf) \<Rightarrow>
       (True, s'\<lparr>ps_proc := p\<lparr>pr_block_err := buf, pr_events := pr_events p @ output_events p blocks\<rparr>\<rparr>))"

section \<open>The listening thread\<close>

definition listen_start :: "'w proc_state \<Rightarrow> 'w proc_state" where
  "listen_start s = s\<lparr>ps_proc := (ps_proc s)\<lparr>pr_block_out := [], pr_block_err := [], pr_started := True\<rparr>\<rparr>"

text \<open>\<^verbatim>\<open>select\<close> is repeated while a signal interrupts it.\<close>

fun select_loop :: "'w proc_os \<Rightarrow> nat \<Rightarrow> int \<Rightarrow> int \<Rightarrow> 'w \<Rightarrow> ((bool \<times> bool) \<times> 'w) outcome" where
  "select_loop U 0 out err w = Fuel"
| "select_loop U (Suc n) out err w = (case po_select U out err w of ((res, ready), w') \<Rightarrow>
     if res < 0 \<and> ux_errno (po_file U) w' = EINTR then select_loop U n out err w' else Ret (ready, w'))"

text \<open>
  One round of the loop, the condition apart; it answers whether the loop goes on. Testing the
  descriptor -1 with \<^verbatim>\<open>FD_ISSET\<close> is undefined.
\<close>

definition listen_round :: "'w proc_os \<Rightarrow> nat \<Rightarrow> 'w proc_state \<Rightarrow> (bool \<times> 'w proc_state) outcome" where
  "listen_round U fuel s =
     (let out = fst (pr_stdout (ps_proc s)); err = fst (pr_stderr (ps_proc s)) in
      obind (select_loop U fuel out err (ps_world s)) (\<lambda>((out_set, err_set), w').
        let s0 = s\<lparr>ps_world := w'\<rparr> in
        if out = -1 \<or> err = -1 then Undef
        else case (if out_set then read_stdout U out s0 else (True, s0)) of (ok, s1) \<Rightarrow>
          if \<not> ok then Ret (False, process_close U s1)
          else case (if err_set then read_stderr U err s1 else (True, s1)) of (ok', s2) \<Rightarrow>
            Ret (if \<not> ok' then (False, process_close U s2) else (True, s2))))"

definition listen_end :: "'w proc_os \<Rightarrow> 'w proc_state \<Rightarrow> 'w proc_state" where
  "listen_end U s = process_close U (if pr_invalid_inheritor (ps_proc s) then s
     else s\<lparr>ps_proc := (ps_proc s)\<lparr>pr_events := pr_events (ps_proc s) @ [Event_finished]\<rparr>\<rparr>)"

section \<open>ProcessMonitor\<close>

definition register_process :: "int \<Rightarrow> nat \<Rightarrow> 'w proc_state \<Rightarrow> 'w proc_state" where
  "register_process pid a s = s\<lparr>ps_monitor := (ps_monitor s)(pid \<mapsto> a)\<rparr>"

text \<open>The handler, with what \<^verbatim>\<open>wait\<close> answers. Other \<open>Process\<close> objects and the handler of the program
  that was installed before, which it calls in the end, are not part of the state.\<close>

definition sigchld_handler :: "int \<Rightarrow> child_status \<Rightarrow> 'w proc_state \<Rightarrow> 'w proc_state" where
  "sigchld_handler pid status s =
     (if ps_monitor s pid = Some (ps_this s) then
        s\<lparr>ps_proc := (ps_proc s)\<lparr>pr_state := STATE_STOPPED,
            pr_exit_code := (case status of Exited code \<Rightarrow> code | Signaled \<Rightarrow> pr_exit_code (ps_proc s))\<rparr>\<rparr>
      else s)"

section \<open>Creating a process\<close>

fun parse_loop :: "bool \<Rightarrow> string \<Rightarrow> string \<Rightarrow> string list" where
  "parse_loop in_quote cur_arg [] = (if cur_arg \<noteq> [] then [cur_arg] else [])"
| "parse_loop in_quote cur_arg (c # cs) =
     (if c = CHR 34 then parse_loop (\<not> in_quote) cur_arg cs
      else if c = CHR 32 \<and> \<not> in_quote then
        if cur_arg \<noteq> [] then cur_arg # parse_loop in_quote [] cs else parse_loop in_quote cur_arg cs
      else parse_loop in_quote (cur_arg @ [c]) cs)"

definition parse_cmd_line :: "string \<Rightarrow> string list" where
  "parse_cmd_line cmd_line = parse_loop False [] (cstr cmd_line)"

text \<open>The three pipes; a failure leaves the ones before it open.\<close>

definition open_pipes :: "'w proc_os \<Rightarrow> 'w proc_state \<Rightarrow> bool \<times> 'w proc_state" where
  "open_pipes U s = (case po_pipe U (ps_world s) of
       (None, w1) \<Rightarrow> (False, s\<lparr>ps_world := w1\<rparr>)
     | (Some a, w1) \<Rightarrow> (let s1 = s\<lparr>ps_world := w1, ps_proc := (ps_proc s)\<lparr>pr_stdin := a\<rparr>\<rparr> in
         case po_pipe U w1 of (None, w2) \<Rightarrow> (False, s1\<lparr>ps_world := w2\<rparr>)
         | (Some b, w2) \<Rightarrow> (let s2 = s1\<lparr>ps_world := w2, ps_proc := (ps_proc s1)\<lparr>pr_stdout := b\<rparr>\<rparr> in
             case po_pipe U w2 of (None, w3) \<Rightarrow> (False, s2\<lparr>ps_world := w3\<rparr>)
             | (Some c, w3) \<Rightarrow> (True, s2\<lparr>ps_world := w3, ps_proc := (ps_proc s2)\<lparr>pr_stderr := c\<rparr>\<rparr>))))"

definition nonblock_pipes :: "'w proc_os \<Rightarrow> 'w proc_state \<Rightarrow> 'w proc_state" where
  "nonblock_pipes U s = (let p = ps_proc s in
     s\<lparr>ps_world := fold (po_nonblock U) [fst (pr_stdout p), snd (pr_stdout p), fst (pr_stderr p), snd (pr_stderr p)]
                     (ps_world s)\<rparr>)"

text \<open>
  \<open>create\<close> in the parent up to the wait for the listening thread: \<open>True\<close> when it gets there, \<open>False\<close>
  when it has answered false.
\<close>

definition create_fork :: "'w proc_os \<Rightarrow> 'w proc_state \<Rightarrow> bool \<times> 'w proc_state" where
  "create_fork U s = (case po_fork U (ps_world s) of (pid, w1) \<Rightarrow>
     let s1 = s\<lparr>ps_world := w1, ps_proc := (ps_proc s)\<lparr>pr_state := STATE_RUNNING, pr_pid := pid\<rparr>\<rparr> in
     if pid = -1 then (False, s1)
     else let s2 = register_process pid (ps_this s1) s1 in
       case po_thread U (ps_world s2) of (created, w2) \<Rightarrow>
         if \<not> created then (False, s2\<lparr>ps_world := snd (po_kill U pid SIGKILL w2)\<rparr>)
         else (True, s2\<lparr>ps_world := w2\<rparr>))"

definition create_begin :: "'w proc_os \<Rightarrow> string \<Rightarrow> 'w proc_state \<Rightarrow> bool \<times> 'w proc_state" where
  "create_begin U cmd_line s =
     (if process_running s then (False, s)
      else let s1 = process_close U s; args = take MAX_ARG_COUNT (parse_cmd_line cmd_line) in
        if args = [] then (False, s1)
        else case exist_static (po_file U) (hd args) (ps_world s1) of (ex, w2) \<Rightarrow>
          let s2 = s1\<lparr>ps_world := w2\<rparr> in
          if \<not> ex then (False, s2)
          else case open_pipes U s2 of (ok, s3) \<Rightarrow>
            if \<not> ok then (False, s3) else create_fork U (nonblock_pipes U s3))"

definition create_end :: "'w proc_state \<Rightarrow> 'w proc_state" where
  "create_end s = s\<lparr>ps_proc := (ps_proc s)\<lparr>pr_exit_code := 0\<rparr>\<rparr>"

text \<open>The child: what it executes, or nothing when it exits because a redirection fails. It closes all its
  copies of the pipes.\<close>

definition child_main :: "'w proc_os \<Rightarrow> string list \<Rightarrow> process \<Rightarrow> 'w \<Rightarrow> (string \<times> string list) option \<times> 'w" where
  "child_main U args p w = (case po_dup2 U (fst (pr_stdin p)) 0 w of (a, w1) \<Rightarrow>
     if a = -1 then (None, close_pipes U p w1) else case po_dup2 U (snd (pr_stdout p)) 1 w1 of (b, w2) \<Rightarrow>
     if b = -1 then (None, close_pipes U p w2) else case po_dup2 U (snd (pr_stderr p)) 2 w2 of (c, w3) \<Rightarrow>
     if c = -1 then (None, close_pipes U p w3)
     else (Some (hd args, args), fold (\<lambda>fd w. snd (ux_close (po_file U) fd w))
       [fst (pr_stdin p), fst (pr_stdout p), fst (pr_stderr p), snd (pr_stdin p), snd (pr_stdout p), snd (pr_stderr p)] w3))"

section \<open>The other operations\<close>

definition process_kill :: "'w proc_os \<Rightarrow> 'w proc_state \<Rightarrow> bool \<times> 'w proc_state" where
  "process_kill U s = (let pid = pr_pid (ps_proc s) in
     if pid = -1 \<or> \<not> process_running s then (False, s)
     else case po_kill U pid SIGTERM (ps_world s) of (r, w') \<Rightarrow> (r = 0, s\<lparr>ps_world := w'\<rparr>))"

definition add_block_delim :: "char \<Rightarrow> process \<Rightarrow> process" where
  "add_block_delim delim p = p\<lparr>pr_delims := insert delim (pr_delims p)\<rparr>"

definition remove_block_delim :: "char \<Rightarrow> process \<Rightarrow> process" where
  "remove_block_delim delim p = p\<lparr>pr_delims := pr_delims p - {delim}\<rparr>"

definition process_write :: "'w proc_os \<Rightarrow> byte list \<Rightarrow> 'w proc_state \<Rightarrow> int \<times> 'w proc_state" where
  "process_write U bs s =
     (if pr_pid (ps_proc s) = -1 \<or> \<not> process_running s then (-1, s)
      else case ux_write (po_file U) (snd (pr_stdin (ps_proc s))) bs (ps_world s) of (r, w') \<Rightarrow> (r, s\<lparr>ps_world := w'\<rparr>))"

definition process_exit_code :: "'w proc_state \<Rightarrow> u32 option" where
  "process_exit_code s = (if process_running s then None else Some (pr_exit_code (ps_proc s)))"

text \<open>\<open>wait\<close> and the destructor wait for \<open>mutex_exec_\<close>, which the listening thread holds while it runs.\<close>

datatype listen_pc = Listen_none | Listen_new | Listen_loop | Listen_finish

definition process_wait :: "listen_pc \<Rightarrow> bool outcome" where
  "process_wait l = (if l = Listen_none \<or> l = Listen_new then Ret True else Fuel)"

definition process_destroy :: "'w proc_os \<Rightarrow> listen_pc \<Rightarrow> 'w proc_state \<Rightarrow> 'w proc_state outcome" where
  "process_destroy U l s = obind (process_wait l) (\<lambda>_. Ret (process_close U s))"

section \<open>Executions\<close>

datatype main_pc = Main_idle | Main_waiting

type_synonym 'w proc_run = "'w proc_state \<times> main_pc \<times> listen_pc"

text \<open>
  The listening thread keeps \<open>mutex_exec_\<close> from its beginning to its end, so a second \<open>create\<close> has
  to wait in the new thread; it is only modelled when there is no thread.
\<close>

inductive proc_step :: "'w proc_os \<Rightarrow> 'w proc_run \<Rightarrow> 'w proc_run \<Rightarrow> bool" for U where
  create_fails: "create_begin U cmd s = (False, s') \<Longrightarrow> proc_step U (s, Main_idle, l) (s', Main_idle, l)"
| create_waits: "create_begin U cmd s = (True, s') \<Longrightarrow>
    proc_step U (s, Main_idle, Listen_none) (s', Main_waiting, Listen_new)"
| create_returns: "pr_started (ps_proc s) \<Longrightarrow> proc_step U (s, Main_waiting, l) (create_end s, Main_idle, l)"
| listen_starts: "proc_step U (s, m, Listen_new) (listen_start s, m, Listen_loop)"
| listen_rounds: "process_running s \<Longrightarrow> listen_round U fuel s = Ret (go_on, s') \<Longrightarrow>
    proc_step U (s, m, Listen_loop) (s', m, if go_on then Listen_loop else Listen_finish)"
| listen_stops: "\<not> process_running s \<Longrightarrow> proc_step U (s, m, Listen_loop) (s, m, Listen_finish)"
| listen_ends: "proc_step U (s, m, Listen_finish) (listen_end U s, m, Listen_none)"
| sigchld: "proc_step U (s, m, l) (sigchld_handler pid status s, m, l)"
| kills: "process_kill U s = (r, s') \<Longrightarrow> proc_step U (s, Main_idle, l) (s', Main_idle, l)"
| writes: "process_write U bs s = (r, s') \<Longrightarrow> proc_step U (s, Main_idle, l) (s', Main_idle, l)"

inductive_cases proc_stepE: "proc_step U r r'"


section \<open>The blocks of the output\<close>

text \<open>The specification: the text is cut at the delimiters; the last piece is not complete.\<close>

definition complete_blocks :: "char set \<Rightarrow> string \<Rightarrow> string list" where
  "complete_blocks D xs = filter (\<lambda>b. b \<noteq> []) (butlast (split_path (\<lambda>c. c \<in> D) xs))"

definition open_block :: "char set \<Rightarrow> string \<Rightarrow> string" where
  "open_block D xs = last (split_path (\<lambda>c. c \<in> D) xs)"

lemma split_blocks_spec:
  assumes "\<forall>c\<in>set buf. c \<notin> D"
  shows "split_blocks D buf xs = (complete_blocks D (buf @ xs), open_block D (buf @ xs))"
  using assms
proof (induction xs arbitrary: buf)
  case Nil
  then show ?case using split_no_delim [of buf "\<lambda>c. c \<in> D"] by (simp add: complete_blocks_def open_block_def)
next
  case (Cons c xs)
  show ?case
  proof (cases "c \<in> D")
    case True
    have s: "split_path (\<lambda>c. c \<in> D) (buf @ c # xs) = buf # split_path (\<lambda>c. c \<in> D) xs"
      using split_delim [of "\<lambda>c. c \<in> D" c buf xs] split_no_delim [of buf "\<lambda>c. c \<in> D"] True Cons.prems by simp
    have "split_blocks D [] xs = (complete_blocks D xs, open_block D xs)"
      using Cons.IH [of "[]"] by simp
    with True s split_nonempty [of "\<lambda>c. c \<in> D" xs] show ?thesis
      by (auto simp: complete_blocks_def open_block_def)
  next
    case False
    with Cons.IH [of "buf @ [c]"] Cons.prems show ?thesis by auto
  qed
qed

lemma split_blocks_append:
  "split_blocks D buf (xs @ ys) = (case split_blocks D buf xs of (bs, buf') \<Rightarrow>
     case split_blocks D buf' ys of (bs', buf'') \<Rightarrow> (bs @ bs', buf''))"
  by (induction xs arbitrary: buf) (auto split: prod.splits)

text \<open>A sequence of successful reads from the standard output, with the text they have read.\<close>

inductive stdout_reads :: "'w proc_os \<Rightarrow> int \<Rightarrow> 'w proc_state \<Rightarrow> string \<Rightarrow> 'w proc_state \<Rightarrow> bool" for U fd where
  nothing: "stdout_reads U fd s [] s"
| chunk: "read_stdout U fd s = (True, s1) \<Longrightarrow>
    ux_read (po_file U) fd (int (READ_BUFFER_SIZE - 1)) (ps_world s) = (res, bs, w) \<Longrightarrow>
    stdout_reads U fd s1 xs s' \<Longrightarrow> stdout_reads U fd s (chars_of bs @ xs) s'"

lemma stdout_reads_blocks:
  assumes "stdout_reads U fd s xs s'"
  shows "\<exists>blocks. split_blocks (pr_delims (ps_proc s)) (pr_block_out (ps_proc s)) xs = (blocks, pr_block_out (ps_proc s')) \<and>
    pr_events (ps_proc s') = pr_events (ps_proc s) @ output_events (ps_proc s) blocks \<and>
    pr_invalid_inheritor (ps_proc s') = pr_invalid_inheritor (ps_proc s)"
  using assms
proof (induction rule: stdout_reads.induct)
  case (chunk s s1 res bs w xs s')
  obtain b1 buf1 where b1: "split_blocks (pr_delims (ps_proc s)) (pr_block_out (ps_proc s)) (chars_of bs) = (b1, buf1)" by fastforce
  have s1: "ps_proc s1 = (ps_proc s)\<lparr>pr_block_out := buf1, pr_events := pr_events (ps_proc s) @ output_events (ps_proc s) b1\<rparr>"
    using chunk(1,2) b1 by (auto simp: read_stdout_def Let_def split: if_splits)
  with chunk.IH b1 show ?case by (auto simp: split_blocks_append output_events_def)
qed (simp add: output_events_def)

text \<open>C20: However the system cuts the output of the child into reads, \<open>event_output\<close> is called, in order, for
  exactly the nonempty pieces of the text between the delimiters; what follows the last delimiter
  stays in the buffer, and the end of the process does not deliver it.\<close>

theorem output_blocks:
  assumes "stdout_reads U fd s xs s'" "pr_block_out (ps_proc s) = []" "\<not> pr_invalid_inheritor (ps_proc s)"
  shows "pr_events (ps_proc (listen_end U s')) = pr_events (ps_proc s) @
      map Event_output (complete_blocks (pr_delims (ps_proc s)) xs) @ [Event_finished] \<and>
    pr_block_out (ps_proc (listen_end U s')) = open_block (pr_delims (ps_proc s)) xs"
  using stdout_reads_blocks [OF assms(1)] split_blocks_spec [of "[]" "pr_delims (ps_proc s)" xs] assms(2,3)
  by (auto simp: output_events_def listen_end_def process_close_def Let_def)

text \<open>A system for the examples: the file of \<open>one_file_os\<close> is the pipe, everything succeeds, the child is 42.\<close>

definition one_pipe_os :: "one_file proc_os" where
  "one_pipe_os = \<lparr>po_file = one_file_os, po_pipe = (\<lambda>w. (Some (3, 4), w)), po_nonblock = (\<lambda>fd w. w),
     po_fork = (\<lambda>w. (42, w)), po_thread = (\<lambda>w. (True, w)), po_select = (\<lambda>a b w. ((1, True, False), w)),
     po_kill = (\<lambda>pid s w. (0, w)), po_dup2 = (\<lambda>a b w. (b, w))\<rparr>"

definition one_process :: "byte list \<Rightarrow> one_file proc_state" where
  "one_process bs = \<lparr>ps_proc = Process, ps_this = 1, ps_monitor = (\<lambda>_. None), ps_world = (bs, 0)\<rparr>"

theorem output_blocks_witness:
  "\<exists>s'. pr_events (ps_proc (listen_end one_pipe_os s')) = pr_events (ps_proc (one_process [97, 98, 10, 99])) @
      map Event_output (complete_blocks (pr_delims (ps_proc (one_process [97, 98, 10, 99]))) ''ab\<newline>c'') @ [Event_finished] \<and>
    pr_block_out (ps_proc (listen_end one_pipe_os s')) = open_block (pr_delims (ps_proc (one_process [97, 98, 10, 99]))) ''ab\<newline>c''"
proof -
  let ?s = "one_process [97, 98, 10, 99]"
  have "fst (read_stdout one_pipe_os 3 ?s)"
    by (simp add: read_stdout_def one_pipe_os_def one_process_def one_file_os_def READ_BUFFER_SIZE_def Let_def split: prod.splits)
  then obtain s1 where s1: "read_stdout one_pipe_os 3 ?s = (True, s1)" by (metis prod.collapse)
  have "ux_read (po_file one_pipe_os) 3 (int (READ_BUFFER_SIZE - 1)) (ps_world ?s) = (4, [97, 98, 10, 99], ([97, 98, 10, 99], 4))"
    by (simp add: one_pipe_os_def one_process_def one_file_os_def READ_BUFFER_SIZE_def)
  moreover have "chars_of [97, 98, 10, 99] @ [] = ''ab\<newline>c''" by code_simp
  ultimately have "stdout_reads one_pipe_os 3 ?s ''ab\<newline>c'' s1"
    using stdout_reads.chunk [OF s1] stdout_reads.nothing by metis
  from output_blocks [OF this] show ?thesis by (auto simp: one_process_def Process_def)
qed

section \<open>The command line\<close>

text \<open>The command line that quotes every argument.\<close>

definition quote_arg :: "string \<Rightarrow> string" where
  "quote_arg a = CHR 34 # a @ [CHR 34]"

fun quote_args :: "string list \<Rightarrow> string" where
  "quote_args [] = []"
| "quote_args [a] = quote_arg a"
| "quote_args (a # as) = quote_arg a @ CHR 32 # quote_args as"

lemma parse_quoted: "CHR 34 \<notin> set a \<Longrightarrow> parse_loop True cur (a @ CHR 34 # cs) = parse_loop False (cur @ a) cs"
  by (induction a arbitrary: cur) auto

lemma parse_quote_arg: "CHR 34 \<notin> set a \<Longrightarrow> parse_loop False [] (quote_arg a @ cs) = parse_loop False a cs"
  using parse_quoted [of a "[]" cs] by (simp add: quote_arg_def)

lemma parse_quote_args:
  "\<forall>a\<in>set as. a \<noteq> [] \<and> CHR 34 \<notin> set a \<Longrightarrow> parse_loop False [] (quote_args as) = as"
proof (induction as rule: quote_args.induct)
  case (2 a)
  then show ?case using parse_quote_arg [of a "[]"] by simp
next
  case (3 a b as)
  then show ?case using parse_quote_arg [of a "CHR 32 # quote_args (b # as)"] by simp
qed simp

lemma set_quote_args: "set (quote_args as) \<subseteq> {CHR 34, CHR 32} \<union> (\<Union>a\<in>set as. set a)"
  by (induction as rule: quote_args.induct) (auto simp: quote_arg_def)

text \<open>C29: Arguments with spaces survive the command line: quoting every argument and joining them with
  spaces is undone by \<open>parse_cmd_line\<close>, for arguments that are not empty and contain no quote.\<close>

theorem parse_cmd_line_quoted:
  assumes "\<forall>a\<in>set args. a \<noteq> [] \<and> CHR 34 \<notin> set a \<and> NUL \<notin> set a"
  shows "parse_cmd_line (quote_args args @ [NUL]) = args"
proof -
  have "NUL \<notin> set (quote_args args)" using set_quote_args [of args] assms by (auto simp: NUL_def)
  then have "cstr (quote_args args @ [NUL]) = quote_args args" by (rule cstr_prefix)
  then show ?thesis using parse_quote_args [of args] assms by (simp add: parse_cmd_line_def)
qed

theorem parse_cmd_line_quoted_witness:
  "parse_cmd_line (quote_args [''/bin/ls'', ''a b''] @ [NUL]) = [''/bin/ls'', ''a b'']"
  by (rule parse_cmd_line_quoted) (simp add: NUL_def)

text \<open>An empty argument cannot be passed: its quotes disappear.\<close>

lemma parse_cmd_line_empty: "parse_cmd_line (quote_args [''/bin/ls'', []] @ [NUL]) = [''/bin/ls'']"
  by (simp add: parse_cmd_line_def quote_arg_def cstr_def NUL_def)


section \<open>What create can leave behind\<close>

text \<open>When \<^verbatim>\<open>fork\<close> fails, \<open>create\<close> answers false but leaves the object in the state of a running
  process without a process: \<open>running\<close> answers true, \<open>kill\<close> and \<open>write\<close> fail, and every further
  \<open>create\<close> answers false without trying.\<close>

theorem create_fork_failure:
  assumes "create_begin U cmd s = (False, s')" "\<not> process_running s" "process_running s'"
    and "\<forall>w. fst (po_thread U w)"
  shows "pr_pid (ps_proc s') = -1 \<and> create_begin U cmd' s' = (False, s') \<and>
    process_kill U s' = (False, s') \<and> process_write U bs s' = (-1, s') \<and> process_exit_code s' = None"
proof -
  define s1 where "s1 = process_close U s"
  have r1: "\<not> process_running s1" by (simp add: s1_def process_close_def process_running_def Let_def)
  define args where "args = take MAX_ARG_COUNT (parse_cmd_line cmd)"
  obtain ex w2 where e: "exist_static (po_file U) (hd args) (ps_world s1) = (ex, w2)" by fastforce
  obtain ok s3 where o: "open_pipes U (s1\<lparr>ps_world := w2\<rparr>) = (ok, s3)" by fastforce
  have r3: "\<not> process_running s3"
    using o r1 by (auto simp: open_pipes_def process_running_def Let_def split: prod.splits option.splits)
  have c: "create_begin U cmd s = (if args = [] then (False, s1) else if \<not> ex then (False, s1\<lparr>ps_world := w2\<rparr>)
      else if \<not> ok then (False, s3) else create_fork U (nonblock_pipes U s3))"
    using assms(2) e o by (simp add: create_begin_def Let_def s1_def [symmetric] args_def [symmetric])
  have f: "create_fork U (nonblock_pipes U s3) = (False, s')"
    using c assms(1,3) r1 r3 by (auto simp: process_running_def split: if_splits)
  have "pr_pid (ps_proc s') = -1"
    using f assms(4) by (auto simp: create_fork_def Let_def split: prod.splits if_splits) (metis fst_conv)
  with assms(3) show ?thesis
    by (simp add: create_begin_def process_kill_def process_write_def process_exit_code_def Let_def)
qed

definition no_fork_os :: "one_file proc_os" where
  "no_fork_os = one_pipe_os\<lparr>po_fork := (\<lambda>w. (-1, w))\<rparr>"

lemma create_no_fork:
  "\<exists>s'. create_begin no_fork_os ''/a'' (one_process []) = (False, s') \<and> process_running s'"
  by (simp add: create_begin_def process_running_def one_process_def Process_def process_close_def close_fd_def
      parse_cmd_line_def cstr_def NUL_def MAX_ARG_COUNT_def exist_static_def no_fork_os_def one_pipe_os_def
      one_file_os_def no_dir_bit_def path_name_def open_pipes_def nonblock_pipes_def create_fork_def Let_def)


theorem create_fork_failure_witness:
  "\<exists>s'. pr_pid (ps_proc s') = -1 \<and> create_begin no_fork_os ''/b'' s' = (False, s') \<and>
    process_kill no_fork_os s' = (False, s') \<and> process_write no_fork_os [1] s' = (-1, s') \<and> process_exit_code s' = None"
proof -
  obtain s' where s': "create_begin no_fork_os ''/a'' (one_process []) = (False, s')" "process_running s'"
    using create_no_fork by blast
  have "\<not> process_running (one_process [])" by (simp add: process_running_def one_process_def Process_def)
  moreover have "\<forall>w. fst (po_thread no_fork_os w)" by (simp add: no_fork_os_def one_pipe_os_def)
  ultimately show ?thesis using create_fork_failure [OF s'(1) _ s'(2)] by blast
qed

section \<open>Races\<close>

lemma create_begin_registers:
  assumes "create_begin U cmd s = (True, s')"
  shows "process_running s' \<and> ps_monitor s' (pr_pid (ps_proc s')) = Some (ps_this s')"
proof -
  obtain s3 where "create_fork U s3 = (True, s')"
    using assms by (auto simp: create_begin_def Let_def split: if_splits prod.splits)
  then show ?thesis
    by (auto simp: create_fork_def register_process_def process_running_def Let_def split: if_splits prod.splits)
qed

text \<open>The child exits before the listening thread has looked at the state for the first time.\<close>

lemma early_exit:
  fixes code :: u32
  assumes "create_begin U cmd s = (True, s1)"
  defines "s2 \<equiv> sigchld_handler (pr_pid (ps_proc s1)) (Exited code) (listen_start s1)"
  shows "(proc_step U)\<^sup>*\<^sup>* (s, Main_idle, Listen_none) (s2, Main_waiting, Listen_loop)"
    and "\<not> process_running s2" "pr_exit_code (ps_proc s2) = code" "pr_started (ps_proc s2)"
proof -
  have r: "ps_monitor s1 (pr_pid (ps_proc s1)) = Some (ps_this s1)" using create_begin_registers [OF assms(1)] by simp
  have "proc_step U (s, Main_idle, Listen_none) (s1, Main_waiting, Listen_new)" using assms(1) by (rule create_waits)
  moreover have "proc_step U (s1, Main_waiting, Listen_new) (listen_start s1, Main_waiting, Listen_loop)" by (rule listen_starts)
  moreover have "proc_step U (listen_start s1, Main_waiting, Listen_loop) (s2, Main_waiting, Listen_loop)"
    unfolding s2_def by (rule sigchld)
  ultimately show "(proc_step U)\<^sup>*\<^sup>* (s, Main_idle, Listen_none) (s2, Main_waiting, Listen_loop)"
    by (meson converse_rtranclp_into_rtranclp r_into_rtranclp)
  show "\<not> process_running s2" "pr_exit_code (ps_proc s2) = code" "pr_started (ps_proc s2)"
    using r by (simp_all add: s2_def sigchld_handler_def listen_start_def process_running_def)
qed


text \<open>\<open>create\<close> may never return: when the child ends at once, the listening thread can announce its start,
  notice the end and close everything, which takes the announcement back, before the caller of
  \<open>create\<close> looks at it. From then on nothing but the signal handler ever runs, and the caller waits
  for ever.\<close>

theorem create_lost_wakeup:
  assumes "create_begin U cmd s = (True, s1)"
  shows "\<exists>s'. (proc_step U)\<^sup>*\<^sup>* (s, Main_idle, Listen_none) (s', Main_waiting, Listen_none) \<and>
    (\<forall>r. (proc_step U)\<^sup>*\<^sup>* (s', Main_waiting, Listen_none) r \<longrightarrow> fst (snd r) = Main_waiting)"
proof -
  define s2 where "s2 = sigchld_handler (pr_pid (ps_proc s1)) (Exited 255) (listen_start s1)"
  define s3 where "s3 = listen_end U s2"
  have "(proc_step U)\<^sup>*\<^sup>* (s, Main_idle, Listen_none) (s2, Main_waiting, Listen_loop)"
    using early_exit(1) [OF assms] by (simp add: s2_def)
  also have "proc_step U (s2, Main_waiting, Listen_loop) (s2, Main_waiting, Listen_finish)"
    using early_exit(2) [OF assms, of 255] by (intro listen_stops) (simp add: s2_def)
  also have "proc_step U (s2, Main_waiting, Listen_finish) (s3, Main_waiting, Listen_none)"
    unfolding s3_def by (rule listen_ends)
  finally have reach: "(proc_step U)\<^sup>*\<^sup>* (s, Main_idle, Listen_none) (s3, Main_waiting, Listen_none)" .
  have s3: "\<not> pr_started (ps_proc s3)" by (simp add: s3_def listen_end_def process_close_def Let_def)
  have stuck: "\<exists>s. r = (s, Main_waiting, Listen_none) \<and> \<not> pr_started (ps_proc s)"
    if "(proc_step U)\<^sup>*\<^sup>* (s3, Main_waiting, Listen_none) r" for r
    using that
  proof (induction rule: rtranclp_induct)
    case (step r r')
    from step.IH step.hyps(2) show ?case by (auto elim!: proc_stepE simp: sigchld_handler_def)
  qed (use s3 in simp)
  then show ?thesis using reach by fastforce
qed

theorem create_lost_wakeup_witness:
  "\<exists>s'. (proc_step one_pipe_os)\<^sup>*\<^sup>* (one_process [], Main_idle, Listen_none) (s', Main_waiting, Listen_none) \<and>
    (\<forall>r. (proc_step one_pipe_os)\<^sup>*\<^sup>* (s', Main_waiting, Listen_none) r \<longrightarrow> fst (snd r) = Main_waiting)"
proof -
  have "fst (create_begin one_pipe_os ''/a'' (one_process []))"
    by (simp add: create_begin_def process_running_def one_process_def Process_def process_close_def close_fd_def
      parse_cmd_line_def cstr_def NUL_def MAX_ARG_COUNT_def exist_static_def one_pipe_os_def
      one_file_os_def no_dir_bit_def path_name_def open_pipes_def nonblock_pipes_def create_fork_def
      register_process_def Let_def)
  then obtain s1 where "create_begin one_pipe_os ''/a'' (one_process []) = (True, s1)" by (metis prod.collapse)
  then show ?thesis by (rule create_lost_wakeup)
qed

text \<open>The exit code of such a child is lost as well, since \<open>create\<close> sets it to 0 at its end.\<close>

lemma create_loses_exit_code:
  assumes "create_begin U cmd s = (True, s1)"
  shows "\<exists>s'. (proc_step U)\<^sup>*\<^sup>* (s, Main_idle, Listen_none) (s', Main_idle, Listen_loop) \<and> process_exit_code s' = Some 0"
proof -
  define s2 where "s2 = sigchld_handler (pr_pid (ps_proc s1)) (Exited 7) (listen_start s1)"
  have "(proc_step U)\<^sup>*\<^sup>* (s, Main_idle, Listen_none) (s2, Main_waiting, Listen_loop)"
    using early_exit(1) [OF assms] by (simp add: s2_def)
  also have "proc_step U (s2, Main_waiting, Listen_loop) (create_end s2, Main_idle, Listen_loop)"
    using early_exit(4) [OF assms, of 7] by (intro create_returns) (simp add: s2_def)
  finally have "(proc_step U)\<^sup>*\<^sup>* (s, Main_idle, Listen_none) (create_end s2, Main_idle, Listen_loop)" .
  moreover have "process_exit_code (create_end s2) = Some 0"
    using early_exit(2) [OF assms, of 7] by (simp add: s2_def process_exit_code_def create_end_def process_running_def)
  ultimately show ?thesis by blast
qed

end
