(* ===== verification/Process_Monitor.thy ===== *)
theory Process_Monitor
  imports Unix_Process
begin

text \<open>
  The singleton \<open>ProcessMonitor\<close> of \<^verbatim>\<open>src/unix/process.cc\<close> with all the processes of a program: it
  installs a handler for \<^verbatim>\<open>SIGCHLD\<close>, which takes one ended child from the system and marks the
  object it is registered for. The relation \<open>monitor_step\<close> interleaves what the program does to
  its objects with the ends of the children and the deliveries of the signal. Of an object only the members the
  monitor works on are kept.
\<close>

section \<open>The system and the monitor\<close>

text \<open>What a signal does; \<^verbatim>\<open>SIG_DFL\<close> is the null pointer. A function of the program is a number.\<close>

datatype disposition = Sig_default | Sig_ignore | Sig_monitor | Sig_program nat

record process_monitor =
  pm_old :: disposition
  pm_pids :: "int \<Rightarrow> nat option"

record child_object =
  co_state :: proc_mode
  co_exit_code :: u32
  co_pid :: int

text \<open>
  The children that run, the ones that have ended and have not been waited for, whether the signal is
  pending (any number of signals is one), and the objects at their addresses, \<open>None\<close> for a destroyed one.
\<close>

record child_system =
  ch_alive :: "int set"
  ch_zombies :: "(int \<times> child_status) list"
  ch_pending :: bool
  ch_action :: disposition
  ch_monitor :: process_monitor
  ch_objects :: "nat \<Rightarrow> child_object option"
  ch_program_calls :: nat   \<comment> \<open>how often the handler of the program was called\<close>
  ch_ended :: "int \<Rightarrow> child_status option"   \<comment> \<open>how the children have ended so far\<close>

section \<open>The operations\<close>

text \<open>The constructor and the destructor; \<open>ok\<close> is what \<^verbatim>\<open>sigaction\<close> answers.\<close>

definition ProcessMonitor :: "bool \<Rightarrow> disposition \<Rightarrow> process_monitor \<times> disposition" where
  "ProcessMonitor ok action =
     (\<lparr>pm_old = (if ok \<and> action \<noteq> Sig_monitor then action else Sig_default), pm_pids = (\<lambda>_. None)\<rparr>,
      if ok then Sig_monitor else action)"

definition monitor_destroy :: "bool \<Rightarrow> bool \<Rightarrow> process_monitor \<Rightarrow> disposition \<Rightarrow> disposition" where
  "monitor_destroy ok ok' m action =
     (if ok then (if action \<noteq> Sig_monitor \<and> ok' then action else pm_old m) else action)"

definition monitor_register :: "int \<Rightarrow> nat \<Rightarrow> process_monitor \<Rightarrow> process_monitor" where
  "monitor_register pid a m = m\<lparr>pm_pids := (pm_pids m)(pid \<mapsto> a)\<rparr>"

text \<open>\<^verbatim>\<open>wait\<close> blocks while there are children and none of them has ended.\<close>

definition sys_wait :: "child_system \<Rightarrow> ((int \<times> child_status) option \<times> child_system) outcome" where
  "sys_wait s = (case ch_zombies s of
       z # zs \<Rightarrow> Ret (Some z, s\<lparr>ch_zombies := zs\<rparr>)
     | [] \<Rightarrow> if ch_alive s = {} then Ret (None, s) else Fuel)"

definition call_old_handler :: "child_system \<Rightarrow> child_system" where
  "call_old_handler s = (case pm_old (ch_monitor s) of
       Sig_program _ \<Rightarrow> s\<lparr>ch_program_calls := ch_program_calls s + 1\<rparr>
     | _ \<Rightarrow> s)"

definition mark_stopped :: "child_status \<Rightarrow> child_object \<Rightarrow> child_object" where
  "mark_stopped status p = p\<lparr>co_state := STATE_STOPPED,
     co_exit_code := (case status of Exited code \<Rightarrow> code | Signaled \<Rightarrow> co_exit_code p)\<rparr>"

text \<open>The handler; using a destroyed object is undefined.\<close>

definition monitor_handler :: "child_system \<Rightarrow> child_system outcome" where
  "monitor_handler s = obind (sys_wait s) (\<lambda>(r, s1). case r of
       None \<Rightarrow> Ret (call_old_handler s1)
     | Some (pid, status) \<Rightarrow> (case pm_pids (ch_monitor s1) pid of
         None \<Rightarrow> Ret (call_old_handler s1)
       | Some a \<Rightarrow> (case ch_objects s1 a of
           None \<Rightarrow> Undef
         | Some p \<Rightarrow> Ret (call_old_handler (s1\<lparr>ch_objects := (ch_objects s1)(a \<mapsto> mark_stopped status p)\<rparr>)))))"

section \<open>Executions\<close>

definition known :: "child_system \<Rightarrow> int \<Rightarrow> bool" where
  "known s pid \<longleftrightarrow> pid \<in> ch_alive s \<or> ch_ended s pid \<noteq> None \<or> pm_pids (ch_monitor s) pid \<noteq> None"

text \<open>
  With \<open>prompt\<close> a child ends only when it is registered and no signal is pending, and an object is
  closed only when its child has ended. The system gives a new number to every child.
\<close>

inductive monitor_step :: "bool \<Rightarrow> child_system \<Rightarrow> child_system \<Rightarrow> bool" for prompt :: bool where
  constructs: "ch_objects s a = None \<Longrightarrow>
    monitor_step prompt s (s\<lparr>ch_objects := (ch_objects s)(a \<mapsto> \<lparr>co_state = STATE_STOPPED, co_exit_code = 0, co_pid = -1\<rparr>)\<rparr>)"
| forks: "ch_objects s a = Some p \<Longrightarrow> co_state p = STATE_STOPPED \<Longrightarrow> \<not> known s pid \<Longrightarrow> 0 < pid \<Longrightarrow>
    monitor_step prompt s (s\<lparr>ch_alive := insert pid (ch_alive s),
      ch_objects := (ch_objects s)(a \<mapsto> p\<lparr>co_state := STATE_RUNNING, co_pid := pid\<rparr>)\<rparr>)"
| registers: "ch_objects s a = Some p \<Longrightarrow> co_state p = STATE_RUNNING \<Longrightarrow> pm_pids (ch_monitor s) (co_pid p) = None \<Longrightarrow>
    monitor_step prompt s (s\<lparr>ch_monitor := monitor_register (co_pid p) a (ch_monitor s)\<rparr>)"
| ends: "pid \<in> ch_alive s \<Longrightarrow> prompt \<longrightarrow> \<not> ch_pending s \<and> pm_pids (ch_monitor s) pid \<noteq> None \<Longrightarrow>
    monitor_step prompt s (s\<lparr>ch_alive := ch_alive s - {pid}, ch_zombies := ch_zombies s @ [(pid, status)],
      ch_ended := (ch_ended s)(pid \<mapsto> status), ch_pending := True\<rparr>)"
| delivers: "ch_pending s \<Longrightarrow> ch_action s = Sig_monitor \<Longrightarrow> monitor_handler (s\<lparr>ch_pending := False\<rparr>) = Ret s' \<Longrightarrow>
    monitor_step prompt s s'"
| closes: "ch_objects s a = Some p \<Longrightarrow> prompt \<longrightarrow> co_pid p = -1 \<or> ch_ended s (co_pid p) \<noteq> None \<and> \<not> ch_pending s \<Longrightarrow>
    monitor_step prompt s (s\<lparr>ch_objects := (ch_objects s)(a \<mapsto> p\<lparr>co_state := STATE_STOPPED, co_pid := -1\<rparr>)\<rparr>)"
| destroys: "ch_objects s a = Some p \<Longrightarrow> co_state p = STATE_STOPPED \<Longrightarrow>
    monitor_step prompt s (s\<lparr>ch_objects := (ch_objects s)(a := None)\<rparr>)"

definition monitor_start :: "disposition \<Rightarrow> child_system" where
  "monitor_start old = (case ProcessMonitor True old of (m, action) \<Rightarrow>
     \<lparr>ch_alive = {}, ch_zombies = [], ch_pending = False, ch_action = action, ch_monitor = m,
      ch_objects = (\<lambda>_. None), ch_program_calls = 0, ch_ended = (\<lambda>_. None)\<rparr>)"

section \<open>The invariant of prompt executions\<close>

definition unreaped :: "child_system \<Rightarrow> int set" where
  "unreaped s = ch_alive s \<union> fst ` set (ch_zombies s)"

text \<open>What the object says of its child is true.\<close>

definition object_ok :: "child_system \<Rightarrow> child_object \<Rightarrow> bool" where
  "object_ok s p \<longleftrightarrow> (case co_state p of
       STATE_RUNNING \<Rightarrow> 0 < co_pid p \<and> co_pid p \<in> unreaped s
     | STATE_STOPPED \<Rightarrow> co_pid p = -1 \<or> co_pid p \<notin> unreaped s \<and>
         (case ch_ended s (co_pid p) of None \<Rightarrow> False | Some (Exited c) \<Rightarrow> co_exit_code p = c | Some Signaled \<Rightarrow> True))"

definition children_ok :: "child_system \<Rightarrow> bool" where
  "children_ok s \<longleftrightarrow> (\<forall>pid. pid \<in> ch_alive s \<longrightarrow> ch_ended s pid = None \<and> 0 < pid) \<and>
     (\<forall>(pid, status) \<in> set (ch_zombies s). ch_ended s pid = Some status \<and> 0 < pid \<and> pm_pids (ch_monitor s) pid \<noteq> None) \<and>
     (if ch_pending s then length (ch_zombies s) = 1 else ch_zombies s = [])"

definition registered_ok :: "child_system \<Rightarrow> bool" where
  "registered_ok s \<longleftrightarrow> (\<forall>pid a. pm_pids (ch_monitor s) pid = Some a \<longrightarrow>
     (if pid \<in> unreaped s then \<exists>p. ch_objects s a = Some p \<and> co_pid p = pid \<and> co_state p = STATE_RUNNING
      else ch_ended s pid \<noteq> None))"

definition monitor_inv :: "child_system \<Rightarrow> bool" where
  "monitor_inv s \<longleftrightarrow> ch_action s = Sig_monitor \<and> children_ok s \<and> registered_ok s \<and>
     (\<forall>a p. ch_objects s a = Some p \<longrightarrow> object_ok s p) \<and>
     (\<forall>a b p q. ch_objects s a = Some p \<longrightarrow> ch_objects s b = Some q \<longrightarrow> co_pid p = co_pid q \<longrightarrow> co_pid p = -1 \<or> a = b)"

lemma monitor_inv_start: "monitor_inv (monitor_start old)"
  by (simp add: monitor_inv_def monitor_start_def ProcessMonitor_def children_ok_def registered_ok_def)

lemma monitor_invD:
  assumes "monitor_inv s"
  shows "ch_action s = Sig_monitor" "children_ok s" "registered_ok s" "ch_objects s a = Some p \<Longrightarrow> object_ok s p"
    "ch_objects s a = Some p \<Longrightarrow> ch_objects s b = Some q \<Longrightarrow> co_pid p = co_pid q \<Longrightarrow> co_pid p = -1 \<or> a = b"
  using assms by (auto simp: monitor_inv_def)

lemma monitor_invI:
  assumes "ch_action s = Sig_monitor" "children_ok s" "registered_ok s" "\<And>a p. ch_objects s a = Some p \<Longrightarrow> object_ok s p"
    and "\<And>a b p q. ch_objects s a = Some p \<Longrightarrow> ch_objects s b = Some q \<Longrightarrow> co_pid p = co_pid q \<Longrightarrow> co_pid p = -1 \<or> a = b"
  shows "monitor_inv s"
  unfolding monitor_inv_def using assms by blast

lemma unreaped_pos: "children_ok s \<Longrightarrow> pid \<in> unreaped s \<Longrightarrow> 0 < pid"
  by (auto simp: children_ok_def unreaped_def)

lemma object_ok_known: "children_ok s \<Longrightarrow> object_ok s p \<Longrightarrow> co_pid p = -1 \<or> known s (co_pid p)"
  by (auto simp: object_ok_def known_def unreaped_def children_ok_def split: proc_mode.splits option.splits)

lemma object_ok_state:
  "object_ok s p \<Longrightarrow> co_state p = STATE_RUNNING \<Longrightarrow> co_pid p \<in> unreaped s"
  "object_ok s p \<Longrightarrow> co_state p = STATE_STOPPED \<Longrightarrow> co_pid p = -1 \<or> co_pid p \<notin> unreaped s"
  by (auto simp: object_ok_def)

lemma object_ok_cong: "unreaped t = unreaped s \<Longrightarrow> ch_ended t = ch_ended s \<Longrightarrow> object_ok t p = object_ok s p"
  by (cases "co_state p") (simp_all add: object_ok_def)

lemma object_ok_none: "co_state p = STATE_STOPPED \<Longrightarrow> co_pid p = -1 \<Longrightarrow> object_ok s p"
  by (simp add: object_ok_def)

lemma registeredD:
  assumes "registered_ok s" "pm_pids (ch_monitor s) pid = Some a" "pid \<in> unreaped s"
  obtains p where "ch_objects s a = Some p" "co_pid p = pid" "co_state p = STATE_RUNNING"
  using assms unfolding registered_ok_def by meson

lemma registered_ended:
  "registered_ok s \<Longrightarrow> pm_pids (ch_monitor s) pid = Some a \<Longrightarrow> pid \<notin> unreaped s \<Longrightarrow> \<exists>status. ch_ended s pid = Some status"
  by (auto simp: registered_ok_def split: if_splits)

text \<open>Replacing an object whose child has been reaped, or that has none.\<close>

lemma monitor_inv_replace:
  assumes inv: "monitor_inv s"
    and old: "\<And>p. ch_objects s a = Some p \<Longrightarrow> co_state p = STATE_STOPPED \<or> co_pid p \<notin> unreaped s"
    and new: "\<And>q. x = Some q \<Longrightarrow> co_state q = STATE_STOPPED \<and> co_pid q = -1"
  shows "monitor_inv (s\<lparr>ch_objects := (ch_objects s)(a := x)\<rparr>)" (is "monitor_inv ?t")
proof (rule monitor_invI)
  note D = monitor_invD [OF inv]
  have u: "unreaped ?t = unreaped s" by (simp add: unreaped_def)
  show "ch_action ?t = Sig_monitor" using D(1) by simp
  show "children_ok ?t" using D(2) by (simp add: children_ok_def)
  show "registered_ok ?t"
    unfolding registered_ok_def
  proof (intro allI impI)
    fix pid b assume "pm_pids (ch_monitor ?t) pid = Some b"
    then have b: "pm_pids (ch_monitor s) pid = Some b" by simp
    show "if pid \<in> unreaped ?t then \<exists>p. ch_objects ?t b = Some p \<and> co_pid p = pid \<and> co_state p = STATE_RUNNING
       else ch_ended ?t pid \<noteq> None"
    proof (cases "pid \<in> unreaped s")
      case True
      obtain p where p: "ch_objects s b = Some p" "co_pid p = pid" "co_state p = STATE_RUNNING"
        using registeredD [OF D(3) b True] by blast
      then have "b \<noteq> a" using old True by force
      with p True show ?thesis by (simp add: u)
    next
      case False
      then show ?thesis using D(3) b u by (simp add: registered_ok_def)
    qed
  qed
  show "object_ok ?t p" if "ch_objects ?t b = Some p" for b p
  proof (cases "b = a")
    case True
    then show ?thesis using that new by (intro object_ok_none) auto
  next
    case False
    then have "object_ok s p" using that by (intro D(4) [of b]) simp
    then show ?thesis using object_ok_cong [OF u, of p] by simp
  qed
  show "co_pid p = -1 \<or> b = c" if "ch_objects ?t b = Some p" "ch_objects ?t c = Some q" "co_pid p = co_pid q" for b c p q
    using that D(5) new by (auto split: if_splits)
qed

lemma monitor_inv_forks:
  assumes inv: "monitor_inv s" and p: "ch_objects s a = Some p" "co_state p = STATE_STOPPED" and pid: "\<not> known s pid" "0 < pid"
  shows "monitor_inv (s\<lparr>ch_alive := insert pid (ch_alive s),
    ch_objects := (ch_objects s)(a \<mapsto> p\<lparr>co_state := STATE_RUNNING, co_pid := pid\<rparr>)\<rparr>)" (is "monitor_inv ?t")
proof (rule monitor_invI)
  note D = monitor_invD [OF inv]
  have u: "unreaped ?t = insert pid (unreaped s)" by (auto simp: unreaped_def)
  have other: "co_pid q \<noteq> pid" if "ch_objects s b = Some q" for b q
    using object_ok_known [OF D(2) D(4) [OF that]] pid by auto
  show "ch_action ?t = Sig_monitor" using D(1) by simp
  show "children_ok ?t" using D(2) pid by (auto simp: children_ok_def known_def)
  show "registered_ok ?t"
    unfolding registered_ok_def
  proof (intro allI impI)
    fix pid' b assume "pm_pids (ch_monitor ?t) pid' = Some b"
    then have b: "pm_pids (ch_monitor s) pid' = Some b" by simp
    then have n: "pid' \<noteq> pid" using pid(1) by (auto simp: known_def)
    show "if pid' \<in> unreaped ?t then \<exists>p. ch_objects ?t b = Some p \<and> co_pid p = pid' \<and> co_state p = STATE_RUNNING
       else ch_ended ?t pid' \<noteq> None"
    proof (cases "pid' \<in> unreaped s")
      case True
      obtain q where q: "ch_objects s b = Some q" "co_pid q = pid'" "co_state q = STATE_RUNNING"
        using registeredD [OF D(3) b True] by blast
      then have "b \<noteq> a" using p by auto
      with q True show ?thesis by (simp add: u)
    next
      case False
      then show ?thesis using D(3) b u n by (simp add: registered_ok_def)
    qed
  qed
  show "object_ok ?t q" if "ch_objects ?t b = Some q" for b q
  proof (cases "b = a")
    case True
    then show ?thesis using that pid(2) u by (auto simp: object_ok_def)
  next
    case False
    then have q: "ch_objects s b = Some q" using that by simp
    show ?thesis using D(4) [OF q] other [OF q] u by (auto simp: object_ok_def split: proc_mode.splits)
  qed
  show "co_pid q = -1 \<or> b = c" if "ch_objects ?t b = Some q" "ch_objects ?t c = Some q'" "co_pid q = co_pid q'" for b c q q'
    using that D(5) [of b q c q'] other [of b q] other [of c q'] by (auto split: if_splits)
qed

lemma monitor_inv_registers:
  assumes inv: "monitor_inv s" and p: "ch_objects s a = Some p" "co_state p = STATE_RUNNING" and pid: "co_pid p \<in> unreaped s"
  shows "monitor_inv (s\<lparr>ch_monitor := monitor_register (co_pid p) a (ch_monitor s)\<rparr>)" (is "monitor_inv ?t")
proof (rule monitor_invI)
  note D = monitor_invD [OF inv]
  have u: "unreaped ?t = unreaped s" by (simp add: unreaped_def)
  show "ch_action ?t = Sig_monitor" using D(1) by simp
  show "children_ok ?t" using D(2) by (auto simp: children_ok_def monitor_register_def)
  show "registered_ok ?t"
    unfolding registered_ok_def
  proof (intro allI impI)
    fix pid' b assume b: "pm_pids (ch_monitor ?t) pid' = Some b"
    show "if pid' \<in> unreaped ?t then \<exists>p. ch_objects ?t b = Some p \<and> co_pid p = pid' \<and> co_state p = STATE_RUNNING
       else ch_ended ?t pid' \<noteq> None"
    proof (cases "pid' = co_pid p")
      case True
      then show ?thesis using b p pid u by (simp add: monitor_register_def)
    next
      case False
      then have b': "pm_pids (ch_monitor s) pid' = Some b" using b by (simp add: monitor_register_def)
      show ?thesis
      proof (cases "pid' \<in> unreaped s")
        case True
        then show ?thesis using registeredD [OF D(3) b' True] u by simp blast
      next
        case False
        then show ?thesis using registered_ended [OF D(3) b' False] u by simp
      qed
    qed
  qed
  show "object_ok ?t q" if "ch_objects ?t b = Some q" for b q
    using D(4) [of b q] that object_ok_cong [OF u, of q] by simp
  show "co_pid q = -1 \<or> b = c" if "ch_objects ?t b = Some q" "ch_objects ?t c = Some q'" "co_pid q = co_pid q'" for b c q q'
    using that D(5) [of b q c q'] by simp
qed

lemma monitor_inv_ends:
  assumes inv: "monitor_inv s" and pid: "pid \<in> ch_alive s" "\<not> ch_pending s" "pm_pids (ch_monitor s) pid \<noteq> None"
  shows "monitor_inv (s\<lparr>ch_alive := ch_alive s - {pid}, ch_zombies := ch_zombies s @ [(pid, status)],
      ch_ended := (ch_ended s)(pid \<mapsto> status), ch_pending := True\<rparr>)" (is "monitor_inv ?t")
proof (rule monitor_invI)
  note D = monitor_invD [OF inv]
  have u: "unreaped ?t = unreaped s" using pid(1) by (auto simp: unreaped_def)
  show "ch_action ?t = Sig_monitor" using D(1) by simp
  show "children_ok ?t" using D(2) pid by (auto simp: children_ok_def)
  show "registered_ok ?t"
    unfolding registered_ok_def
  proof (intro allI impI)
    fix pid' b assume "pm_pids (ch_monitor ?t) pid' = Some b"
    then have b: "pm_pids (ch_monitor s) pid' = Some b" by simp
    show "if pid' \<in> unreaped ?t then \<exists>p. ch_objects ?t b = Some p \<and> co_pid p = pid' \<and> co_state p = STATE_RUNNING
       else ch_ended ?t pid' \<noteq> None"
    proof (cases "pid' \<in> unreaped s")
      case True
      then show ?thesis using registeredD [OF D(3) b True] u by simp blast
    next
      case False
      then show ?thesis using registered_ended [OF D(3) b False] u by simp
    qed
  qed
  show "object_ok ?t q" if "ch_objects ?t b = Some q" for b q
    using D(4) [of b q] that u pid(1) by (auto simp: object_ok_def unreaped_def split: proc_mode.splits)
  show "co_pid q = -1 \<or> b = c" if "ch_objects ?t b = Some q" "ch_objects ?t c = Some q'" "co_pid q = co_pid q'" for b c q q'
    using that D(5) [of b q c q'] by simp
qed

text \<open>A pending signal: the handler finds the one child that has ended, and its object.\<close>

lemma monitor_delivery:
  assumes inv: "monitor_inv s" and pending: "ch_pending s"
  obtains pid status a p s' where "ch_zombies s = [(pid, status)]" "pm_pids (ch_monitor s) pid = Some a"
    "ch_objects s a = Some p" "co_pid p = pid" "monitor_handler (s\<lparr>ch_pending := False\<rparr>) = Ret s'"
    "s' = call_old_handler (s\<lparr>ch_pending := False, ch_zombies := [], ch_objects := (ch_objects s)(a \<mapsto> mark_stopped status p)\<rparr>)"
proof -
  note D = monitor_invD [OF inv]
  obtain pid status where z: "ch_zombies s = [(pid, status)]"
    using D(2) pending by (auto simp: children_ok_def length_Suc_conv)
  then obtain a where a: "pm_pids (ch_monitor s) pid = Some a" using D(2) by (auto simp: children_ok_def)
  have "pid \<in> unreaped s" using z by (simp add: unreaped_def)
  from registeredD [OF D(3) a this] obtain p where p: "ch_objects s a = Some p" "co_pid p = pid" by blast
  define s' where "s' = call_old_handler (s\<lparr>ch_pending := False, ch_zombies := [],
    ch_objects := (ch_objects s)(a \<mapsto> mark_stopped status p)\<rparr>)"
  have "monitor_handler (s\<lparr>ch_pending := False\<rparr>) = Ret s'"
    by (simp add: monitor_handler_def sys_wait_def z a p s'_def)
  then show thesis using that [OF z a p] s'_def by blast
qed

lemma call_old_handler_simps [simp]:
  "ch_alive (call_old_handler s) = ch_alive s" "ch_zombies (call_old_handler s) = ch_zombies s"
  "ch_pending (call_old_handler s) = ch_pending s" "ch_action (call_old_handler s) = ch_action s"
  "ch_monitor (call_old_handler s) = ch_monitor s" "ch_objects (call_old_handler s) = ch_objects s"
  "ch_ended (call_old_handler s) = ch_ended s"
  by (simp_all add: call_old_handler_def split: disposition.splits)

lemma monitor_inv_delivers:
  assumes inv: "monitor_inv s" and pending: "ch_pending s" and s': "monitor_handler (s\<lparr>ch_pending := False\<rparr>) = Ret s'"
  shows "monitor_inv s'"
proof -
  note D = monitor_invD [OF inv]
  obtain pid status a p where z: "ch_zombies s = [(pid, status)]" "pm_pids (ch_monitor s) pid = Some a"
    "ch_objects s a = Some p" "co_pid p = pid"
    and t: "s' = call_old_handler (s\<lparr>ch_pending := False, ch_zombies := [], ch_objects := (ch_objects s)(a \<mapsto> mark_stopped status p)\<rparr>)"
    by (rule monitor_delivery [OF inv pending]) (use s' in simp)
  have e: "ch_ended s pid = Some status" "pid \<notin> ch_alive s" "0 < pid"
    using D(2) z(1) by (auto simp: children_ok_def)
  have u: "unreaped s' = unreaped s - {pid}" using z(1) e(2) by (auto simp: unreaped_def t)
  have other: "co_pid q \<noteq> pid" if "ch_objects s b = Some q" "b \<noteq> a" for b q
    using D(5) [OF that(1) z(3)] that(2) z(4) e(3) by auto
  show ?thesis
  proof (rule monitor_invI)
    show "ch_action s' = Sig_monitor" using D(1) by (simp add: t)
    show "children_ok s'" using D(2) by (simp add: children_ok_def t)
    show "registered_ok s'"
      unfolding registered_ok_def
    proof (intro allI impI)
      fix pid' b assume "pm_pids (ch_monitor s') pid' = Some b"
      then have b: "pm_pids (ch_monitor s) pid' = Some b" by (simp add: t)
      show "if pid' \<in> unreaped s' then \<exists>p. ch_objects s' b = Some p \<and> co_pid p = pid' \<and> co_state p = STATE_RUNNING
         else ch_ended s' pid' \<noteq> None"
      proof (cases "pid' \<in> unreaped s'")
        case True
        then have "pid' \<in> unreaped s" "pid' \<noteq> pid" by (simp_all add: u)
        from registeredD [OF D(3) b this(1)] obtain q where
          q: "ch_objects s b = Some q" "co_pid q = pid'" "co_state q = STATE_RUNNING" by blast
        then have "b \<noteq> a" using z(3,4) \<open>pid' \<noteq> pid\<close> by auto
        with q True show ?thesis by (simp add: t)
      next
        case False
        then have "pid' = pid \<or> pid' \<notin> unreaped s" using u by auto
        then have "\<exists>st. ch_ended s pid' = Some st" using registered_ended [OF D(3) b] e(1) by blast
        with False show ?thesis by (simp add: t)
      qed
    qed
    show "object_ok s' q" if "ch_objects s' b = Some q" for b q
    proof (cases "b = a")
      case True
      then have "q = mark_stopped status p" using that by (simp add: t)
      then show ?thesis using e u z(4)
        by (auto simp: object_ok_def mark_stopped_def t split: child_status.splits)
    next
      case False
      then have q: "ch_objects s b = Some q" using that by (simp add: t)
      show ?thesis using D(4) [OF q] other [OF q False] u
        by (auto simp: object_ok_def t split: proc_mode.splits)
    qed
    show "co_pid q = -1 \<or> b = c" if "ch_objects s' b = Some q" "ch_objects s' c = Some q'" "co_pid q = co_pid q'" for b c q q'
      using that D(5) [of b q c q'] other [of b q] other [of c q'] z(3,4) by (auto simp: t mark_stopped_def split: if_splits)
  qed
qed

lemma monitor_inv_step: "monitor_step True s s' \<Longrightarrow> monitor_inv s \<Longrightarrow> monitor_inv s'"
proof (induction rule: monitor_step.induct)
  case (constructs s a)
  then show ?case by (intro monitor_inv_replace [OF constructs(2)]) auto
next
  case (forks s a p pid)
  then show ?case by (elim monitor_inv_forks)
next
  case (registers s a p)
  note D = monitor_invD [OF registers(4)]
  have "co_pid p \<in> unreaped s" using object_ok_state(1) D(4) registers(1,2) by blast
  then show ?case by (rule monitor_inv_registers [OF registers(4,1,2)])
next
  case (ends pid s status)
  then show ?case by (elim monitor_inv_ends) auto
next
  case (delivers s s')
  then show ?case by (elim monitor_inv_delivers)
next
  case (closes s a p)
  note D = monitor_invD [OF closes(3)]
  have "co_pid p \<notin> unreaped s"
  proof (cases "co_pid p = -1")
    case True
    then show ?thesis using unreaped_pos [OF D(2), of "-1"] by auto
  next
    case False
    then show ?thesis using closes(2) D(2) by (auto simp: children_ok_def unreaped_def)
  qed
  then show ?case using closes(1) by (intro monitor_inv_replace [OF closes(3)]) auto
next
  case (destroys s a p)
  then show ?case by (intro monitor_inv_replace [OF destroys(3)]) auto
qed

lemma monitor_inv_reachable: "(monitor_step True)\<^sup>*\<^sup>* (monitor_start old) s \<Longrightarrow> monitor_inv s"
  by (induction rule: rtranclp_induct) (auto intro: monitor_inv_start monitor_inv_step)

section \<open>Computing executions\<close>

datatype monitor_event = Me_construct nat | Me_fork nat int | Me_register nat | Me_end int child_status | Me_deliver
  | Me_close nat | Me_destroy nat

fun monitor_exec :: "bool \<Rightarrow> monitor_event \<Rightarrow> child_system \<Rightarrow> child_system option" where
  "monitor_exec prompt (Me_construct a) s = (case ch_objects s a of Some p \<Rightarrow> None
     | None \<Rightarrow> Some (s\<lparr>ch_objects := (ch_objects s)(a \<mapsto> \<lparr>co_state = STATE_STOPPED, co_exit_code = 0, co_pid = -1\<rparr>)\<rparr>))"
| "monitor_exec prompt (Me_fork a pid) s = (case ch_objects s a of None \<Rightarrow> None
     | Some p \<Rightarrow> if co_state p = STATE_STOPPED \<and> \<not> known s pid \<and> 0 < pid then
         Some (s\<lparr>ch_alive := insert pid (ch_alive s),
           ch_objects := (ch_objects s)(a \<mapsto> p\<lparr>co_state := STATE_RUNNING, co_pid := pid\<rparr>)\<rparr>) else None)"
| "monitor_exec prompt (Me_register a) s = (case ch_objects s a of None \<Rightarrow> None
     | Some p \<Rightarrow> if co_state p = STATE_RUNNING \<and> pm_pids (ch_monitor s) (co_pid p) = None then
         Some (s\<lparr>ch_monitor := monitor_register (co_pid p) a (ch_monitor s)\<rparr>) else None)"
| "monitor_exec prompt (Me_end pid status) s =
     (if pid \<in> ch_alive s \<and> (prompt \<longrightarrow> \<not> ch_pending s \<and> pm_pids (ch_monitor s) pid \<noteq> None) then
        Some (s\<lparr>ch_alive := ch_alive s - {pid}, ch_zombies := ch_zombies s @ [(pid, status)],
          ch_ended := (ch_ended s)(pid \<mapsto> status), ch_pending := True\<rparr>) else None)"
| "monitor_exec prompt Me_deliver s = (if ch_pending s \<and> ch_action s = Sig_monitor then
     (case monitor_handler (s\<lparr>ch_pending := False\<rparr>) of Ret s' \<Rightarrow> Some s' | _ \<Rightarrow> None) else None)"
| "monitor_exec prompt (Me_close a) s = (case ch_objects s a of None \<Rightarrow> None
     | Some p \<Rightarrow> if prompt \<longrightarrow> co_pid p = -1 \<or> ch_ended s (co_pid p) \<noteq> None \<and> \<not> ch_pending s then
         Some (s\<lparr>ch_objects := (ch_objects s)(a \<mapsto> p\<lparr>co_state := STATE_STOPPED, co_pid := -1\<rparr>)\<rparr>) else None)"
| "monitor_exec prompt (Me_destroy a) s = (case ch_objects s a of None \<Rightarrow> None
     | Some p \<Rightarrow> if co_state p = STATE_STOPPED then Some (s\<lparr>ch_objects := (ch_objects s)(a := None)\<rparr>) else None)"

fun monitor_execs :: "bool \<Rightarrow> monitor_event list \<Rightarrow> child_system \<Rightarrow> child_system option" where
  "monitor_execs prompt [] s = Some s"
| "monitor_execs prompt (e # es) s = (case monitor_exec prompt e s of None \<Rightarrow> None | Some s' \<Rightarrow> monitor_execs prompt es s')"

lemma monitor_exec_step: "monitor_exec prompt e s = Some s' \<Longrightarrow> monitor_step prompt s s'"
  by (cases e) (auto intro: monitor_step.intros split: option.splits if_splits outcome.splits)

lemma monitor_execs_steps: "monitor_execs prompt es s = Some s' \<Longrightarrow> (monitor_step prompt)\<^sup>*\<^sup>* s s'"
proof (induction es arbitrary: s)
  case (Cons e es)
  obtain s1 where "monitor_exec prompt e s = Some s1" "monitor_execs prompt es s1 = Some s'"
    using Cons.prems by (auto split: option.splits)
  then show ?case using Cons.IH [of s1] monitor_exec_step by (meson converse_rtranclp_into_rtranclp)
qed simp

lemmas monitor_run_simps = monitor_start_def ProcessMonitor_def known_def monitor_register_def monitor_handler_def
  sys_wait_def call_old_handler_def mark_stopped_def

section \<open>Theorems\<close>


definition monitor_schedule :: "monitor_event list" where
  "monitor_schedule = [Me_construct 1, Me_fork 1 7, Me_register 1, Me_construct 2, Me_fork 2 8, Me_register 2,
     Me_end 7 (Exited 3), Me_deliver]"


text \<open>Without that the monitor goes wrong in three ways. Two children that end before the handler runs are one
  signal, and the second one is never noticed; a child that ends before it is registered leaves an
  object that counts as running for ever; and a child that outlives its object makes the handler use
  the destroyed object.\<close>

theorem monitor_races:
  "(\<exists>s. (monitor_step False)\<^sup>*\<^sup>* (monitor_start old) s \<and> \<not> ch_pending s \<and> ch_alive s = {} \<and>
     ch_zombies s = [(8, Exited 4)] \<and> map_option co_state (ch_objects s 2) = Some STATE_RUNNING) \<and>
   (\<exists>s. (monitor_step False)\<^sup>*\<^sup>* (monitor_start old) s \<and> \<not> ch_pending s \<and> ch_alive s = {} \<and>
     ch_zombies s = [] \<and> map_option co_state (ch_objects s 1) = Some STATE_RUNNING) \<and>
   (\<exists>s. (monitor_step False)\<^sup>*\<^sup>* (monitor_start old) s \<and> ch_pending s \<and>
     monitor_handler (s\<lparr>ch_pending := False\<rparr>) = Undef)"
proof (intro conjI)
  have run: "\<exists>s. (monitor_step False)\<^sup>*\<^sup>* (monitor_start old) s \<and> P s"
    if "\<exists>s. monitor_execs False es (monitor_start old) = Some s \<and> P s" for es P
    using that monitor_execs_steps by blast
  show "\<exists>s. (monitor_step False)\<^sup>*\<^sup>* (monitor_start old) s \<and> \<not> ch_pending s \<and> ch_alive s = {} \<and>
     ch_zombies s = [(8, Exited 4)] \<and> map_option co_state (ch_objects s 2) = Some STATE_RUNNING"
    by (rule run [where es = "[Me_construct 1, Me_fork 1 7, Me_register 1, Me_construct 2, Me_fork 2 8, Me_register 2,
      Me_end 7 (Exited 3), Me_end 8 (Exited 4), Me_deliver]"]) (auto simp: monitor_run_simps split: disposition.splits)
  show "\<exists>s. (monitor_step False)\<^sup>*\<^sup>* (monitor_start old) s \<and> \<not> ch_pending s \<and> ch_alive s = {} \<and>
     ch_zombies s = [] \<and> map_option co_state (ch_objects s 1) = Some STATE_RUNNING"
    by (rule run [where es = "[Me_construct 1, Me_fork 1 7, Me_end 7 (Exited 3), Me_deliver, Me_register 1]"])
      (auto simp: monitor_run_simps split: disposition.splits)
  show "\<exists>s. (monitor_step False)\<^sup>*\<^sup>* (monitor_start old) s \<and> ch_pending s \<and>
     monitor_handler (s\<lparr>ch_pending := False\<rparr>) = Undef"
    by (rule run [where es = "[Me_construct 1, Me_fork 1 7, Me_register 1, Me_close 1, Me_destroy 1, Me_end 7 (Exited 3)]"])
      (auto simp: monitor_run_simps split: disposition.splits)
qed

text \<open>Destroying the monitor restores the handler of before, unless the program has changed it in the meantime.\<close>

lemma monitor_restores:
  "ProcessMonitor True action = (m, action') \<Longrightarrow> action \<noteq> Sig_monitor \<Longrightarrow> monitor_destroy True True m action' = action"
  by (auto simp: ProcessMonitor_def monitor_destroy_def)

lemma monitor_keeps_new_handler:
  "action \<noteq> Sig_monitor \<Longrightarrow> monitor_destroy True True m action = action"
  by (simp add: monitor_destroy_def)

end
