(* ===== verification/Iteration.thy ===== *)
theory Iteration
  imports Prelude
begin

text \<open>
  Iterators in the style of the standard library: a client compares with \<open>end()\<close>, looks at the element and
  moves on, while the state of the system changes. The contract is the locale \<open>iteration\<close>; the iterators of
  both classes \<open>Directory\<close> fulfil it.
\<close>

text \<open>The loop \<^verbatim>\<open>for (it = begin(); it != end(); ++it)\<close> that collects what it sees, and where it ends.\<close>

fun iterate :: "('it \<Rightarrow> bool outcome) \<Rightarrow> ('it \<Rightarrow> 'e outcome) \<Rightarrow> ('it \<Rightarrow> 'w \<Rightarrow> ('it \<times> 'w) outcome)
    \<Rightarrow> nat \<Rightarrow> 'it \<Rightarrow> 'w \<Rightarrow> ('e list \<times> 'it \<times> 'w) outcome" where
  "iterate more deref incr 0 it w = Fuel"
| "iterate more deref incr (Suc n) it w = obind (more it) (\<lambda>m.
     if \<not> m then Ret ([], it, w)
     else obind (deref it) (\<lambda>e. obind (incr it w) (\<lambda>(it', w').
       obind (iterate more deref incr n it' w') (\<lambda>(es, it'', w''). Ret (e # es, it'', w'')))))"

text \<open>\<open>ahead it w es\<close>: the iterator stands on the first of the elements \<open>es\<close>, or at the end when there is none.\<close>

locale iteration =
  fixes more :: "'it \<Rightarrow> bool outcome" and deref :: "'it \<Rightarrow> 'e outcome"
    and incr :: "'it \<Rightarrow> 'w \<Rightarrow> ('it \<times> 'w) outcome" and ahead :: "'it \<Rightarrow> 'w \<Rightarrow> 'e list \<Rightarrow> bool"
  assumes more_law: "ahead it w es \<Longrightarrow> more it = Ret (es \<noteq> [])"
    and deref_law: "ahead it w (e # es) \<Longrightarrow> deref it = Ret e"
    and incr_law: "ahead it w (e # es) \<Longrightarrow> \<exists>it' w'. incr it w = Ret (it', w') \<and> ahead it' w' es"
begin

lemma iterate_all:
  "ahead it w es \<Longrightarrow> length es < n \<Longrightarrow>
    \<exists>it' w'. iterate more deref incr n it w = Ret (es, it', w') \<and> ahead it' w' []"
proof (induction n arbitrary: it w es)
  case (Suc n)
  show ?case
  proof (cases es)
    case Nil
    with Suc.prems(1) more_law [OF Suc.prems(1)] show ?thesis by simp
  next
    case (Cons e es')
    have a: "ahead it w (e # es')" using Suc.prems(1) Cons by simp
    obtain it1 w1 where i: "incr it w = Ret (it1, w1)" "ahead it1 w1 es'" using incr_law [OF a] by blast
    obtain it' w' where "iterate more deref incr n it1 w1 = Ret (es', it', w')" "ahead it' w' []"
      using Suc.IH [OF i(2)] Suc.prems(2) Cons by auto
    with i(1) Cons more_law [OF a] deref_law [OF a] show ?thesis by simp
  qed
qed simp

end

end
