(* ===== verification/Unix_Directory.thy ===== *)
theory Unix_Directory
  imports Unix_File Iteration
begin

text \<open>
  The class \<open>Directory\<close> and its iterator on Unix (\<^verbatim>\<open>src/unix/directory.cc\<close>). The object
  keeps the open directory streams in a map from the addresses of iterators; an iterator is made at an
  address, which is a parameter here. The loops take fuel.
\<close>

section \<open>The system calls\<close>

record 'w dir_os =
  dr_file :: "'w unix_os"   \<comment> \<open>\<open>stat\<close>, \<open>tmpnam\<close>, \<open>rand\<close>, \<open>localtime\<close>\<close>
  dr_mkdir :: "string \<Rightarrow> 'w \<Rightarrow> int \<times> 'w"
  dr_rmdir :: "string \<Rightarrow> 'w \<Rightarrow> int \<times> 'w"
  dr_opendir :: "string \<Rightarrow> 'w \<Rightarrow> int option \<times> 'w"   \<comment> \<open>\<open>None\<close> is the null pointer\<close>
  dr_readdir :: "int \<Rightarrow> 'w \<Rightarrow> string option \<times> 'w"
  dr_closedir :: "int \<Rightarrow> 'w \<Rightarrow> 'w"

section \<open>The iterator\<close>

record dir_iterator =
  di_handle :: "int option"
  di_ent :: "string option"   \<comment> \<open>the name of the current entry\<close>

record directory =
  dir_path :: path
  dir_handles :: "nat \<Rightarrow> int option option"

definition Directory :: "path \<Rightarrow> directory" where
  "Directory p = \<lparr>dir_path = p, dir_handles = (\<lambda>_. None)\<rparr>"

definition directory_name :: "directory \<Rightarrow> string" where
  "directory_name d = path_name (dir_path d)"

definition is_dot :: "string \<Rightarrow> bool" where
  "is_dot e \<longleftrightarrow> astrcmp e ''.'' = 0 \<or> astrcmp e ''..'' = 0"

fun next_entry :: "'w dir_os \<Rightarrow> nat \<Rightarrow> int \<Rightarrow> 'w \<Rightarrow> (string option \<times> 'w) outcome" where
  "next_entry U 0 h w = Fuel"
| "next_entry U (Suc n) h w = (case dr_readdir U h w of
       (None, w') \<Rightarrow> Ret (None, w')
     | (Some e, w') \<Rightarrow> if is_dot e then next_entry U n h w' else Ret (Some e, w'))"

definition dir_next :: "'w dir_os \<Rightarrow> nat \<Rightarrow> dir_iterator \<Rightarrow> 'w \<Rightarrow> (dir_iterator \<times> 'w) outcome" where
  "dir_next U n it w = (case di_handle it of None \<Rightarrow> Undef
     | Some h \<Rightarrow> obind (next_entry U n h w) (\<lambda>(e, w'). Ret (it\<lparr>di_ent := e\<rparr>, w')))"

definition DirIterator_default :: dir_iterator where
  "DirIterator_default = \<lparr>di_handle = None, di_ent = None\<rparr>"

text \<open>The iterator made at the address \<open>a\<close>.\<close>

definition DirIterator :: "'w dir_os \<Rightarrow> nat \<Rightarrow> nat \<Rightarrow> directory \<Rightarrow> 'w \<Rightarrow> (dir_iterator \<times> directory \<times> 'w) outcome" where
  "DirIterator U n a d w =
     (case (case dir_handles d a of Some h \<Rightarrow> (h, d, w)
            | None \<Rightarrow> (case dr_opendir U (directory_name d) w of (h, w') \<Rightarrow>
                (h, d\<lparr>dir_handles := (dir_handles d)(a \<mapsto> h)\<rparr>, w'))) of (h, d', w') \<Rightarrow>
        let it = \<lparr>di_handle = h, di_ent = None\<rparr>
        in if h \<noteq> None then obind (dir_next U n it w') (\<lambda>(it', w''). Ret (it', d', w'')) else Ret (it, d', w'))"

definition dir_deref :: "dir_iterator \<Rightarrow> string" where
  "dir_deref it = (case di_ent it of None \<Rightarrow> ''NULL'' | Some e \<Rightarrow> e)"

definition dir_incr :: "'w dir_os \<Rightarrow> nat \<Rightarrow> dir_iterator \<Rightarrow> 'w \<Rightarrow> (dir_iterator \<times> 'w) outcome" where
  "dir_incr U n it w = (if di_ent it \<noteq> None then dir_next U n it w else Ret (it, w))"

definition dir_postincr :: "'w dir_os \<Rightarrow> nat \<Rightarrow> dir_iterator \<Rightarrow> 'w \<Rightarrow> (dir_iterator \<times> 'w) outcome" where
  "dir_postincr U n it w = (if di_ent it \<noteq> None then dir_next U n it w else Ret (it, w))"

definition dir_eq :: "dir_iterator \<Rightarrow> dir_iterator \<Rightarrow> bool" where
  "dir_eq a b = (case (di_ent a, di_ent b) of
       (None, None) \<Rightarrow> True
     | (Some x, Some y) \<Rightarrow> astrcmp x y = 0
     | _ \<Rightarrow> False)"

definition dir_neq :: "dir_iterator \<Rightarrow> dir_iterator \<Rightarrow> bool" where
  "dir_neq a b \<longleftrightarrow> \<not> dir_eq a b"

section \<open>The directory\<close>

definition dir_begin :: "'w dir_os \<Rightarrow> nat \<Rightarrow> nat \<Rightarrow> directory \<Rightarrow> 'w \<Rightarrow> (dir_iterator \<times> directory \<times> 'w) outcome" where
  "dir_begin U n a d w = DirIterator U n a d w"

definition dir_end :: dir_iterator where
  "dir_end = DirIterator_default"

text \<open>The destructor closes the streams of the addresses in the map; a null one is passed on as well.\<close>

definition directory_destroy :: "'w dir_os \<Rightarrow> nat list \<Rightarrow> directory \<Rightarrow> 'w \<Rightarrow> (directory \<times> 'w) outcome" where
  "directory_destroy U addresses d w = obind
     (fold (\<lambda>a r. obind r (\<lambda>w. case dir_handles d a of None \<Rightarrow> Ret w
        | Some None \<Rightarrow> Undef | Some (Some h) \<Rightarrow> Ret (dr_closedir U h w))) addresses (Ret w))
     (\<lambda>w'. Ret (d\<lparr>dir_handles := (\<lambda>_. None)\<rparr>, w'))"

definition dir_exist_static :: "'w dir_os \<Rightarrow> path \<Rightarrow> 'w \<Rightarrow> bool \<times> 'w" where
  "dir_exist_static U p w = (case ux_stat (dr_file U) (path_name p) w of
       (None, w') \<Rightarrow> (False, w')
     | (Some st, w') \<Rightarrow> (0 < st_mode st AND 0x4000, w'))"

definition dir_remove_static :: "'w dir_os \<Rightarrow> path \<Rightarrow> 'w \<Rightarrow> bool \<times> 'w" where
  "dir_remove_static U p w = (case dr_rmdir U (path_name p) w of (r, w') \<Rightarrow> (r = 0, w'))"

definition dir_time_static :: "'w dir_os \<Rightarrow> path \<Rightarrow> tm \<times> tm \<times> tm \<Rightarrow> 'w \<Rightarrow> (bool \<times> (tm \<times> tm \<times> tm)) \<times> 'w" where
  "dir_time_static U p ts w = time_static (dr_file U) p ts w"

fun dir_create_loop :: "'w dir_os \<Rightarrow> nat \<Rightarrow> path_iterator \<Rightarrow> string \<Rightarrow> 'w \<Rightarrow> (bool \<times> 'w) outcome" where
  "dir_create_loop U 0 it cur w = Fuel"
| "dir_create_loop U (Suc n) it cur w = obind (iterator_neq it path_end) (\<lambda>more.
     if \<not> more then Ret (True, w)
     else obind (iterator_deref it) (\<lambda>c.
       let cur' = cur @ c @ ''/'' in
       case dir_exist_static U cur' w of (ex, w1) \<Rightarrow>
       case (if ex then (0, w1) else dr_mkdir U cur' w1) of (r, w2) \<Rightarrow>
         if r \<noteq> 0 then Ret (False, w2)
         else obind (iterator_postincr False it) (\<lambda>it'. dir_create_loop U n it' cur' w2)))"

definition dir_create_static :: "'w dir_os \<Rightarrow> path \<Rightarrow> 'w \<Rightarrow> (bool \<times> 'w) outcome" where
  "dir_create_static U p w = obind (path_begin False p) (\<lambda>it.
     dir_create_loop U (length p + 2) it (path_root_name False p) w)"

definition dir_create :: "'w dir_os \<Rightarrow> directory \<Rightarrow> 'w \<Rightarrow> (bool \<times> 'w) outcome" where
  "dir_create U d w = dir_create_static U (dir_path d) w"

definition dir_remove :: "'w dir_os \<Rightarrow> directory \<Rightarrow> 'w \<Rightarrow> bool \<times> 'w" where
  "dir_remove U d w = dir_remove_static U (dir_path d) w"

definition dir_exist :: "'w dir_os \<Rightarrow> directory \<Rightarrow> 'w \<Rightarrow> bool \<times> 'w" where
  "dir_exist U d w = dir_exist_static U (dir_path d) w"

definition dir_time :: "'w dir_os \<Rightarrow> directory \<Rightarrow> tm \<times> tm \<times> tm \<Rightarrow> 'w \<Rightarrow> (bool \<times> (tm \<times> tm \<times> tm)) \<times> 'w" where
  "dir_time U d ts w = dir_time_static U (dir_path d) ts w"

definition dir_temp :: "'w dir_os \<Rightarrow> 'w \<Rightarrow> directory outcome \<times> 'w" where
  "dir_temp U w = (case ux_tmpnam (dr_file U) w of
       (Some tmp_name, w') \<Rightarrow> (Ret (Directory tmp_name), w')
     | (None, w') \<Rightarrow> (case ux_rand (dr_file U) w' of (r, w'') \<Rightarrow>
         (obind (temp_buffer_name ''/tmp/file'' [] r) (\<lambda>name. Ret (Directory name)), w'')))"

section \<open>What the system calls are documented to do\<close>

text \<open>\<open>L w name\<close> are the entries of a directory, \<open>E w h\<close> those an open stream has still to give.\<close>

definition posix_opendir :: "'w dir_os \<Rightarrow> ('w \<Rightarrow> string \<Rightarrow> string list option) \<Rightarrow> ('w \<Rightarrow> int \<Rightarrow> string list option) \<Rightarrow> bool" where
  "posix_opendir U L E \<longleftrightarrow> (\<forall>w name es. L w name = Some es \<longrightarrow>
     (\<exists>h w'. dr_opendir U name w = (Some h, w') \<and> E w' h = Some es))"

definition posix_readdir :: "'w dir_os \<Rightarrow> ('w \<Rightarrow> int \<Rightarrow> string list option) \<Rightarrow> bool" where
  "posix_readdir U E \<longleftrightarrow> (\<forall>w h es. E w h = Some es \<longrightarrow>
     (\<exists>w'. dr_readdir U h w = (case es of [] \<Rightarrow> None | e # es' \<Rightarrow> Some e, w') \<and> E w' = (E w)(h := Some (tl es))))"

text \<open>\<open>D w name\<close> says whether the name is a directory.\<close>

definition posix_dirs :: "'w dir_os \<Rightarrow> ('w \<Rightarrow> string \<Rightarrow> bool) \<Rightarrow> bool" where
  "posix_dirs U D \<longleftrightarrow> (\<forall>w name. (\<exists>r w'. dr_mkdir U name w = (r, w') \<and> D w' = (if r = 0 then (D w)(name := True) else D w)) \<and>
     (\<exists>st w'. ux_stat (dr_file U) name w = (st, w') \<and> D w' = D w \<and>
        (D w name \<longleftrightarrow> (case st of None \<Rightarrow> False | Some st \<Rightarrow> st_mode st AND 0x4000 \<noteq> 0))))"


section \<open>Lemmas\<close>

lemma cstr_id: "NUL \<notin> set s \<Longrightarrow> cstr s = s"
  by (auto simp: cstr_def takeWhile_eq_all_conv)

lemma is_dot_eq: "NUL \<notin> set e \<Longrightarrow> is_dot e \<longleftrightarrow> e = ''.'' \<or> e = ''..''"
  by (simp add: is_dot_def astrcmp_def char_cmp_eq_0 cstr_id NUL_def)

section \<open>Iterating\<close>

definition dir_collect :: "'w dir_os \<Rightarrow> nat \<Rightarrow> nat \<Rightarrow> dir_iterator \<Rightarrow> 'w \<Rightarrow> (string list \<times> dir_iterator \<times> 'w) outcome" where
  "dir_collect U m n it w = iterate (\<lambda>it. Ret (dir_neq it dir_end)) (\<lambda>it. Ret (dir_deref it)) (dir_incr U m) n it w"

definition visible :: "string list \<Rightarrow> string list" where
  "visible es = filter (\<lambda>e. \<not> is_dot e) es"

lemma next_entry_spec:
  assumes "posix_readdir U E" "E w h = Some es" "length es < n"
  shows "\<exists>e w' es'. next_entry U n h w = Ret (e, w') \<and> E w' h = Some es' \<and> length es' \<le> length es \<and>
    (case e of None \<Rightarrow> visible es = [] \<and> es' = [] | Some e \<Rightarrow> visible es = e # visible es' \<and> length es' < length es)"
  using assms(2,3)
proof (induction n arbitrary: w es)
  case (Suc n)
  obtain w1 where r: "dr_readdir U h w = (case es of [] \<Rightarrow> None | e # es' \<Rightarrow> Some e, w1)" "E w1 h = Some (tl es)"
    using assms(1) Suc.prems(1) unfolding posix_readdir_def by (metis fun_upd_same)
  show ?case
  proof (cases es)
    case Nil
    with r show ?thesis by (auto simp: visible_def)
  next
    case (Cons e es')
    show ?thesis
    proof (cases "is_dot e")
      case True
      have "length es' < n" using Suc.prems(2) Cons by simp
      with Suc.IH [of w1 es'] r Cons obtain x w' es'' where x: "next_entry U n h w1 = Ret (x, w')" "E w' h = Some es''"
        "length es'' \<le> length es'" "case x of None \<Rightarrow> visible es' = [] \<and> es'' = [] | Some e \<Rightarrow> visible es' = e # visible es'' \<and> length es'' < length es'"
        by auto
      with True r Cons show ?thesis
        by (intro exI [of _ x] exI [of _ w'] exI [of _ es'']) (auto simp: visible_def split: option.splits)
    next
      case False
      with r Cons show ?thesis by (auto simp: visible_def)
    qed
  qed
qed simp

lemma dir_neq_end: "dir_neq it dir_end \<longleftrightarrow> di_ent it \<noteq> None"
  by (auto simp: dir_neq_def dir_eq_def dir_end_def DirIterator_default_def split: option.splits)

text \<open>The iterator has the first of the entries to come, and its stream the others.\<close>

definition dir_ahead :: "'w dir_os \<Rightarrow> ('w \<Rightarrow> int \<Rightarrow> string list option) \<Rightarrow> nat \<Rightarrow> int \<Rightarrow> dir_iterator \<Rightarrow> 'w
    \<Rightarrow> string list \<Rightarrow> bool" where
  "dir_ahead U E m h it w es \<longleftrightarrow> posix_readdir U E \<and> di_handle it = Some h \<and> (\<exists>rest. E w h = Some rest \<and> length rest < m \<and>
     (case es of [] \<Rightarrow> di_ent it = None \<and> rest = [] | e # es' \<Rightarrow> di_ent it = Some e \<and> visible rest = es'))"

lemma dir_next_ahead:
  assumes "posix_readdir U E" "di_handle it = Some h" "E w h = Some rest" "length rest < m"
  shows "\<exists>e w'. dir_next U m it w = Ret (it\<lparr>di_ent := e\<rparr>, w') \<and> dir_ahead U E m h (it\<lparr>di_ent := e\<rparr>) w' (visible rest)"
proof -
  obtain e w' rest' where r: "next_entry U m h w = Ret (e, w')" "E w' h = Some rest'" "length rest' \<le> length rest"
    "case e of None \<Rightarrow> visible rest = [] \<and> rest' = [] | Some e \<Rightarrow> visible rest = e # visible rest' \<and> length rest' < length rest"
    using next_entry_spec [OF assms(1,3,4)] by blast
  then have "dir_ahead U E m h (it\<lparr>di_ent := e\<rparr>) w' (visible rest)"
    using assms(1,2,4) by (cases e) (auto simp: dir_ahead_def)
  with r(1) assms(2) show ?thesis by (auto simp: dir_next_def)
qed

interpretation dir_iter: iteration "\<lambda>it. Ret (dir_neq it dir_end)" "\<lambda>it. Ret (dir_deref it)" "dir_incr U m" "dir_ahead U E m h"
  for U E m h
proof
  fix it w e and es :: "string list"
  assume a: "dir_ahead U E m h it w (e # es)"
  then show "Ret (dir_deref it) = Ret e" by (auto simp: dir_ahead_def dir_deref_def)
  from a obtain rest where "posix_readdir U E" "di_handle it = Some h" "E w h = Some rest" "length rest < m"
    "di_ent it = Some e" "visible rest = es" by (auto simp: dir_ahead_def)
  with dir_next_ahead [of U E it h w rest m] show "\<exists>it' w'. dir_incr U m it w = Ret (it', w') \<and> dir_ahead U E m h it' w' es"
    by (auto simp: dir_incr_def)
next
  fix it w and es :: "string list"
  show "dir_ahead U E m h it w es \<Longrightarrow> Ret (dir_neq it dir_end) = Ret (es \<noteq> [])"
    by (cases es) (auto simp: dir_neq_end dir_ahead_def)
qed

text \<open>C21: A loop from \<open>begin()\<close> to \<open>end()\<close> sees the entries of the directory but \<^verbatim>\<open>.\<close> and
  \<^verbatim>\<open>..\<close>, in the order of the system. But the stream is kept for the address of the iterator:
  a second \<open>begin()\<close> whose iterator is made at the same address, like the temporary of the same loop
  run again, gets the exhausted stream and sees nothing.\<close>

theorem directory_iteration:
  assumes "posix_opendir U L E" "posix_readdir U E" "L w (directory_name d) = Some es" "dir_handles d a = None"
    and "length es < n" "\<forall>e\<in>set es. NUL \<notin> set e"
  shows "\<exists>it d' w1 it2 w2. dir_begin U n a d w = Ret (it, d', w1) \<and>
    dir_collect U n n it w1 = Ret (filter (\<lambda>e. e \<noteq> ''.'' \<and> e \<noteq> ''..'') es, it2, w2) \<and>
    (\<exists>it' w3. dir_begin U n a d' w2 = Ret (it', d', w3) \<and> dir_eq it' dir_end)"
proof -
  obtain h w0 where o: "dr_opendir U (directory_name d) w = (Some h, w0)" "E w0 h = Some es"
    using assms(1,3) unfolding posix_opendir_def by meson
  define d' where "d' = d\<lparr>dir_handles := (dir_handles d)(a \<mapsto> Some h)\<rparr>"
  let ?it = "\<lambda>e. \<lparr>di_handle = Some h, di_ent = e\<rparr>"
  have b: "dir_begin U n a d' w' = obind (dir_next U n (?it None) w') (\<lambda>(it', w''). Ret (it', d', w''))" for w'
    by (simp add: dir_begin_def DirIterator_def d'_def)
  have b1: "dir_begin U n a d w = obind (dir_next U n (?it None) w0) (\<lambda>(it', w''). Ret (it', d', w''))"
    using o(1) assms(4) by (simp add: dir_begin_def DirIterator_def d'_def)
  obtain e w1 where n1: "dir_next U n (?it None) w0 = Ret (?it e, w1)" "dir_ahead U E n h (?it e) w1 (visible es)"
    using dir_next_ahead [OF assms(2) _ o(2) assms(5), of "?it None"] by auto
  have "length (visible es) < n" using assms(5) by (simp add: visible_def order.strict_trans1 [OF length_filter_le])
  then obtain it2 w2 where c: "dir_collect U n n (?it e) w1 = Ret (visible es, it2, w2)" "dir_ahead U E n h it2 w2 []"
    using dir_iter.iterate_all [OF n1(2)] unfolding dir_collect_def by blast
  have v: "visible es = filter (\<lambda>e. e \<noteq> ''.'' \<and> e \<noteq> ''..'') es"
    unfolding visible_def using assms(6) is_dot_eq by (intro filter_cong) auto
  have "E w2 h = Some []" "0 < n" using c(2) assms(5) by (auto simp: dir_ahead_def)
  then obtain e3 w3 where n3: "dir_next U n (?it None) w2 = Ret (?it e3, w3)" "dir_ahead U E n h (?it e3) w3 (visible [])"
    using dir_next_ahead [OF assms(2), of "?it None" h w2 "[]" n] by auto
  then have "dir_eq (?it e3) dir_end"
    by (simp add: dir_ahead_def visible_def dir_eq_def dir_end_def DirIterator_default_def)
  then show ?thesis using b1 n1(1) c(1) v b [of w2] n3(1) by simp
qed

text \<open>A system with one directory for the examples: the state is the entries the stream has still to give, and
  the names that are directories.\<close>

type_synonym one_dir = "string list \<times> string set"

definition one_dir_os :: "one_dir dir_os" where
  "one_dir_os = \<lparr>dr_file = \<lparr>ux_errno = (\<lambda>w. 2), ux_strerror = (\<lambda>e. ''error''), ux_open = (\<lambda>n fl w. (-1, w)),
       ux_setlk = (\<lambda>fd wr w. (0, w)), ux_close = (\<lambda>fd w. (0, w)), ux_lseek = (\<lambda>fd d wh w. (-1, w)),
       ux_read = (\<lambda>fd n w. (-1, [], w)), ux_write = (\<lambda>fd bs w. (-1, w)),
       ux_stat = (\<lambda>n w. (if n \<in> snd w then Some \<lparr>st_mode = 0x4000, st_size = 0, st_atime = 0, st_mtime = 0, st_ctime = 0\<rparr> else None, w)),
       ux_fstat = (\<lambda>fd w. (None, w)), ux_unlink = (\<lambda>n w. (-1, w)), ux_rename = (\<lambda>n m w. (-1, w)),
       ux_access = (\<lambda>n r wr w. (-1, w)), ux_localtime = (\<lambda>t. None), ux_tmpnam = (\<lambda>w. (None, w)), ux_rand = (\<lambda>w. (7, w))\<rparr>,
     dr_mkdir = (\<lambda>n w. (0, (fst w, insert n (snd w)))), dr_rmdir = (\<lambda>n w. (0, w)),
     dr_opendir = (\<lambda>n w. (Some 3, w)),
     dr_readdir = (\<lambda>h w. case fst w of [] \<Rightarrow> (None, w) | e # es \<Rightarrow> if h = 3 then (Some e, (es, snd w)) else (None, w)),
     dr_closedir = (\<lambda>h w. w)\<rparr>"

definition one_dir_list :: "one_dir \<Rightarrow> string \<Rightarrow> string list option" where
  "one_dir_list w n = Some (fst w)"

definition one_dir_rest :: "one_dir \<Rightarrow> int \<Rightarrow> string list option" where
  "one_dir_rest w h = (if h = 3 then Some (fst w) else None)"

lemma one_dir_posix:
  "posix_opendir one_dir_os one_dir_list one_dir_rest" "posix_readdir one_dir_os one_dir_rest"
  "posix_dirs one_dir_os (\<lambda>w n. n \<in> snd w)"
  by (auto simp: posix_opendir_def posix_readdir_def posix_dirs_def one_dir_os_def one_dir_list_def one_dir_rest_def
      fun_eq_iff split: list.splits if_splits)

theorem directory_iteration_witness:
  "\<exists>it d' w1 it2 w2. dir_begin one_dir_os 9 5 (Directory ''/d'') ([''.'', ''a'', ''..'', ''b''], {}) = Ret (it, d', w1) \<and>
    dir_collect one_dir_os 9 9 it w1 = Ret (filter (\<lambda>e. e \<noteq> ''.'' \<and> e \<noteq> ''..'') [''.'', ''a'', ''..'', ''b''], it2, w2) \<and>
    (\<exists>it' w3. dir_begin one_dir_os 9 5 d' w2 = Ret (it', d', w3) \<and> dir_eq it' dir_end)"
  by (rule directory_iteration [OF one_dir_posix(1,2)]) (auto simp: one_dir_list_def Directory_def NUL_def)


section \<open>Creating\<close>

text \<open>The names \<open>create\<close> works on: every prefix of the components, with a slash at the end.\<close>

fun dir_prefixes :: "string \<Rightarrow> string list \<Rightarrow> string list" where
  "dir_prefixes cur [] = []"
| "dir_prefixes cur (c # cs) = (cur @ c @ ''/'') # dir_prefixes (cur @ c @ ''/'') cs"

lemma dir_exist_posix:
  assumes "posix_dirs U D"
  obtains w' where "dir_exist_static U name w = (D w name, w')" "D w' = D w"
proof -
  obtain st w' where st: "ux_stat (dr_file U) name w = (st, w')" "D w' = D w"
    "D w name \<longleftrightarrow> (case st of None \<Rightarrow> False | Some st \<Rightarrow> st_mode st AND 0x4000 \<noteq> 0)"
    using assms unfolding posix_dirs_def by meson
  then have "dir_exist_static U name w = (D w name, w')"
    by (cases st) (simp_all add: dir_exist_static_def path_name_def word_gt_0)
  with st(2) show thesis by (rule that [rotated])
qed

lemma dir_create_loop_spec:
  assumes "posix_dirs U D" "shows_parts False it ws" "length ws < n"
  shows "\<exists>b w'. dir_create_loop U n it cur w = Ret (b, w') \<and> (\<forall>m. D w m \<longrightarrow> D w' m) \<and>
    (\<forall>m. D w' m \<longrightarrow> D w m \<or> m \<in> set (dir_prefixes cur (up_to_NULL ws))) \<and>
    (b \<longrightarrow> (\<forall>m\<in>set (dir_prefixes cur (up_to_NULL ws)). D w' m))"
  using assms(2,3)
proof (induction n arbitrary: it ws cur w)
  case (Suc n)
  show ?case
  proof (cases "ended ws")
    case True
    then show ?thesis using cmp_end(1) [OF Suc.prems(1)] up_to_NULL_ended [of ws] by (intro exI [of _ True] exI [of _ w]) simp
  next
    case False
    then obtain c cs where ws: "ws = c # cs" "c \<noteq> ''NULL''" by (cases ws) (auto simp: ended_def)
    then have u: "up_to_NULL ws = c # up_to_NULL cs" by (simp add: up_to_NULL_def)
    obtain it' where it': "iterator_postincr False it = Ret it'" "shows_parts False it' cs"
      using postincr_parts Suc.prems(1) ws by blast
    have it: "iterator_neq it path_end = Ret True" "iterator_deref it = Ret c"
      using cmp_end(1) [OF Suc.prems(1)] deref_parts [OF Suc.prems(1)] False ws by simp_all
    let ?cur = "cur @ c @ ''/''"
    obtain w1 where e: "dir_exist_static U ?cur w = (D w ?cur, w1)" "D w1 = D w"
      by (rule dir_exist_posix [OF assms(1)])
    obtain r w2 where m: "(if D w ?cur then (0, w1) else dr_mkdir U ?cur w1) = (r, w2)"
      "D w2 = (if r = 0 then (D w)(?cur := True) else D w)"
    proof (cases "D w ?cur")
      case True
      then have "D w1 = (D w)(?cur := True)" using e(2) by (auto simp: fun_eq_iff)
      with True show thesis by (intro that [of 0 w1]) auto
    next
      case False
      obtain r w2 where "dr_mkdir U ?cur w1 = (r, w2)" "D w2 = (if r = 0 then (D w1)(?cur := True) else D w1)"
        using assms(1) unfolding posix_dirs_def by meson
      with False e(2) show thesis by (intro that [of r w2]) simp_all
    qed
    show ?thesis
    proof (cases "r = 0")
      case True
      obtain b w' where b: "dir_create_loop U n it' ?cur w2 = Ret (b, w')" "\<forall>m. D w2 m \<longrightarrow> D w' m"
        "\<forall>m. D w' m \<longrightarrow> D w2 m \<or> m \<in> set (dir_prefixes ?cur (up_to_NULL cs))"
        "b \<longrightarrow> (\<forall>m\<in>set (dir_prefixes ?cur (up_to_NULL cs)). D w' m)"
        using Suc.IH [OF it'(2), of ?cur w2] Suc.prems(2) ws by auto
      have "dir_create_loop U (Suc n) it cur w = Ret (b, w')"
        using it it' e m(1) True b(1) by (simp add: Let_def)
      with b m(2) True show ?thesis
        by (intro exI [of _ b] exI [of _ w']) (auto simp: u split: if_splits)
    next
      case False
      then have "dir_create_loop U (Suc n) it cur w = Ret (False, w2)"
        using it e m(1) by (simp add: Let_def)
      with m(2) False show ?thesis by auto
    qed
  qed
qed simp



end
