(* ===== verification/System_Info.thy ===== *)
theory System_Info
  imports Strings
begin

text \<open>
  The functions of \<^verbatim>\<open>src/system.cc\<close> that compute something: the time of day in milliseconds and
  the sizes of the caches, decoded from the registers \<^verbatim>\<open>cpuid\<close> gives. The instruction is a
  parameter, from the two registers it takes to the four it sets; what the function \<^verbatim>\<open>cpuid\<close> makes of them
  are \<open>unsigned long\<close>, with 64 bits on Unix and 32 on Windows.
\<close>

type_synonym cpuid = "u64 \<Rightarrow> u64 \<Rightarrow> u64 \<times> u64 \<times> u64 \<times> u64"

type_synonym cpuid_instruction = "u32 \<Rightarrow> u32 \<Rightarrow> u32 \<times> u32 \<times> u32 \<times> u32"

text \<open>The assembly on Unix: a 64 bit register is cleared above the 32 bits the instruction sets.\<close>

definition cpuid_asm :: "cpuid_instruction \<Rightarrow> cpuid" where
  "cpuid_asm instr func arg = (case instr (ucast func) (ucast arg) of
     (eax, ebx, ecx, edx) \<Rightarrow> (ucast eax, ucast ebx, ucast ecx, ucast edx))"

text \<open>Windows: \<^verbatim>\<open>cpuid64\<close>, which is not part of the repository, fills an array of four, or the assembly four variables.\<close>

definition win_cpuid64 :: "(u32 \<Rightarrow> u32 \<Rightarrow> u32 list) \<Rightarrow> cpuid_instruction" where
  "win_cpuid64 cpuid64 func arg = (let words = cpuid64 func arg in (words ! 0, words ! 1, words ! 2, words ! 3))"

definition win_cpuid_asm :: "cpuid_instruction \<Rightarrow> cpuid_instruction" where
  "win_cpuid_asm instr func arg = (case instr func arg of (t1, t2, t3, t4) \<Rightarrow> (t1, t2, t3, t4))"

datatype CacheLevel = ckLEVEL_1 | ckLEVEL_2 | ckLEVEL_3

definition level_number :: "CacheLevel \<Rightarrow> u8" where
  "level_number l = (case l of ckLEVEL_1 \<Rightarrow> 1 | ckLEVEL_2 \<Rightarrow> 2 | ckLEVEL_3 \<Rightarrow> 3)"

text \<open>The time of day is not negative.\<close>

definition system_time :: "nat \<times> nat \<Rightarrow> u64" where
  "system_time tv = of_nat (fst tv * 1000 + snd tv div 1000)"

text \<open>On Windows it is a counter of 32 bits, which starts again after 49 days.\<close>

definition win_system_time :: "u32 \<Rightarrow> u64" where
  "win_system_time tick_count = ucast tick_count"

text \<open>\<^verbatim>\<open>rdtsc\<close> puts the two halves of the counter into the low 32 bits of two registers.\<close>

definition ticks :: "u64 \<Rightarrow> u64 \<Rightarrow> u64" where
  "ticks low high = push_bit 32 high OR low"

lemma ticks_eq:
  assumes "unat low < 2 ^ 32" "unat high < 2 ^ 32"
  shows "unat (ticks low high) = unat high * 2 ^ 32 + unat low"
proof -
  have lo: "take_bit 32 low = low"
    using assms(1) by (intro word_unat_eq_iff [THEN iffD2]) (simp add: unsigned_take_bit_eq take_bit_nat_eq_self)
  have "push_bit 32 high OR low = push_bit 32 high + low"
  proof (rule disjunctive_add_eq_or [symmetric])
    show "push_bit 32 high AND low = 0"
    proof (rule bit_word_eqI)
      fix n :: nat assume "n < LENGTH(64)"
      have "bit low n = bit (take_bit 32 low) n" using lo by simp
      then show "bit (push_bit 32 high AND low) n = bit 0 n"
        by (auto simp: bit_and_iff bit_push_bit_iff bit_take_bit_iff)
    qed
  qed
  moreover have "unat (push_bit 32 high) = unat high * 2 ^ 32"
  proof -
    have "unat (push_bit 32 high) = take_bit 64 (push_bit 32 (unat high))" by (simp add: unsigned_push_bit_eq)
    also have "\<dots> = push_bit 32 (unat high)" using assms(2) by (intro take_bit_nat_eq_self) (simp add: push_bit_eq_mult)
    finally show ?thesis by (simp add: push_bit_eq_mult)
  qed
  moreover have "unat high * 2 ^ 32 + unat low < 2 ^ 64" using assms by simp
  ultimately show ?thesis
    unfolding ticks_def using unat_add_lem [of "push_bit 32 high" low] by simp
qed

section \<open>Intel\<close>

text \<open>The fields of a leaf: the type and the level of the cache, and its size.\<close>

definition cache_type :: "u64 \<Rightarrow> u8" where
  "cache_type a = ucast a AND 0x1f"

definition cache_level :: "u64 \<Rightarrow> u8" where
  "cache_level a = ucast (shr a 5) AND 0x07"

definition cache_bytes :: "u64 \<Rightarrow> u64 \<Rightarrow> u64" where
  "cache_bytes b c = (let ways = shr b 22 AND 0x3ff; part = shr b 12 AND 0x3ff; line = b AND 0xfff; sets = c
     in (ways + 1) * (part + 1) * (line + 1) * (sets + 1))"

definition is_data_cache :: "CacheLevel \<Rightarrow> u64 \<Rightarrow> bool" where
  "is_data_cache level a \<longleftrightarrow> (cache_type a = 1 \<or> cache_type a = 3) \<and> cache_level a = level_number level"

fun cache_intel_loop :: "cpuid \<Rightarrow> CacheLevel \<Rightarrow> nat \<Rightarrow> u64 \<Rightarrow> u64 outcome" where
  "cache_intel_loop cpu level 0 reg = Fuel"
| "cache_intel_loop cpu level (Suc n) reg = (case cpu 4 reg of (a, b, c, d) \<Rightarrow>
     if cache_type a = 0 then Ret 0
     else if is_data_cache level a then Ret (cache_bytes b c)
     else cache_intel_loop cpu level n (reg + 1))"

definition cache_size_intel :: "cpuid \<Rightarrow> nat \<Rightarrow> CacheLevel \<Rightarrow> u64 outcome" where
  "cache_size_intel cpu fuel level = cache_intel_loop cpu level fuel 0"

section \<open>AMD\<close>

definition cache_size_amd :: "cpuid \<Rightarrow> CacheLevel \<Rightarrow> u64" where
  "cache_size_amd cpu level =
     (if level = ckLEVEL_1 then case cpu 0x80000005 0 of (a, b, c, d) \<Rightarrow> (shr c 24 AND 0xff) * 1024
      else if level = ckLEVEL_2 then case cpu 0x80000006 0 of (a, b, c, d) \<Rightarrow> (shr c 16 AND 0xffff) * 1024
      else 0)"

section \<open>Dispatch on the vendor\<close>

definition vendor_chars :: "u64 \<Rightarrow> string" where
  "vendor_chars r = map (\<lambda>i. char_of (unat (ucast (shr r (8 * i)) :: u8))) [0, 1, 2, 3]"

definition cache_size :: "cpuid \<Rightarrow> nat \<Rightarrow> CacheLevel \<Rightarrow> u64 outcome" where
  "cache_size cpu fuel level = (case cpu 0 0 of (a, b, c, d) \<Rightarrow>
     let vendor = vendor_chars b @ vendor_chars d @ vendor_chars c @ [NUL] in
     if astrcmp vendor ''GenuineIntel'' = 0 then cache_size_intel cpu fuel level
     else if astrcmp vendor ''AuthenticAMD'' = 0 then Ret (cache_size_amd cpu level)
     else Ret 0)"

section \<open>The loop finds the first matching leaf\<close>

lemma cache_intel_loop_spec:
  assumes "cache_type (fst (cpu 4 (of_nat k))) = 0" "\<forall>i<k. cache_type (fst (cpu 4 (of_nat i))) \<noteq> 0"
    and "j \<le> k" "k - j < n"
  shows "cache_intel_loop cpu level n (of_nat j) =
    (case find (\<lambda>i. is_data_cache level (fst (cpu 4 (of_nat i)))) [j..<k] of
       None \<Rightarrow> Ret 0
     | Some i \<Rightarrow> (case cpu 4 (of_nat i) of (a, b, c, d) \<Rightarrow> Ret (cache_bytes b c)))"
  using assms(3,4)
proof (induction n arbitrary: j)
  case (Suc n)
  obtain a b c d where r: "cpu 4 (of_nat j) = (a, b, c, d)" by (cases "cpu 4 (of_nat j)") auto
  show ?case
  proof (cases "j = k")
    case True
    with assms(1) r show ?thesis by simp
  next
    case False
    with Suc.prems have j: "j < k" "[j..<k] = j # [Suc j..<k]" by (auto simp: upt_conv_Cons)
    then have "cache_type a \<noteq> 0" using assms(2) r by force
    moreover have "(of_nat j + 1 :: u64) = of_nat (Suc j)" by simp
    ultimately show ?thesis using Suc.IH [of "Suc j"] Suc.prems j r
      by (simp add: add.commute [of 1])
  qed
qed simp

text \<open>On an Intel processor whose leaves of \<^verbatim>\<open>cpuid(4)\<close> end with one of type 0, \<open>cache_size\<close>
  returns the size of the first data or unified cache of the level asked for, and 0 when there is none.\<close>

theorem cache_size_first_leaf:
  assumes "cpu 0 0 = (a0, 0x756e6547, 0x6c65746e, 0x49656e69)"
    and "cache_type (fst (cpu 4 (of_nat k))) = 0" "\<forall>i<k. cache_type (fst (cpu 4 (of_nat i))) \<noteq> 0" "k < fuel"
  shows "cache_size cpu fuel level =
    (case find (\<lambda>i. is_data_cache level (fst (cpu 4 (of_nat i)))) [0..<k] of
       None \<Rightarrow> Ret 0
     | Some i \<Rightarrow> (case cpu 4 (of_nat i) of (a, b, c, d) \<Rightarrow> Ret (cache_bytes b c)))"
proof -
  have v: "vendor_chars 0x756e6547 @ vendor_chars 0x49656e69 @ vendor_chars 0x6c65746e @ [NUL] = ''GenuineIntel'' @ [NUL]"
    by code_simp
  have "cstr (''GenuineIntel'' @ [NUL]) = ''GenuineIntel''" "cstr ''GenuineIntel'' = ''GenuineIntel''"
    by code_simp+
  then have "astrcmp (''GenuineIntel'' @ [NUL]) ''GenuineIntel'' = 0" by (simp only: astrcmp_def char_cmp_refl)
  then have "cache_size cpu fuel level = cache_intel_loop cpu level fuel 0"
    unfolding cache_size_def assms(1) prod.case v Let_def by (simp add: cache_size_intel_def)
  with cache_intel_loop_spec [where cpu = cpu and k = k and j = 0 and n = fuel and level = level, OF assms(2,3)] assms(4)
  show ?thesis by simp
qed

definition one_cache :: cpuid where
  "one_cache f r = (if f = 0 then (4, 0x756e6547, 0x6c65746e, 0x49656e69)
     else if r = 0 then (0x21, 0x1c0003f, 0x3f, 0) else (0, 0, 0, 0))"

theorem cache_size_first_leaf_witness:
  "cache_size one_cache 2 ckLEVEL_1 =
    (case find (\<lambda>i. is_data_cache ckLEVEL_1 (fst (one_cache 4 (of_nat i)))) [0..<1] of
       None \<Rightarrow> Ret 0
     | Some i \<Rightarrow> (case one_cache 4 (of_nat i) of (a, b, c, d) \<Rightarrow> Ret (cache_bytes b c)))"
  by (rule cache_size_first_leaf [of one_cache 4 1]) (simp_all add: one_cache_def cache_type_def)

section \<open>The size is exact\<close>

text \<open>The fields of a leaf have 10, 10, 12 and 32 bits: their product fits unless all of them are at their largest.\<close>

lemma cache_fields:
  "unat (w AND 0x3ff :: u64) < 2 ^ 10" "unat (w AND 0xfff :: u64) < 2 ^ 12"
proof -
  have "w AND 0x3ff = take_bit 10 w" "w AND 0xfff = take_bit 12 w"
    by (simp_all add: take_bit_eq_mask mask_eq_exp_minus_1)
  then show "unat (w AND 0x3ff) < 2 ^ 10" "unat (w AND 0xfff) < 2 ^ 12"
    by (simp_all only: unsigned_take_bit_eq) (simp_all only: take_bit_nat_less_exp)
qed

lemma unat_times: "unat (a * b :: u64) = unat a * unat b" if "unat a * unat b < 2 ^ 64"
  using that by (simp add: unat_word_ariths)

lemma unat_succ: "unat (a + 1 :: u64) = unat a + 1" if "unat a + 1 < 2 ^ 64"
  using that by (simp add: unat_word_ariths)

lemma cache_bytes_exact:
  assumes "cpuid_asm instr f r = (a, b, c, d)" "c \<noteq> 0xffffffff"
  shows "unat (cache_bytes b c) =
    (unat (shr b 22 AND 0x3ff) + 1) * (unat (shr b 12 AND 0x3ff) + 1) * (unat (b AND 0xfff) + 1) * (unat c + 1)"
proof -
  define x where "x = shr b 22 AND 0x3ff"
  define y where "y = shr b 12 AND 0x3ff"
  define z where "z = b AND 0xfff"
  obtain v :: u32 where v: "c = ucast v" using assms(1) by (auto simp: cpuid_asm_def split: prod.splits)
  have "unat c \<le> unat v" unfolding v by (simp add: unsigned_ucast_eq)
  moreover have "unat v < 2 ^ 32" using unsigned_less [of v] by simp
  ultimately have "unat c < 2 ^ 32" by (rule order.strict_trans1)
  moreover have "unat c \<noteq> 2 ^ 32 - 1" using assms(2) by (simp add: word_unat_eq_iff)
  ultimately have c: "unat (c + 1) = unat c + 1" "unat c + 1 \<le> 2 ^ 32 - 1" by (simp_all add: unat_succ)
  have x: "unat (x + 1) = unat x + 1" "unat x + 1 \<le> 2 ^ 10"
    and y: "unat (y + 1) = unat y + 1" "unat y + 1 \<le> 2 ^ 10"
    and z: "unat (z + 1) = unat z + 1" "unat z + 1 \<le> 2 ^ 12"
    using cache_fields(1) [of "shr b 22"] cache_fields(1) [of "shr b 12"] cache_fields(2) [of b]
    by (simp_all add: x_def y_def z_def unat_succ)
  have xy: "(unat x + 1) * (unat y + 1) \<le> 2 ^ 20" using mult_mono [OF x(2) y(2)] by simp
  have xyz: "(unat x + 1) * (unat y + 1) * (unat z + 1) \<le> 2 ^ 32" using mult_mono [OF xy z(2)] by simp
  have all: "(unat x + 1) * (unat y + 1) * (unat z + 1) * (unat c + 1) \<le> 2 ^ 32 * (2 ^ 32 - 1)"
    using mult_mono [OF xyz c(2)] by simp
  have 1: "unat ((x + 1) * (y + 1)) = (unat x + 1) * (unat y + 1)"
    using xy x y by (subst unat_times) simp_all
  have 2: "unat ((x + 1) * (y + 1) * (z + 1)) = (unat x + 1) * (unat y + 1) * (unat z + 1)"
    using xyz 1 z by (subst unat_times) simp_all
  have "unat ((x + 1) * (y + 1) * (z + 1) * (c + 1)) = (unat x + 1) * (unat y + 1) * (unat z + 1) * (unat c + 1)"
    using all 2 c by (subst unat_times) simp_all
  then show ?thesis by (simp only: cache_bytes_def Let_def x_def y_def z_def)
qed

end
