(* ===== verification/Utilities.thy ===== *)
theory Utilities
  imports Path_Name
begin

text \<open>
  Two small classes that own a resource: the template \<open>Buffer\<close> of \<^verbatim>\<open>include/ckcore/buffer.hh\<close>
  and \<open>DynamicLibrary\<close> of \<^verbatim>\<open>src/dynlib.cc\<close>. The heap and the loader are states of which the
  theorems follow what is allocated and what is loaded.
\<close>

section \<open>Buffer\<close>

text \<open>The heap: the arrays that have been allocated and not been deleted.\<close>

record 't buffer_heap =
  bh_arrays :: "nat \<Rightarrow> 't list option"
  bh_next :: nat

record buffer =
  buf_size :: nat
  buf_ptr :: "nat option"

definition DEFAULT_BUFFER_SIZE :: nat where "DEFAULT_BUFFER_SIZE = 4096"

definition new_array :: "'t \<Rightarrow> nat \<Rightarrow> 't buffer_heap \<Rightarrow> nat \<times> 't buffer_heap" where
  "new_array x n h = (bh_next h, h\<lparr>bh_arrays := (bh_arrays h)(bh_next h \<mapsto> replicate n x), bh_next := bh_next h + 1\<rparr>)"

definition delete_array :: "nat \<Rightarrow> 't buffer_heap \<Rightarrow> 't buffer_heap outcome" where
  "delete_array p h = (if bh_arrays h p = None then Undef else Ret (h\<lparr>bh_arrays := (bh_arrays h)(p := None)\<rparr>))"

definition Buffer :: "'t \<Rightarrow> nat \<Rightarrow> 't buffer_heap \<Rightarrow> buffer \<times> 't buffer_heap" where
  "Buffer x n h = (case new_array x n h of (p, h') \<Rightarrow> (\<lparr>buf_size = n, buf_ptr = Some p\<rparr>, h'))"

definition Buffer_default :: "'t \<Rightarrow> 't buffer_heap \<Rightarrow> buffer \<times> 't buffer_heap" where
  "Buffer_default x h = Buffer x DEFAULT_BUFFER_SIZE h"

definition delete_buffer :: "buffer \<Rightarrow> 't buffer_heap \<Rightarrow> 't buffer_heap outcome" where
  "delete_buffer b h = (case buf_ptr b of None \<Rightarrow> Ret h | Some p \<Rightarrow> delete_array p h)"

definition buffer_destroy :: "buffer \<Rightarrow> 't buffer_heap \<Rightarrow> (buffer \<times> 't buffer_heap) outcome" where
  "buffer_destroy b h = obind (delete_buffer b h) (\<lambda>h'. Ret (b\<lparr>buf_ptr := None\<rparr>, h'))"

definition buffer_resize :: "'t \<Rightarrow> nat \<Rightarrow> buffer \<Rightarrow> 't buffer_heap \<Rightarrow> (buffer \<times> 't buffer_heap) outcome" where
  "buffer_resize x n b h = obind (delete_buffer b h) (\<lambda>h1. case new_array x n h1 of (p, h2) \<Rightarrow>
     Ret (b\<lparr>buf_size := n, buf_ptr := Some p\<rparr>, h2))"

definition buffer_size :: "buffer \<Rightarrow> nat" where
  "buffer_size b = buf_size b"

definition buffer_data :: "buffer \<Rightarrow> 't buffer_heap \<Rightarrow> 't list option" where
  "buffer_data b h = Option.bind (buf_ptr b) (bh_arrays h)"

text \<open>A buffer owns an array of its size; the heap gives fresh addresses.\<close>

definition owns :: "buffer \<Rightarrow> 't buffer_heap \<Rightarrow> bool" where
  "owns b h \<longleftrightarrow> (\<exists>xs. buffer_data b h = Some xs \<and> length xs = buffer_size b) \<and> (\<forall>p\<ge>bh_next h. bh_arrays h p = None)"

lemma Buffer_owns: "\<forall>p\<ge>bh_next h. bh_arrays h p = None \<Longrightarrow> Buffer x n h = (b, h') \<Longrightarrow> owns b h' \<and> buffer_size b = n"
  by (auto simp: Buffer_def new_array_def owns_def buffer_data_def buffer_size_def)

lemma buffer_resize_owns:
  assumes "owns b h"
  shows "\<exists>b' h'. buffer_resize x n b h = Ret (b', h') \<and> owns b' h' \<and> buffer_size b' = n \<and>
    card (dom (bh_arrays h')) = card (dom (bh_arrays h))"
proof -
  obtain p xs where p: "buf_ptr b = Some p" "bh_arrays h p = Some xs" "length xs = buf_size b"
    "\<forall>q\<ge>bh_next h. bh_arrays h q = None"
    using assms by (auto simp: owns_def buffer_data_def buffer_size_def bind_eq_Some_conv)
  let ?h = "h\<lparr>bh_arrays := (bh_arrays h)(p := None, bh_next h \<mapsto> replicate n x), bh_next := bh_next h + 1\<rparr>"
  have r: "buffer_resize x n b h = Ret (b\<lparr>buf_size := n, buf_ptr := Some (bh_next h)\<rparr>, ?h)"
    using p by (simp add: buffer_resize_def delete_buffer_def delete_array_def new_array_def)
  have "dom (bh_arrays ?h) = insert (bh_next h) (dom (bh_arrays h) - {p})" using p by auto
  moreover have "finite (dom (bh_arrays h))"
    by (rule finite_subset [of _ "{..<bh_next h}"]) (use p(4) in \<open>auto simp: not_le [symmetric]\<close>)
  moreover have "bh_next h \<notin> dom (bh_arrays h)" "p \<in> dom (bh_arrays h)" using p by auto
  ultimately have "card (dom (bh_arrays ?h)) = card (dom (bh_arrays h))"
    using card_Suc_Diff1 [of "dom (bh_arrays h)" p] by (simp del: fun_upd_apply card_Diff_insert card_Diff_singleton)
  with r p show ?thesis by (auto simp: owns_def buffer_data_def buffer_size_def)
qed

lemma buffer_destroy_frees:
  assumes "owns b h"
  shows "\<exists>b' h'. buffer_destroy b h = Ret (b', h') \<and> buf_ptr b' = None \<and>
    dom (bh_arrays h') = dom (bh_arrays h) - {the (buf_ptr b)}"
  using assms
  by (auto simp: owns_def buffer_data_def buffer_destroy_def delete_buffer_def delete_array_def bind_eq_Some_conv)

text \<open>The template \<open>AutoArray\<close> of \<^verbatim>\<open>include/ckcore/memory.hh\<close> deletes the array it was given.\<close>

record auto_array =
  aa_ptr :: "nat option"

definition AutoArray :: "nat option \<Rightarrow> auto_array" where
  "AutoArray p = \<lparr>aa_ptr = p\<rparr>"

definition auto_array_destroy :: "auto_array \<Rightarrow> 't buffer_heap \<Rightarrow> (auto_array \<times> 't buffer_heap) outcome" where
  "auto_array_destroy a h = (case aa_ptr a of None \<Rightarrow> Ret (a, h)
     | Some p \<Rightarrow> obind (delete_array p h) (\<lambda>h'. Ret (a\<lparr>aa_ptr := None\<rparr>, h')))"

lemma auto_array_scope: "bh_arrays h (bh_next h) = None \<Longrightarrow> new_array x n h = (p, h1) \<Longrightarrow>
    \<exists>a h2. auto_array_destroy (AutoArray (Some p)) h1 = Ret (a, h2) \<and> bh_arrays h2 = bh_arrays h"
  by (auto simp: new_array_def AutoArray_def auto_array_destroy_def delete_array_def)

section \<open>DynamicLibrary\<close>

text \<open>\<open>dl_open\<close> answers the handle, \<open>dl_close\<close> whether it succeeds (not -1, not \<^verbatim>\<open>FALSE\<close>).\<close>

record 'w loader =
  dl_open :: "string \<Rightarrow> 'w \<Rightarrow> nat option \<times> 'w"
  dl_close :: "nat \<Rightarrow> 'w \<Rightarrow> bool \<times> 'w"
  dl_sym :: "nat \<Rightarrow> string \<Rightarrow> 'w \<Rightarrow> nat option"

record dynamic_library =
  lib_path :: path
  lib_handle :: "nat option"

definition DynamicLibrary :: "path \<Rightarrow> dynamic_library" where
  "DynamicLibrary p = \<lparr>lib_path = p, lib_handle = None\<rparr>"

text \<open>The destructor leaves the library loaded.\<close>

definition library_destroy :: "dynamic_library \<Rightarrow> 'w \<Rightarrow> 'w" where
  "library_destroy l w = w"

definition library_open :: "'w loader \<Rightarrow> dynamic_library \<Rightarrow> 'w \<Rightarrow> bool \<times> dynamic_library \<times> 'w" where
  "library_open U l w = (if lib_handle l \<noteq> None then (False, l, w)
     else case dl_open U (path_name (lib_path l)) w of (h, w') \<Rightarrow> (h \<noteq> None, l\<lparr>lib_handle := h\<rparr>, w'))"

definition library_close :: "'w loader \<Rightarrow> dynamic_library \<Rightarrow> 'w \<Rightarrow> bool \<times> dynamic_library \<times> 'w" where
  "library_close U l w = (case lib_handle l of None \<Rightarrow> (False, l, w)
     | Some h \<Rightarrow> (case dl_close U h w of (ok, w') \<Rightarrow> if \<not> ok then (False, l, w') else (True, l\<lparr>lib_handle := None\<rparr>, w')))"

definition library_test :: "dynamic_library \<Rightarrow> bool" where
  "library_test l \<longleftrightarrow> lib_handle l \<noteq> None"

definition library_symbol :: "'w loader \<Rightarrow> string \<Rightarrow> dynamic_library \<Rightarrow> 'w \<Rightarrow> nat option" where
  "library_symbol U symbol_name l w = (case lib_handle l of None \<Rightarrow> None | Some h \<Rightarrow> dl_sym U h symbol_name w)"

definition library_path :: "dynamic_library \<Rightarrow> path" where
  "library_path l = lib_path l"

text \<open>The answer of \<open>open\<close> and \<open>close\<close> says whether the library has changed between closed and open.\<close>

lemma library_open_test: "library_open U l w = (ok, l', w') \<Longrightarrow>
    (ok \<longrightarrow> \<not> library_test l \<and> library_test l') \<and> (\<not> ok \<longrightarrow> library_test l' = library_test l)"
  by (auto simp: library_open_def library_test_def split: if_splits prod.splits)

lemma library_close_test: "library_close U l w = (ok, l', w') \<Longrightarrow>
    (ok \<longrightarrow> library_test l \<and> \<not> library_test l') \<and> (\<not> ok \<longrightarrow> l' = l)"
  by (auto simp: library_close_def library_test_def split: option.splits if_splits prod.splits)

end
