(* ===== verification/Windows_Directory.thy ===== *)
theory Windows_Directory
  imports Windows_File Unix_Directory
begin

text \<open>
  The class \<open>Directory\<close> and its iterator on Windows (\<^verbatim>\<open>src/windows/directory.cc\<close>). The first entry comes
  with the handle, so the iterator keeps its entry and a flag for the end. \<^verbatim>\<open>lstrcmp\<close> is taken for
  \<^verbatim>\<open>strcmp\<close>.
\<close>

section \<open>The calls of the system\<close>

record 'w win_dir_os =
  wd_file :: "'w win_os"
  wd_create_dir :: "string \<Rightarrow> 'w \<Rightarrow> bool \<times> 'w"
  wd_remove_dir :: "string \<Rightarrow> 'w \<Rightarrow> bool \<times> 'w"
  wd_attributes_ex :: "string \<Rightarrow> 'w \<Rightarrow> (filetime \<times> filetime \<times> filetime) option \<times> 'w"   \<comment> \<open>created, accessed, modified\<close>
  wd_find_first :: "string \<Rightarrow> 'w \<Rightarrow> (int \<times> string) option \<times> 'w"   \<comment> \<open>\<open>None\<close> for \<^verbatim>\<open>INVALID_HANDLE_VALUE\<close>\<close>
  wd_find_next :: "int \<Rightarrow> 'w \<Rightarrow> string option \<times> 'w"
  wd_find_close :: "int \<Rightarrow> 'w \<Rightarrow> 'w"

section \<open>The iterator\<close>

record win_dir_iterator =
  wi_handle :: int
  wi_ent :: "string option"   \<comment> \<open>\<open>None\<close>: not initialised\<close>
  wi_at_end :: bool

record win_directory =
  wd_path :: path
  wd_handles :: "nat \<Rightarrow> int option"

definition win_Directory :: "path \<Rightarrow> win_directory" where
  "win_Directory p = \<lparr>wd_path = p, wd_handles = (\<lambda>_. None)\<rparr>"

definition win_directory_name :: "win_directory \<Rightarrow> string" where
  "win_directory_name d = path_name (wd_path d)"

text \<open>At the end the entry stays the last one.\<close>

fun win_next :: "'w win_dir_os \<Rightarrow> nat \<Rightarrow> win_dir_iterator \<Rightarrow> 'w \<Rightarrow> (win_dir_iterator \<times> 'w) outcome" where
  "win_next U 0 it w = Fuel"
| "win_next U (Suc n) it w = (case wd_find_next U (wi_handle it) w of
       (None, w') \<Rightarrow> Ret (it\<lparr>wi_at_end := True\<rparr>, w')
     | (Some e, w') \<Rightarrow> if \<not> is_dot e then Ret (it\<lparr>wi_at_end := False, wi_ent := Some e\<rparr>, w')
         else win_next U n (it\<lparr>wi_at_end := False, wi_ent := Some e\<rparr>) w')"

definition WinDirIterator_default :: win_dir_iterator where
  "WinDirIterator_default = \<lparr>wi_handle = INVALID_HANDLE_VALUE, wi_ent = None, wi_at_end = True\<rparr>"

text \<open>The search pattern: the last character of an empty path is outside of it.\<close>

definition find_pattern :: "string \<Rightarrow> string outcome" where
  "find_pattern p = (if p = [] then Undef
     else Ret ((if last p \<noteq> CHR 47 \<and> last p \<noteq> CHR 92 then p @ ''/'' else p) @ ''*''))"

definition win_find :: "'w win_dir_os \<Rightarrow> nat \<Rightarrow> win_directory \<Rightarrow> 'w \<Rightarrow> (win_dir_iterator \<times> win_directory \<times> 'w) outcome" where
  "win_find U a d w = (case wd_handles d a of
       Some h \<Rightarrow> Ret (\<lparr>wi_handle = h, wi_ent = None, wi_at_end = False\<rparr>, d, w)
     | None \<Rightarrow> obind (find_pattern (win_directory_name d)) (\<lambda>pat. case wd_find_first U pat w of (r, w') \<Rightarrow>
         let h = (case r of None \<Rightarrow> INVALID_HANDLE_VALUE | Some (h, e) \<Rightarrow> h)
         in Ret (\<lparr>wi_handle = h, wi_ent = map_option snd r, wi_at_end = False\<rparr>, d\<lparr>wd_handles := (wd_handles d)(a \<mapsto> h)\<rparr>, w')))"

text \<open>The iterator made at the address \<open>a\<close>; with a handle from the map its entry is read uninitialised.\<close>

definition WinDirIterator :: "'w win_dir_os \<Rightarrow> nat \<Rightarrow> nat \<Rightarrow> win_directory \<Rightarrow> 'w \<Rightarrow> (win_dir_iterator \<times> win_directory \<times> 'w) outcome" where
  "WinDirIterator U n a d w = obind (win_find U a d w) (\<lambda>(it, d', w').
     if wi_handle it = INVALID_HANDLE_VALUE then Ret (it\<lparr>wi_at_end := True\<rparr>, d', w')
     else case wi_ent it of None \<Rightarrow> Undef
     | Some e \<Rightarrow> if is_dot e then obind (win_next U n it w') (\<lambda>(it', w''). Ret (it', d', w'')) else Ret (it, d', w'))"

definition win_deref :: "win_dir_iterator \<Rightarrow> string outcome" where
  "win_deref it = (if wi_at_end it then Ret ''NULL'' else case wi_ent it of None \<Rightarrow> Undef | Some e \<Rightarrow> Ret e)"

definition win_incr :: "'w win_dir_os \<Rightarrow> nat \<Rightarrow> win_dir_iterator \<Rightarrow> 'w \<Rightarrow> (win_dir_iterator \<times> 'w) outcome" where
  "win_incr U n it w = (if \<not> wi_at_end it then win_next U n it w else Ret (it, w))"

definition win_postincr :: "'w win_dir_os \<Rightarrow> nat \<Rightarrow> win_dir_iterator \<Rightarrow> 'w \<Rightarrow> (win_dir_iterator \<times> 'w) outcome" where
  "win_postincr U n it w = (if \<not> wi_at_end it then win_next U n it w else Ret (it, w))"

definition win_eq :: "win_dir_iterator \<Rightarrow> win_dir_iterator \<Rightarrow> bool outcome" where
  "win_eq a b =
     (if wi_at_end a \<and> wi_at_end b then Ret True
      else if wi_at_end a \<noteq> wi_at_end b then Ret False
      else case (wi_ent a, wi_ent b) of (Some x, Some y) \<Rightarrow> Ret (astrcmp x y = 0) | _ \<Rightarrow> Undef)"

definition win_neq :: "win_dir_iterator \<Rightarrow> win_dir_iterator \<Rightarrow> bool outcome" where
  "win_neq a b = obind (win_eq a b) (\<lambda>r. Ret (\<not> r))"

section \<open>The directory\<close>

definition win_dir_begin :: "'w win_dir_os \<Rightarrow> nat \<Rightarrow> nat \<Rightarrow> win_directory \<Rightarrow> 'w \<Rightarrow> (win_dir_iterator \<times> win_directory \<times> 'w) outcome" where
  "win_dir_begin U n a d w = WinDirIterator U n a d w"

definition win_dir_end :: win_dir_iterator where
  "win_dir_end = WinDirIterator_default"

text \<open>\<^verbatim>\<open>FindClose\<close> answers an error for an invalid handle, which is ignored.\<close>

definition win_directory_destroy :: "'w win_dir_os \<Rightarrow> nat list \<Rightarrow> win_directory \<Rightarrow> 'w \<Rightarrow> win_directory \<times> 'w" where
  "win_directory_destroy U addresses d w = (d\<lparr>wd_handles := (\<lambda>_. None)\<rparr>,
     fold (\<lambda>a w. case wd_handles d a of None \<Rightarrow> w | Some h \<Rightarrow> wd_find_close U h w) addresses w)"

definition win_dir_exist_static :: "'w win_dir_os \<Rightarrow> path \<Rightarrow> 'w \<Rightarrow> bool \<times> 'w" where
  "win_dir_exist_static U p w = (case wn_attributes (wd_file U) (path_name p) w of (attr, w') \<Rightarrow>
     (attr \<noteq> -1 \<and> attr AND FILE_ATTRIBUTE_DIRECTORY \<noteq> 0, w'))"

definition win_dir_remove_static :: "'w win_dir_os \<Rightarrow> path \<Rightarrow> 'w \<Rightarrow> bool \<times> 'w" where
  "win_dir_remove_static U p w = wd_remove_dir U (path_name p) w"

text \<open>No conversion to local time is made here.\<close>

definition win_dir_tms_of :: "'w win_os \<Rightarrow> 'w \<Rightarrow> (filetime \<times> filetime \<times> filetime) \<Rightarrow> tm \<times> tm \<times> tm \<Rightarrow> bool \<times> (tm \<times> tm \<times> tm)" where
  "win_dir_tms_of U w fts ts = (case fts of (create, access, modify) \<Rightarrow>
     case wn_system_time U access of None \<Rightarrow> (False, ts) | Some sa \<Rightarrow>
     case wn_system_time U modify of None \<Rightarrow> (False, ts) | Some sm \<Rightarrow>
     case wn_system_time U create of None \<Rightarrow> (False, ts) | Some sc \<Rightarrow>
       (True, (SysTimeToTm (wn_time_zone U w) sa, SysTimeToTm (wn_time_zone U w) sm, SysTimeToTm (wn_time_zone U w) sc)))"

definition win_dir_time_static :: "'w win_dir_os \<Rightarrow> path \<Rightarrow> tm \<times> tm \<times> tm \<Rightarrow> 'w \<Rightarrow> (bool \<times> (tm \<times> tm \<times> tm)) \<times> 'w" where
  "win_dir_time_static U p ts w = (case wd_attributes_ex U (path_name p) w of
       (None, w') \<Rightarrow> ((False, ts), w') | (Some fts, w') \<Rightarrow> (win_dir_tms_of (wd_file U) w' fts ts, w'))"

definition win_dir_time :: "'w win_dir_os \<Rightarrow> win_directory \<Rightarrow> tm \<times> tm \<times> tm \<Rightarrow> 'w \<Rightarrow> (bool \<times> (tm \<times> tm \<times> tm)) \<times> 'w" where
  "win_dir_time U d ts w = win_dir_time_static U (wd_path d) ts w"

text \<open>The path built up starts empty, also for a path with a root.\<close>

fun win_create_loop :: "'w win_dir_os \<Rightarrow> nat \<Rightarrow> path_iterator \<Rightarrow> string \<Rightarrow> 'w \<Rightarrow> (bool \<times> 'w) outcome" where
  "win_create_loop U 0 it cur w = Fuel"
| "win_create_loop U (Suc n) it cur w = obind (iterator_neq it path_end) (\<lambda>more.
     if \<not> more then Ret (True, w)
     else obind (iterator_deref it) (\<lambda>c.
       let cur' = cur @ c @ ''/'' in
       case win_dir_exist_static U cur' w of (ex, w1) \<Rightarrow>
       case (if ex then (True, w1) else wd_create_dir U cur' w1) of (ok, w2) \<Rightarrow>
         if \<not> ok then Ret (False, w2)
         else obind (iterator_postincr True it) (\<lambda>it'. win_create_loop U n it' cur' w2)))"

definition win_dir_create_static :: "'w win_dir_os \<Rightarrow> path \<Rightarrow> 'w \<Rightarrow> (bool \<times> 'w) outcome" where
  "win_dir_create_static U p w = obind (path_begin True p) (\<lambda>it. win_create_loop U (length p + 2) it [] w)"

definition win_dir_create :: "'w win_dir_os \<Rightarrow> win_directory \<Rightarrow> 'w \<Rightarrow> (bool \<times> 'w) outcome" where
  "win_dir_create U d w = win_dir_create_static U (wd_path d) w"

definition win_dir_remove :: "'w win_dir_os \<Rightarrow> win_directory \<Rightarrow> 'w \<Rightarrow> bool \<times> 'w" where
  "win_dir_remove U d w = wd_remove_dir U (path_name (wd_path d)) w"

definition win_dir_exist :: "'w win_dir_os \<Rightarrow> win_directory \<Rightarrow> 'w \<Rightarrow> bool \<times> 'w" where
  "win_dir_exist U d w = win_dir_exist_static U (wd_path d) w"

text \<open>A temporary name: that of the system, or a random one in the buffer of \<^verbatim>\<open>_MAX_PATH\<close> (260) characters.\<close>

definition win_random_name :: "string \<Rightarrow> u32 \<Rightarrow> string outcome" where
  "win_random_name dir r = obind (ui32_to_str2 r (replicate INT_TO_STR_BUFLEN NUL)) (\<lambda>conv.
     let name = dir @ ''file'' @ cstr conv @ ''.tmp'' in if length name < 260 then Ret name else Undef)"

definition win_dir_temp :: "'w win_dir_os \<Rightarrow> u32 \<Rightarrow> 'w \<Rightarrow> win_directory outcome \<times> 'w" where
  "win_dir_temp U r w = (case wn_temp_path (wd_file U) w of (dir_name, w1) \<Rightarrow>
     let dir = (case dir_name of None \<Rightarrow> [] | Some d \<Rightarrow> d) in
     case wn_temp_name (wd_file U) dir ''tmp'' w1 of (tmp_name, w2) \<Rightarrow>
     (case (case tmp_name of Some name \<Rightarrow> Ret name | None \<Rightarrow> win_random_name dir r) of
        Ret name \<Rightarrow> (case win_exist_static (wd_file U) name w2 of (ex, w3) \<Rightarrow>
          (Ret (win_Directory name), if ex then snd (win_remove_static (wd_file U) name w3) else w3))
      | Throw m \<Rightarrow> (Throw m, w2) | Undef \<Rightarrow> (Undef, w2) | Fuel \<Rightarrow> (Fuel, w2)))"

section \<open>What the calls are documented to do\<close>

text \<open>\<open>L w name\<close> are the entries of a directory, \<open>E w h\<close> those a search has still to give.\<close>

definition win_find_files :: "'w win_dir_os \<Rightarrow> ('w \<Rightarrow> string \<Rightarrow> string list option) \<Rightarrow> ('w \<Rightarrow> int \<Rightarrow> string list option) \<Rightarrow> bool" where
  "win_find_files U L E \<longleftrightarrow>
     (\<forall>w name pat es. L w name = Some es \<longrightarrow> find_pattern name = Ret pat \<longrightarrow> (case es of
          [] \<Rightarrow> fst (wd_find_first U pat w) = None
        | e # es' \<Rightarrow> (\<exists>h w'. wd_find_first U pat w = (Some (h, e), w') \<and> h \<noteq> INVALID_HANDLE_VALUE \<and> E w' h = Some es'))) \<and>
     (\<forall>w h es. E w h = Some es \<longrightarrow>
        (\<exists>w'. wd_find_next U h w = (case es of [] \<Rightarrow> None | e # es' \<Rightarrow> Some e, w') \<and> E w' h = Some (tl es)))"

section \<open>Iterating\<close>

definition win_collect :: "'w win_dir_os \<Rightarrow> nat \<Rightarrow> nat \<Rightarrow> win_dir_iterator \<Rightarrow> 'w
    \<Rightarrow> (string list \<times> win_dir_iterator \<times> 'w) outcome" where
  "win_collect U m n it w = iterate (\<lambda>it. win_neq it win_dir_end) win_deref (win_incr U m) n it w"

lemma win_neq_end: "win_neq it win_dir_end = Ret (\<not> wi_at_end it)"
  by (simp add: win_neq_def win_eq_def win_dir_end_def WinDirIterator_default_def)

text \<open>The iterator stands on the first of the entries \<open>es\<close> to come and the search has less than \<open>k\<close>
  others to give; or there is none, and it is at the end.\<close>

definition stands_on :: "('w \<Rightarrow> int \<Rightarrow> string list option) \<Rightarrow> nat \<Rightarrow> win_dir_iterator \<Rightarrow> 'w \<Rightarrow> string list \<Rightarrow> bool" where
  "stands_on E k it w es \<longleftrightarrow> (case es of [] \<Rightarrow> wi_at_end it
     | e # es' \<Rightarrow> \<not> wi_at_end it \<and> wi_ent it = Some e \<and>
         (\<exists>rest. E w (wi_handle it) = Some rest \<and> visible rest = es' \<and> length rest < k))"

lemma win_next_spec:
  assumes "win_find_files U L E" "E w (wi_handle it) = Some es" "length es < n"
  shows "\<exists>it' w'. win_next U n it w = Ret (it', w') \<and> stands_on E (length es) it' w' (visible es)"
  using assms(2,3)
proof (induction n arbitrary: it w es)
  case (Suc n)
  obtain w1 where r: "wd_find_next U (wi_handle it) w = (case es of [] \<Rightarrow> None | e # es' \<Rightarrow> Some e, w1)"
    "E w1 (wi_handle it) = Some (tl es)"
    using assms(1) Suc.prems(1) unfolding win_find_files_def by meson
  show ?case
  proof (cases es)
    case Nil
    with r show ?thesis by (simp add: visible_def stands_on_def)
  next
    case (Cons e es')
    let ?it = "it\<lparr>wi_at_end := False, wi_ent := Some e\<rparr>"
    show ?thesis
    proof (cases "is_dot e")
      case True
      have "E w1 (wi_handle ?it) = Some es'" "length es' < n" using r(2) Cons Suc.prems(2) by simp_all
      from Suc.IH [OF this] obtain it' w' where "win_next U n ?it w1 = Ret (it', w')" "stands_on E (length es') it' w' (visible es')"
        by blast
      moreover from this(2) have "stands_on E (length es) it' w' (visible es)"
        using True Cons by (auto simp: stands_on_def visible_def split: list.splits)
      ultimately show ?thesis using True r Cons by auto
    next
      case False
      with r Cons show ?thesis by (simp add: visible_def stands_on_def)
    qed
  qed
qed simp

definition win_ahead :: "'w win_dir_os \<Rightarrow> ('w \<Rightarrow> string \<Rightarrow> string list option) \<Rightarrow> ('w \<Rightarrow> int \<Rightarrow> string list option)
    \<Rightarrow> nat \<Rightarrow> win_dir_iterator \<Rightarrow> 'w \<Rightarrow> string list \<Rightarrow> bool" where
  "win_ahead U L E m it w es \<longleftrightarrow> win_find_files U L E \<and> stands_on E m it w es"

lemma stands_on_mono: "stands_on E k it w es \<Longrightarrow> k \<le> m \<Longrightarrow> stands_on E m it w es"
  by (auto simp: stands_on_def split: list.splits)

interpretation win_iter: iteration "\<lambda>it. win_neq it win_dir_end" win_deref "win_incr U m" "win_ahead U L E m"
  for U L E m
proof
  fix it w e and es :: "string list"
  assume a: "win_ahead U L E m it w (e # es)"
  then show "win_deref it = Ret e" by (simp add: win_ahead_def stands_on_def win_deref_def)
  from a obtain rest where it: "win_find_files U L E" "\<not> wi_at_end it" "E w (wi_handle it) = Some rest"
    "visible rest = es" "length rest < m"
    by (auto simp: win_ahead_def stands_on_def)
  obtain it' w' where "win_next U m it w = Ret (it', w')" "stands_on E (length rest) it' w' es"
    using win_next_spec [OF it(1,3,5)] it(4) by blast
  moreover from this(2) have "stands_on E m it' w' es" using it(5) by (elim stands_on_mono) simp
  ultimately show "\<exists>it' w'. win_incr U m it w = Ret (it', w') \<and> win_ahead U L E m it' w' es"
    using it(1,2) by (auto simp: win_incr_def win_ahead_def)
next
  fix it w and es :: "string list"
  show "win_ahead U L E m it w es \<Longrightarrow> win_neq it win_dir_end = Ret (es \<noteq> [])"
    by (cases es) (auto simp: win_neq_end win_ahead_def stands_on_def)
qed

lemma win_find_first_spec:
  assumes "win_find_files U L E" "L w name = Some es" "find_pattern name = Ret pat"
  shows "case es of [] \<Rightarrow> fst (wd_find_first U pat w) = None
    | e # es' \<Rightarrow> (\<exists>h w'. wd_find_first U pat w = (Some (h, e), w') \<and> h \<noteq> INVALID_HANDLE_VALUE \<and> E w' h = Some es')"
  using assms unfolding win_find_files_def by blast

text \<open>C32: A loop from \<open>begin()\<close> to \<open>end()\<close> sees the entries of the directory but \<^verbatim>\<open>.\<close> and \<^verbatim>\<open>..\<close>. When the
  directory has entries, making a second iterator at the same address reads an entry that was never
  written: only the first one gets the entry that comes with the search handle.\<close>

theorem windows_directory_iteration:
  assumes "win_find_files U L E" "L w (win_directory_name d) = Some es" "win_directory_name d \<noteq> []" "wd_handles d a = None"
    and "length es < n" "\<forall>e\<in>set es. NUL \<notin> set e"
  shows "\<exists>it d' w1 it2 w2. win_dir_begin U n a d w = Ret (it, d', w1) \<and>
    win_collect U n n it w1 = Ret (filter (\<lambda>e. e \<noteq> ''.'' \<and> e \<noteq> ''..'') es, it2, w2) \<and>
    (\<forall>w3. es \<noteq> [] \<longrightarrow> win_dir_begin U n a d' w3 = Undef)"
proof -
  obtain pat where pat: "find_pattern (win_directory_name d) = Ret pat" using assms(3) by (simp add: find_pattern_def)
  have v: "filter (\<lambda>e. e \<noteq> ''.'' \<and> e \<noteq> ''..'') es = visible es"
    unfolding visible_def using assms(6) is_dot_eq by (intro filter_cong) auto
  show ?thesis
  proof (cases es)
    case Nil
    then obtain w1 where "wd_find_first U pat w = (None, w1)"
      using win_find_first_spec [OF assms(1,2) pat] by (cases "wd_find_first U pat w") auto
    with pat assms(4,5) Nil show ?thesis
      by (cases n) (auto simp: win_dir_begin_def WinDirIterator_def win_find_def win_neq_end win_collect_def)
  next
    case (Cons e es')
    obtain h w1 where h: "wd_find_first U pat w = (Some (h, e), w1)" "h \<noteq> INVALID_HANDLE_VALUE" "E w1 h = Some es'"
      using win_find_first_spec [OF assms(1,2) pat] Cons by auto
    define d' where "d' = d\<lparr>wd_handles := (wd_handles d)(a \<mapsto> h)\<rparr>"
    let ?it = "\<lparr>wi_handle = h, wi_ent = Some e, wi_at_end = False\<rparr>"
    have f: "win_find U a d w = Ret (?it, d', w1)" using pat h(1) assms(4) by (simp add: win_find_def d'_def)
    have l: "length es' < n" using assms(5) Cons by simp
    obtain it w2 where b: "win_dir_begin U n a d w = Ret (it, d', w2)" "stands_on E n it w2 (visible es)"
    proof (cases "is_dot e")
      case True
      obtain it w2 where "win_next U n ?it w1 = Ret (it, w2)" "stands_on E (length es') it w2 (visible es')"
        using win_next_spec [OF assms(1), of w1 ?it es' n] h(3) l by auto
      moreover from this(2) have "stands_on E n it w2 (visible es)"
        using True Cons l by (auto simp: stands_on_def visible_def split: list.splits)
      ultimately show thesis using True f h(2) by (intro that [of it w2]) (simp_all add: win_dir_begin_def WinDirIterator_def)
    next
      case False
      then have "stands_on E n ?it w1 (visible es)" using Cons h(3) l by (simp add: stands_on_def visible_def)
      with False f h(2) show thesis by (intro that [of ?it w1]) (simp_all add: win_dir_begin_def WinDirIterator_def)
    qed
    have len: "length (visible es) < n" using assms(5) by (simp add: visible_def order.strict_trans1 [OF length_filter_le])
    have "win_ahead U L E n it w2 (visible es)" using assms(1) b(2) by (simp add: win_ahead_def)
    from win_iter.iterate_all [OF this len] obtain it2 w3 where "win_collect U n n it w2 = Ret (visible es, it2, w3)"
      unfolding win_collect_def by blast
    moreover have "win_dir_begin U n a d' w4 = Undef" for w4
      using h(2) by (simp add: win_dir_begin_def WinDirIterator_def win_find_def d'_def)
    ultimately show ?thesis using b(1) v by auto
  qed
qed

text \<open>A system without files and with one directory for the examples.\<close>

definition one_win_dir_os :: "one_dir win_dir_os" where
  "one_win_dir_os = \<lparr>wd_file = \<lparr>wn_last_error = (\<lambda>w. 2), wn_message = (\<lambda>e. None), wn_create = (\<lambda>n a s d w. (-1, w)),
       wn_close = (\<lambda>h w. (True, w)), wn_set_pointer = (\<lambda>h lo hi m w. ((-1, hi), w)), wn_file_size = (\<lambda>h w. ((-1, 0), w)),
       wn_read = (\<lambda>h n w. (None, w)), wn_write = (\<lambda>h bs w. (None, w)),
       wn_attributes = (\<lambda>n w. (if n \<in> snd w then 0x10 else -1, w)), wn_delete = (\<lambda>n w. (False, w)),
       wn_move = (\<lambda>n m w. (False, w)), wn_file_time = (\<lambda>h w. (None, w)), wn_local_time = (\<lambda>t. None),
       wn_system_time = (\<lambda>t. None), wn_time_zone = (\<lambda>w. 1), wn_temp_path = (\<lambda>w. (None, w)), wn_temp_name = (\<lambda>d p w. (None, w))\<rparr>,
     wd_create_dir = (\<lambda>n w. (True, (fst w, insert n (snd w)))), wd_remove_dir = (\<lambda>n w. (True, w)),
     wd_attributes_ex = (\<lambda>n w. (None, w)),
     wd_find_first = (\<lambda>n w. case fst w of [] \<Rightarrow> (None, w) | e # es \<Rightarrow> (Some (3, e), (es, snd w))),
     wd_find_next = (\<lambda>h w. case fst w of [] \<Rightarrow> (None, w) | e # es \<Rightarrow> if h = 3 then (Some e, (es, snd w)) else (None, w)),
     wd_find_close = (\<lambda>h w. w)\<rparr>"

lemma one_win_find_files: "win_find_files one_win_dir_os one_dir_list one_dir_rest"
  by (auto simp: win_find_files_def one_win_dir_os_def one_dir_list_def one_dir_rest_def INVALID_HANDLE_VALUE_def
      split: list.splits if_splits)

theorem windows_directory_iteration_witness:
  "\<exists>it d' w1 it2 w2. win_dir_begin one_win_dir_os 9 5 (win_Directory ''d'') ([''.'', ''a'', ''..'', ''b''], {}) = Ret (it, d', w1) \<and>
    win_collect one_win_dir_os 9 9 it w1 = Ret (filter (\<lambda>e. e \<noteq> ''.'' \<and> e \<noteq> ''..'') [''.'', ''a'', ''..'', ''b''], it2, w2) \<and>
    (\<forall>w3. [''.'', ''a'', ''..'', ''b''] \<noteq> [] \<longrightarrow> win_dir_begin one_win_dir_os 9 5 d' w3 = Undef)"
  by (rule windows_directory_iteration [OF one_win_find_files])
    (auto simp: one_dir_list_def win_Directory_def win_directory_name_def path_name_def NUL_def)

text \<open>The root of a path is lost: \<^verbatim>\<open>/a/b\<close> is created as \<^verbatim>\<open>a/b\<close>, in the current directory.\<close>

lemma win_create_loses_root:
  "win_dir_create one_win_dir_os (win_Directory ''/a/b'') ([], {}) = Ret (True, ([], {''a/'', ''a/b/''}))"
  by code_simp

end
