(* ===== verification/Windows_Thread.thy ===== *)
theory Windows_Thread
  imports Locker
begin

text \<open>
  The thread classes of \<^verbatim>\<open>src/windows/thread.cc\<close>. A mutex of the system can be locked again by the
  thread that holds it; the wait condition is built from a semaphore, an event and a count of waiters
  kept under a critical section. The code between two points where a thread can block is one step.
\<close>

section \<open>Mutex\<close>

record win_mutex =
  wm_handle :: bool   \<comment> \<open>the mutex could be created\<close>
  wm_owner :: "(nat \<times> nat) option"   \<comment> \<open>the thread that holds it, and how often\<close>

definition win_Mutex :: "bool \<Rightarrow> win_mutex" where
  "win_Mutex created = \<lparr>wm_handle = created, wm_owner = None\<rparr>"

definition win_mutex_destroy :: "win_mutex \<Rightarrow> win_mutex" where
  "win_mutex_destroy m = (if wm_handle m then m\<lparr>wm_handle := False\<rparr> else m)"

definition win_mutex_lock :: "nat \<Rightarrow> win_mutex \<Rightarrow> (bool \<times> win_mutex) outcome" where
  "win_mutex_lock self m =
     (if \<not> wm_handle m then Ret (False, m)
      else case wm_owner m of
          None \<Rightarrow> Ret (True, m\<lparr>wm_owner := Some (self, 1)\<rparr>)
        | Some (t, n) \<Rightarrow> if t = self then Ret (True, m\<lparr>wm_owner := Some (self, n + 1)\<rparr>) else Fuel)"

definition win_mutex_unlock :: "nat \<Rightarrow> win_mutex \<Rightarrow> (bool \<times> win_mutex) outcome" where
  "win_mutex_unlock self m =
     (if \<not> wm_handle m then Ret (False, m)
      else case wm_owner m of
          None \<Rightarrow> Ret (False, m)
        | Some (t, n) \<Rightarrow> if t = self then Ret (True, m\<lparr>wm_owner := (if n = 1 then None else Some (self, n - 1))\<rparr>)
            else Ret (False, m))"

definition win_mutex_try_lock :: "nat \<Rightarrow> win_mutex \<Rightarrow> bool \<times> win_mutex" where
  "win_mutex_try_lock self m =
     (if \<not> wm_handle m then (False, m)
      else case wm_owner m of
          None \<Rightarrow> (True, m\<lparr>wm_owner := Some (self, 1)\<rparr>)
        | Some (t, n) \<Rightarrow> if t = self then (True, m\<lparr>wm_owner := Some (self, n + 1)\<rparr>) else (False, m))"

definition win_mutex_ops :: "nat \<Rightarrow> win_mutex lockable_ops" where
  "win_mutex_ops self = \<lparr>lk_lock = win_mutex_lock self, lk_unlock = win_mutex_unlock self\<rparr>"

text \<open>A mutex without a handle, never created or destroyed, refuses every operation and never blocks.\<close>

lemma win_mutex_refuses:
  "\<exists>m'. win_mutex_destroy m = m' \<and> win_mutex_lock self m' = Ret (False, m') \<and>
    win_mutex_unlock self m' = Ret (False, m') \<and> win_mutex_try_lock self m' = (False, m')"
  by (simp add: win_mutex_destroy_def win_mutex_lock_def win_mutex_unlock_def win_mutex_try_lock_def)

interpretation win_mutex: lockable "win_mutex_ops self" "\<lambda>m. wm_handle m \<and> wm_owner m = None"
    "\<lambda>m. wm_handle m \<and> wm_owner m = Some (self, 1)" for self
  by unfold_locales (auto simp: win_mutex_ops_def win_mutex_lock_def win_mutex_unlock_def)

lemma win_locker_scope_releases:
  "\<exists>m. locker_scope (win_mutex_ops self) calls (win_Mutex True) = Ret (locker_answers True calls, m) \<and> wm_owner m = None"
  using win_mutex.scope_frees [of "win_Mutex True" self calls] by (auto simp: win_Mutex_def)

section \<open>WaitCondition\<close>

record win_condition =
  cv_broadcast :: bool
  cv_waiters :: u32
  cv_sema :: nat    \<comment> \<open>the count of the semaphore\<close>
  cv_done :: bool   \<comment> \<open>the event \<open>waiters_done_\<close>, reset by a wait for it\<close>

definition win_WaitCondition :: win_condition where
  "win_WaitCondition = \<lparr>cv_broadcast = False, cv_waiters = 0, cv_sema = 0, cv_done = False\<rparr>"

text \<open>\<^verbatim>\<open>ReleaseSemaphore\<close> fails above the maximum of the semaphore and then changes nothing.\<close>

definition SEMA_MAX :: nat where "SEMA_MAX = 0x7fffffff"

definition release_semaphore :: "nat \<Rightarrow> win_condition \<Rightarrow> win_condition" where
  "release_semaphore n c = (if cv_sema c + n \<le> SEMA_MAX then c\<lparr>cv_sema := cv_sema c + n\<rparr> else c)"

text \<open>\<open>wait\<close>: up to the blocking call, back from it with an error or a time-out, and back with the semaphore.\<close>

definition win_wait_enter :: "win_condition \<Rightarrow> win_condition" where
  "win_wait_enter c = c\<lparr>cv_waiters := cv_waiters c + 1\<rparr>"

definition win_wait_expired :: "win_condition \<Rightarrow> win_condition" where
  "win_wait_expired c = c\<lparr>cv_waiters := cv_waiters c - 1\<rparr>"

definition win_wait_woken :: "win_condition \<Rightarrow> bool \<times> win_condition" where
  "win_wait_woken c = (let c' = c\<lparr>cv_waiters := cv_waiters c - 1\<rparr> in (cv_broadcast c' \<and> cv_waiters c' = 0, c'))"

definition win_signal_one :: "win_condition \<Rightarrow> win_condition" where
  "win_signal_one c = (if 0 < cv_waiters c then release_semaphore 1 c else c)"

text \<open>\<open>signal_all\<close>, up to the wait for \<open>waiters_done_\<close>, with the answer whether it waits; and after it.\<close>

definition win_signal_all_begin :: "win_condition \<Rightarrow> bool \<times> win_condition" where
  "win_signal_all_begin c =
     (if 0 < cv_waiters c then (True, release_semaphore (unat (cv_waiters c)) (c\<lparr>cv_broadcast := True\<rparr>)) else (False, c))"

definition win_signal_all_end :: "win_condition \<Rightarrow> win_condition" where
  "win_signal_all_end c = c\<lparr>cv_broadcast := False, cv_done := False\<rparr>"

section \<open>Several threads on one condition\<close>

text \<open>Where a thread is in \<open>wait\<close>: it has counted itself, it blocks on the semaphore, it is back without
  or with it, it has to notify the broadcaster, it locks the mutex again to answer.\<close>

datatype win_wait_pc = Entered | Blocked | Expired | Woken | Last_waiter | Relocking bool

record win_cond_system =
  wy_cond :: win_condition
  wy_waits :: "nat \<Rightarrow> win_wait_pc option"
  wy_signals :: "nat set"   \<comment> \<open>the threads that wait in \<open>signal_all\<close>\<close>
  wy_mutex :: "nat option"

text \<open>
  A wait begins and a broadcast is made with the mutex held, as the classes of the library do it. The
  threads have identifiers below \<open>2 ^ 30\<close>; \<open>timeouts\<close> says whether waits can expire.
\<close>

inductive win_cond_step :: "bool \<Rightarrow> win_cond_system \<Rightarrow> win_cond_system \<Rightarrow> bool" for timeouts where
  take_mutex: "wy_mutex s = None \<Longrightarrow> wy_waits s t = None \<Longrightarrow> win_cond_step timeouts s (s\<lparr>wy_mutex := Some t\<rparr>)"
| drop_mutex: "wy_mutex s = Some t \<Longrightarrow> wy_waits s t = None \<Longrightarrow> t \<notin> wy_signals s \<Longrightarrow>
    win_cond_step timeouts s (s\<lparr>wy_mutex := None\<rparr>)"
| enters: "wy_mutex s = Some t \<Longrightarrow> wy_waits s t = None \<Longrightarrow> t \<notin> wy_signals s \<Longrightarrow> t < 2 ^ 30 \<Longrightarrow>
    win_cond_step timeouts s (s\<lparr>wy_cond := win_wait_enter (wy_cond s), wy_waits := (wy_waits s)(t \<mapsto> Entered)\<rparr>)"
| blocks: "wy_waits s t = Some Entered \<Longrightarrow>
    win_cond_step timeouts s (s\<lparr>wy_waits := (wy_waits s)(t \<mapsto> Blocked), wy_mutex := None\<rparr>)"
| acquires: "wy_waits s t = Some Blocked \<Longrightarrow> 0 < cv_sema (wy_cond s) \<Longrightarrow>
    win_cond_step timeouts s (s\<lparr>wy_cond := (wy_cond s)\<lparr>cv_sema := cv_sema (wy_cond s) - 1\<rparr>, wy_waits := (wy_waits s)(t \<mapsto> Woken)\<rparr>)"
| expires: "timeouts \<Longrightarrow> wy_waits s t = Some Blocked \<Longrightarrow> win_cond_step timeouts s (s\<lparr>wy_waits := (wy_waits s)(t \<mapsto> Expired)\<rparr>)"
| leaves_expired: "wy_waits s t = Some Expired \<Longrightarrow>
    win_cond_step timeouts s (s\<lparr>wy_cond := win_wait_expired (wy_cond s), wy_waits := (wy_waits s)(t \<mapsto> Relocking False)\<rparr>)"
| leaves_woken: "wy_waits s t = Some Woken \<Longrightarrow> win_wait_woken (wy_cond s) = (last_waiter, c) \<Longrightarrow>
    win_cond_step timeouts s (s\<lparr>wy_cond := c, wy_waits := (wy_waits s)(t \<mapsto> (if last_waiter then Last_waiter else Relocking True))\<rparr>)"
| notifies: "wy_waits s t = Some Last_waiter \<Longrightarrow>
    win_cond_step timeouts s (s\<lparr>wy_cond := (wy_cond s)\<lparr>cv_done := True\<rparr>, wy_waits := (wy_waits s)(t \<mapsto> Relocking True)\<rparr>)"
| relocks: "wy_waits s t = Some (Relocking r) \<Longrightarrow> wy_mutex s = None \<Longrightarrow>
    win_cond_step timeouts s (s\<lparr>wy_waits := (wy_waits s)(t := None), wy_mutex := Some t\<rparr>)"
| signals_one: "win_cond_step timeouts s (s\<lparr>wy_cond := win_signal_one (wy_cond s)\<rparr>)"
| signals_all: "wy_mutex s = Some t \<Longrightarrow> wy_waits s t = None \<Longrightarrow> t \<notin> wy_signals s \<Longrightarrow>
    win_signal_all_begin (wy_cond s) = (blocked, c) \<Longrightarrow>
    win_cond_step timeouts s (s\<lparr>wy_cond := c, wy_signals := (if blocked then insert t (wy_signals s) else wy_signals s)\<rparr>)"
| signalled: "t \<in> wy_signals s \<Longrightarrow> cv_done (wy_cond s) \<Longrightarrow>
    win_cond_step timeouts s (s\<lparr>wy_cond := win_signal_all_end (wy_cond s), wy_signals := wy_signals s - {t}\<rparr>)"

definition win_cond_start :: win_cond_system where
  "win_cond_start = \<lparr>wy_cond = win_WaitCondition, wy_waits = (\<lambda>_. None), wy_signals = {}, wy_mutex = None\<rparr>"

section \<open>Without time-outs\<close>

text \<open>The threads at given points.\<close>

definition at_pcs :: "win_wait_pc set \<Rightarrow> (nat \<Rightarrow> win_wait_pc option) \<Rightarrow> nat set" where
  "at_pcs P f = {t. \<exists>p\<in>P. f t = Some p}"

lemma at_pcs_upd [simp]:
  "at_pcs P (f(t \<mapsto> p)) = (if p \<in> P then insert t (at_pcs P f) else at_pcs P f - {t})"
  "at_pcs P (f(t := None)) = at_pcs P f - {t}"
  by (auto simp: at_pcs_def)

lemma at_pcs_iff: "t \<in> at_pcs P f \<longleftrightarrow> (\<exists>p\<in>P. f t = Some p)"
  by (simp add: at_pcs_def)

abbreviation "counted \<equiv> at_pcs {Entered, Blocked, Woken}"

text \<open>The invariant: the counter is right, and a broadcast has given the semaphore to every thread that
  blocks, and is not told twice or too early that they all have it.\<close>

definition win_cond_ok :: "win_cond_system \<Rightarrow> bool" where
  "win_cond_ok s \<longleftrightarrow> counted (wy_waits s) \<subseteq> {..<2 ^ 30} \<and> cv_waiters (wy_cond s) = of_nat (card (counted (wy_waits s))) \<and>
     (\<forall>t. wy_waits s t = Some Entered \<longrightarrow> wy_mutex s = Some t) \<and> (\<forall>t. wy_waits s t \<noteq> Some Expired)"

definition broadcasting :: "nat \<Rightarrow> win_cond_system \<Rightarrow> bool" where
  "broadcasting t s \<longleftrightarrow> wy_signals s = {t} \<and> wy_mutex s = Some t \<and> wy_waits s t = None \<and> cv_broadcast (wy_cond s) \<and>
     card (at_pcs {Blocked} (wy_waits s)) \<le> cv_sema (wy_cond s) \<and> (\<exists>u. at_pcs {Last_waiter} (wy_waits s) \<subseteq> {u}) \<and>
     (counted (wy_waits s) \<noteq> {} \<longrightarrow> \<not> cv_done (wy_cond s) \<and> at_pcs {Last_waiter} (wy_waits s) = {}) \<and>
     (counted (wy_waits s) = {} \<longrightarrow> cv_done (wy_cond s) = (at_pcs {Last_waiter} (wy_waits s) = {}))"

definition broadcast_ok :: "win_cond_system \<Rightarrow> bool" where
  "broadcast_ok s \<longleftrightarrow> (\<exists>t. broadcasting t s) \<or>
     wy_signals s = {} \<and> \<not> cv_broadcast (wy_cond s) \<and> \<not> cv_done (wy_cond s) \<and> at_pcs {Last_waiter} (wy_waits s) = {}"

lemma card_word: "finite A \<Longrightarrow> t \<in> A \<Longrightarrow> (of_nat (card (A - {t})) :: u32) = of_nat (card A) - 1"
  using card.remove [of A t] by simp

lemma counted_finite: "win_cond_ok s \<Longrightarrow> finite (counted (wy_waits s))"
  unfolding win_cond_ok_def using finite_subset by blast

lemma counted_unat: "win_cond_ok s \<Longrightarrow> unat (cv_waiters (wy_cond s)) = card (counted (wy_waits s))"
  and counted_bound: "win_cond_ok s \<Longrightarrow> card (counted (wy_waits s)) \<le> 2 ^ 30"
proof -
  assume ok: "win_cond_ok s"
  then have "card (counted (wy_waits s)) \<le> card {..<2 ^ 30 :: nat}" by (intro card_mono) (simp_all add: win_cond_ok_def)
  then show b: "card (counted (wy_waits s)) \<le> 2 ^ 30" by simp
  then have "card (counted (wy_waits s)) < 2 ^ 32" by simp
  then show "unat (cv_waiters (wy_cond s)) = card (counted (wy_waits s))"
    using ok by (simp add: win_cond_ok_def)
qed

lemma at_pcs_same:
  "f t = Some p \<Longrightarrow> p \<in> P \<Longrightarrow> insert t (at_pcs P f) = at_pcs P f"
  "f t = Some p \<Longrightarrow> p \<notin> P \<Longrightarrow> at_pcs P f - {t} = at_pcs P f"
  "f t = None \<Longrightarrow> at_pcs P f - {t} = at_pcs P f"
  by (auto simp: at_pcs_def)

lemma cond_waiters_simps [simp]:
  "cv_waiters (release_semaphore n c) = cv_waiters c" "cv_waiters (win_signal_one c) = cv_waiters c"
  "cv_waiters (win_signal_all_end c) = cv_waiters c" "cv_waiters (snd (win_signal_all_begin c)) = cv_waiters c"
  "cv_broadcast (release_semaphore n c) = cv_broadcast c" "cv_broadcast (win_signal_one c) = cv_broadcast c"
  "cv_done (release_semaphore n c) = cv_done c" "cv_done (win_signal_one c) = cv_done c"
  by (simp_all add: release_semaphore_def win_signal_one_def win_signal_all_end_def win_signal_all_begin_def)

lemma at_pcs_counted: "at_pcs {Entered} f \<subseteq> counted f" "at_pcs {Blocked} f \<subseteq> counted f" "at_pcs {Woken} f \<subseteq> counted f"
  by (auto simp: at_pcs_def)

text \<open>The mutex and the counter are kept in order.\<close>

lemma win_cond_step_ok: "win_cond_step False s s' \<Longrightarrow> win_cond_ok s \<Longrightarrow> win_cond_ok s'"
proof (induction rule: win_cond_step.induct)
  case (enters s t)
  then have "t \<notin> counted (wy_waits s)" by (auto simp: at_pcs_iff)
  with enters counted_finite [OF enters(5)] show ?case
    by (auto simp: win_cond_ok_def win_wait_enter_def)
next
  case (blocks s t)
  then have "wy_mutex s = Some t" by (simp add: win_cond_ok_def)
  with blocks(2) have "\<forall>u. u \<noteq> t \<longrightarrow> wy_waits s u \<noteq> Some Entered" by (auto simp: win_cond_ok_def)
  with blocks show ?case by (simp add: win_cond_ok_def at_pcs_same)
next
  case (leaves_woken s t last_waiter c)
  then have "t \<in> counted (wy_waits s)" by (auto simp: at_pcs_iff)
  with leaves_woken show ?case
    using card_word [OF counted_finite [OF leaves_woken(3)]]
    by (auto simp: win_cond_ok_def win_wait_woken_def Let_def)
next
  case (signals_all s t blocked c)
  then have "c = snd (win_signal_all_begin (wy_cond s))" by simp
  with signals_all(5) show ?case by (simp add: win_cond_ok_def)
qed (auto simp: win_cond_ok_def at_pcs_same)

text \<open>During a broadcast the mutex stays with its thread, so that no wait can begin.\<close>

lemma broadcast_holder:
  "broadcast_ok s \<Longrightarrow> wy_signals s \<noteq> {} \<Longrightarrow> \<exists>t. broadcasting t s \<and> wy_signals s = {t} \<and> wy_mutex s = Some t \<and> wy_waits s t = None"
  by (auto simp: broadcast_ok_def broadcasting_def)

lemma broadcast_quiet: "broadcast_ok s \<Longrightarrow> wy_signals s = {} \<Longrightarrow>
    \<not> cv_broadcast (wy_cond s) \<and> \<not> cv_done (wy_cond s) \<and> at_pcs {Last_waiter} (wy_waits s) = {}"
  by (auto simp: broadcast_ok_def broadcasting_def)

lemma broadcasting_ok: "broadcasting t s \<Longrightarrow> broadcast_ok s"
  by (auto simp: broadcast_ok_def broadcasting_def)

lemma of_nat_0_u32: "n < 2 ^ 32 \<Longrightarrow> (of_nat n :: u32) = 0 \<longleftrightarrow> n = 0"
  using unsigned_eq_0_iff [of "of_nat n :: u32", where 'a = nat] by simp

lemma broadcast_frame:
  assumes "broadcast_ok s" "wy_signals s = {}" "wy_signals s' = {}"
    and "cv_broadcast (wy_cond s') = cv_broadcast (wy_cond s)" "cv_done (wy_cond s') = cv_done (wy_cond s)"
    and "at_pcs {Last_waiter} (wy_waits s') = at_pcs {Last_waiter} (wy_waits s)"
  shows "broadcast_ok s'"
  using assms by (auto simp: broadcast_ok_def broadcasting_def)

lemma acquires_ok:
  assumes "win_cond_ok s" "broadcasting u s" "wy_waits s t = Some Blocked"
  shows "broadcasting u (s\<lparr>wy_cond := (wy_cond s)\<lparr>cv_sema := cv_sema (wy_cond s) - 1\<rparr>, wy_waits := (wy_waits s)(t \<mapsto> Woken)\<rparr>)"
proof -
  have "finite (at_pcs {Blocked} (wy_waits s))" using counted_finite [OF assms(1)] at_pcs_counted(2) by (rule rev_finite_subset)
  then have "card (at_pcs {Blocked} (wy_waits s) - {t}) = card (at_pcs {Blocked} (wy_waits s)) - 1"
    using assms(3) by (simp add: at_pcs_iff)
  moreover have "u \<noteq> t" using assms(2,3) by (auto simp: broadcasting_def)
  moreover have "counted (wy_waits s) \<noteq> {}" using assms(3) by (auto simp: at_pcs_iff)
  ultimately show ?thesis using assms(2,3) by (simp add: broadcasting_def at_pcs_same diff_le_mono)
qed

lemma last_waiter_iff:
  assumes "win_cond_ok s" "wy_waits s t = Some Woken" "cv_broadcast (wy_cond s)"
  shows "win_wait_woken (wy_cond s) = (counted (wy_waits s) - {t} = {}, (wy_cond s)\<lparr>cv_waiters := cv_waiters (wy_cond s) - 1\<rparr>)"
proof -
  let ?C = "counted (wy_waits s)"
  have C: "finite ?C" "t \<in> ?C" using counted_finite [OF assms(1)] assms(2) by (simp_all add: at_pcs_iff)
  have "cv_waiters (wy_cond s) - 1 = of_nat (card (?C - {t}))"
    using card_word [OF C] assms(1) by (simp add: win_cond_ok_def)
  moreover have "card (?C - {t}) \<le> card ?C" using C(1) by (intro card_mono) auto
  then have "card (?C - {t}) < 2 ^ 32" using counted_bound [OF assms(1)] by simp
  ultimately have "cv_waiters (wy_cond s) - 1 = 0 \<longleftrightarrow> card (?C - {t}) = 0" by (simp only: of_nat_0_u32)
  also have "\<dots> \<longleftrightarrow> ?C - {t} = {}" using C(1) by simp
  finally show ?thesis using assms(3) by (simp add: win_wait_woken_def)
qed

lemma leaves_woken_ok:
  assumes "win_cond_ok s" "broadcasting u s" "wy_waits s t = Some Woken" "win_wait_woken (wy_cond s) = (last_waiter, c)"
  shows "broadcasting u (s\<lparr>wy_cond := c, wy_waits := (wy_waits s)(t \<mapsto> (if last_waiter then Last_waiter else Relocking True))\<rparr>)"
proof -
  have C: "t \<in> counted (wy_waits s)" using assms(3) by (simp add: at_pcs_iff)
  then have b: "wy_signals s = {u}" "wy_mutex s = Some u" "wy_waits s u = None" "cv_broadcast (wy_cond s)" "\<not> cv_done (wy_cond s)"
    "at_pcs {Last_waiter} (wy_waits s) = {}" "card (at_pcs {Blocked} (wy_waits s)) \<le> cv_sema (wy_cond s)"
    using assms(2) unfolding broadcasting_def by blast+
  have c: "last_waiter = (counted (wy_waits s) - {t} = {})" "c = (wy_cond s)\<lparr>cv_waiters := cv_waiters (wy_cond s) - 1\<rparr>"
    using last_waiter_iff [OF assms(1,3) b(4)] assms(4) by auto
  have u: "u \<noteq> t" using b(3) assms(3) by auto
  have s: "at_pcs {Blocked} (wy_waits s) - {t} = at_pcs {Blocked} (wy_waits s)" using assms(3) by (simp add: at_pcs_same)
  show ?thesis
  proof (cases last_waiter)
    case True
    with b u s c show ?thesis by (simp add: broadcasting_def)
  next
    case False
    with b u s c show ?thesis by (simp add: broadcasting_def)
  qed
qed

lemma signals_all_ok:
  assumes "win_cond_ok s" "broadcast_ok s" "wy_mutex s = Some t" "wy_waits s t = None" "t \<notin> wy_signals s"
    and "win_signal_all_begin (wy_cond s) = (blocked, c)"
  shows "broadcast_ok (s\<lparr>wy_cond := c, wy_signals := (if blocked then insert t (wy_signals s) else wy_signals s)\<rparr>)"
proof -
  have e: "wy_signals s = {}" using broadcast_holder [OF assms(2)] assms(3,5) by auto
  let ?C = "counted (wy_waits s)"
  show ?thesis
  proof (cases blocked)
    case False
    with assms(6) have "c = wy_cond s" by (auto simp: win_signal_all_begin_def split: if_splits)
    with False show ?thesis using assms(2) by (cases s) simp
  next
    case True
    define c1 where "c1 = (wy_cond s)\<lparr>cv_broadcast := True\<rparr>"
    have w: "0 < cv_waiters (wy_cond s)" and c: "c = release_semaphore (card ?C) c1"
      using assms(6) True counted_unat [OF assms(1)] by (auto simp: win_signal_all_begin_def c1_def split: if_splits)
    have "card (at_pcs {Blocked} (wy_waits s)) \<le> card ?C"
      using counted_finite [OF assms(1)] at_pcs_counted(2) by (rule card_mono)
    then have "card (at_pcs {Blocked} (wy_waits s)) \<le> cv_sema c"
      using counted_bound [OF assms(1)] by (auto simp: c release_semaphore_def SEMA_MAX_def)
    moreover have "?C \<noteq> {}"
    proof
      assume "?C = {}"
      then have "cv_waiters (wy_cond s) = 0" using assms(1) by (simp add: win_cond_ok_def)
      with w show False by simp
    qed
    moreover have "cv_broadcast c" "cv_done c = cv_done (wy_cond s)" by (simp_all add: c c1_def)
    ultimately show ?thesis using True e assms(3,4) broadcast_quiet [OF assms(2) e]
      by (intro broadcasting_ok [of t]) (simp add: broadcasting_def)
  qed
qed

lemma win_cond_step_broadcast: "win_cond_step False s s' \<Longrightarrow> win_cond_ok s \<Longrightarrow> broadcast_ok s \<Longrightarrow> broadcast_ok s'"
proof (induction rule: win_cond_step.induct)
  case (take_mutex s t)
  then have "wy_signals s = {}" using broadcast_holder [of s] by auto
  with take_mutex show ?case by (auto intro: broadcast_frame)
next
  case (drop_mutex s t)
  then have "wy_signals s = {}" using broadcast_holder [of s] by auto
  with drop_mutex show ?case by (auto intro: broadcast_frame)
next
  case (enters s t)
  then have "wy_signals s = {}" using broadcast_holder [of s] by auto
  with enters show ?case by (auto intro!: broadcast_frame [OF enters(6)] simp: win_wait_enter_def at_pcs_same)
next
  case (blocks s t)
  then have "wy_signals s = {}" using broadcast_holder [of s] by (auto simp: win_cond_ok_def)
  with blocks show ?case by (auto intro!: broadcast_frame [OF blocks(3)] simp: at_pcs_same)
next
  case (acquires s t)
  show ?case
  proof (cases "wy_signals s = {}")
    case True
    with acquires show ?thesis by (auto intro!: broadcast_frame [OF acquires(4)] simp: at_pcs_same)
  next
    case False
    with acquires broadcast_holder [of s] acquires_ok [of s _ t] show ?thesis by (blast intro: broadcasting_ok)
  qed
next
  case (leaves_woken s t last_waiter c)
  show ?case
  proof (cases "wy_signals s = {}")
    case True
    with leaves_woken have "\<not> last_waiter" "cv_broadcast c = cv_broadcast (wy_cond s)" "cv_done c = cv_done (wy_cond s)"
      using broadcast_quiet [of s] by (auto simp: win_wait_woken_def Let_def)
    with leaves_woken True show ?thesis by (auto intro!: broadcast_frame [OF leaves_woken(4)] simp: at_pcs_same)
  next
    case False
    then obtain u where "broadcasting u s" using broadcast_holder [of s] leaves_woken by blast
    with leaves_woken show ?thesis by (intro broadcasting_ok leaves_woken_ok)
  qed
next
  case (notifies s t)
  then have l: "t \<in> at_pcs {Last_waiter} (wy_waits s)" by (simp add: at_pcs_iff)
  then have "wy_signals s \<noteq> {}" using broadcast_quiet [of s] notifies by auto
  then obtain u where u: "broadcasting u s" using broadcast_holder [of s] notifies by blast
  then have c: "counted (wy_waits s) = {}" "at_pcs {Last_waiter} (wy_waits s) = {t}" "u \<noteq> t"
    using l notifies(1) unfolding broadcasting_def by (blast, blast, force)
  have b: "at_pcs {Blocked} (wy_waits s) = {}" using c(1) at_pcs_counted(2) [of "wy_waits s"] by blast
  show ?case using u c b by (intro broadcasting_ok [of u]) (simp add: broadcasting_def)
next
  case (relocks s t r)
  then have "wy_signals s = {}" using broadcast_holder [of s] by auto
  with relocks show ?case by (auto intro!: broadcast_frame [OF relocks(4)] simp: at_pcs_same)
next
  case (signals_one s)
  have "cv_sema (wy_cond s) \<le> cv_sema (win_signal_one (wy_cond s))"
    by (simp add: win_signal_one_def release_semaphore_def)
  with signals_one show ?case by (auto simp: broadcast_ok_def broadcasting_def intro: order.trans)
next
  case (signals_all s t blocked c)
  then show ?case by (intro signals_all_ok)
next
  case (signalled s t)
  then show ?case by (auto simp: broadcast_ok_def broadcasting_def win_signal_all_end_def split: if_splits)
qed (auto simp: win_cond_ok_def)

section \<open>A broadcast ends\<close>

text \<open>What is still to do before the broadcaster can go on.\<close>

definition broadcast_work :: "win_cond_system \<Rightarrow> nat" where
  "broadcast_work s = 3 * card (at_pcs {Blocked} (wy_waits s)) + 2 * card (at_pcs {Woken} (wy_waits s)) +
     card (at_pcs {Last_waiter} (wy_waits s))"

lemma broadcast_progress:
  assumes "win_cond_ok s" "broadcasting t s" "\<not> cv_done (wy_cond s)"
  shows "\<exists>s'. win_cond_step False s s' \<and> broadcasting t s' \<and> broadcast_work s' < broadcast_work s"
proof -
  have fin: "finite (at_pcs {Blocked} (wy_waits s))" "finite (at_pcs {Woken} (wy_waits s))"
    by (rule rev_finite_subset [OF counted_finite [OF assms(1)]], rule at_pcs_counted)+
  show ?thesis
  proof (cases "counted (wy_waits s) = {}")
    case True
    then obtain u where u: "at_pcs {Last_waiter} (wy_waits s) = {u}"
      using assms(2,3) unfolding broadcasting_def by blast
    then have pc: "wy_waits s u = Some Last_waiter" by (auto simp: at_pcs_def)
    let ?s = "s\<lparr>wy_cond := (wy_cond s)\<lparr>cv_done := True\<rparr>, wy_waits := (wy_waits s)(u \<mapsto> Relocking True)\<rparr>"
    have b: "at_pcs {Blocked} (wy_waits s) = {}" "at_pcs {Woken} (wy_waits s) = {}"
      using True at_pcs_counted(2,3) [of "wy_waits s"] by blast+
    have "broadcasting t ?s" using assms(2) True u b pc by (auto simp: broadcasting_def)
    moreover have "broadcast_work ?s < broadcast_work s" using u b by (simp add: broadcast_work_def)
    ultimately show ?thesis using win_cond_step.notifies [OF pc] by blast
  next
    case False
    then obtain u p where u: "wy_waits s u = Some p" "p \<in> {Entered, Blocked, Woken}" by (auto simp: at_pcs_def)
    have "p \<noteq> Entered" using u assms(1,2) by (auto simp: win_cond_ok_def broadcasting_def)
    with u consider "p = Blocked" | "p = Woken" by auto
    then show ?thesis
    proof cases
      case 1
      let ?s = "s\<lparr>wy_cond := (wy_cond s)\<lparr>cv_sema := cv_sema (wy_cond s) - 1\<rparr>, wy_waits := (wy_waits s)(u \<mapsto> Woken)\<rparr>"
      have u': "u \<in> at_pcs {Blocked} (wy_waits s)" "u \<notin> at_pcs {Woken} (wy_waits s)" using u 1 by (auto simp: at_pcs_def)
      then have "0 < card (at_pcs {Blocked} (wy_waits s))" using fin(1) by (auto simp: card_gt_0_iff)
      moreover from this have "0 < cv_sema (wy_cond s)" using assms(2) by (simp add: broadcasting_def)
      moreover have "broadcast_work ?s < broadcast_work s"
        using u u' 1 fin calculation(1) by (simp add: broadcast_work_def at_pcs_same)
      ultimately show ?thesis
        using acquires_ok [OF assms(1,2), of u] win_cond_step.acquires [of s u] u 1 by blast
    next
      case 2
      obtain l c where c: "win_wait_woken (wy_cond s) = (l, c)" by fastforce
      let ?s = "s\<lparr>wy_cond := c, wy_waits := (wy_waits s)(u \<mapsto> (if l then Last_waiter else Relocking True))\<rparr>"
      have u': "u \<in> at_pcs {Woken} (wy_waits s)" using u 2 by (auto simp: at_pcs_def)
      then have "0 < card (at_pcs {Woken} (wy_waits s))" using fin(2) by (auto simp: card_gt_0_iff)
      moreover have "at_pcs {Last_waiter} (wy_waits s) = {}" using False assms(2) by (simp add: broadcasting_def)
      moreover have "Suc (2 * (card (at_pcs {Woken} (wy_waits s)) - Suc 0)) < 2 * card (at_pcs {Woken} (wy_waits s))"
        using calculation(1) by arith
      ultimately have "broadcast_work ?s < broadcast_work s" using u u' 2 fin by (simp add: broadcast_work_def at_pcs_same)
      then show ?thesis
        using leaves_woken_ok [OF assms(1,2) _ c, of u] win_cond_step.leaves_woken [OF _ c, of u] u 2 by blast
    qed
  qed
qed

lemma broadcast_ends:
  "win_cond_ok s \<Longrightarrow> broadcasting t s \<Longrightarrow> \<exists>s'. (win_cond_step False)\<^sup>*\<^sup>* s s' \<and> wy_signals s' = {}"
proof (induction "broadcast_work s" arbitrary: s rule: less_induct)
  case less
  show ?case
  proof (cases "cv_done (wy_cond s)")
    case True
    have "t \<in> wy_signals s" "wy_signals s - {t} = {}" using less.prems(2) by (simp_all add: broadcasting_def)
    moreover from this(1) True have "(win_cond_step False)\<^sup>*\<^sup>* s
        (s\<lparr>wy_cond := win_signal_all_end (wy_cond s), wy_signals := wy_signals s - {t}\<rparr>)"
      by (intro r_into_rtranclp win_cond_step.signalled)
    ultimately show ?thesis by (metis win_cond_system.select_convs(3) win_cond_system.surjective win_cond_system.update_convs(1,3))
  next
    case False
    then obtain s' where s': "win_cond_step False s s'" "broadcasting t s'" "broadcast_work s' < broadcast_work s"
      using broadcast_progress [OF less.prems] by blast
    then have "win_cond_ok s'" using win_cond_step_ok less.prems(1) by blast
    with less.hyps s' obtain s'' where "(win_cond_step False)\<^sup>*\<^sup>* s' s''" "wy_signals s'' = {}" by blast
    with s'(1) show ?thesis by (meson converse_rtranclp_into_rtranclp)
  qed
qed

lemma win_cond_reachable: "(win_cond_step False)\<^sup>*\<^sup>* win_cond_start s \<Longrightarrow> win_cond_ok s \<and> broadcast_ok s"
proof (induction rule: rtranclp_induct)
  case base
  show ?case by (simp add: win_cond_ok_def broadcast_ok_def win_cond_start_def win_WaitCondition_def at_pcs_def)
qed (auto intro: win_cond_step_ok win_cond_step_broadcast)

text \<open>C23: As long as no wait times out, a \<open>signal_all\<close> that waits for the last waiter can always go on, whatever
  waits and signals came before it: the semaphore has been given for every thread that blocks, and
  the last of them sets the event.\<close>

theorem broadcast_completes:
  assumes "(win_cond_step False)\<^sup>*\<^sup>* win_cond_start s"
  shows "\<exists>s'. (win_cond_step False)\<^sup>*\<^sup>* s s' \<and> wy_signals s' = {}"
proof -
  have ok: "win_cond_ok s \<and> broadcast_ok s" using assms by (rule win_cond_reachable)
  then consider t where "broadcasting t s" | "wy_signals s = {}" unfolding broadcast_ok_def by blast
  then show ?thesis
  proof cases
    case 1
    with ok show ?thesis by (blast intro: broadcast_ends)
  qed blast
qed

theorem broadcast_completes_witness:
  defines "s \<equiv> win_cond_start\<lparr>wy_mutex := Some 7\<rparr>"
  shows "\<exists>s'. (win_cond_step False)\<^sup>*\<^sup>* s s' \<and> wy_signals s' = {}"
proof (rule broadcast_completes)
  have "win_cond_step False win_cond_start s"
    unfolding s_def by (rule win_cond_step.take_mutex) (simp_all add: win_cond_start_def)
  then show "(win_cond_step False)\<^sup>*\<^sup>* win_cond_start s" by (rule r_into_rtranclp)
qed

section \<open>A broadcast does not end when a wait times out\<close>

text \<open>Nobody is left who would set the event the broadcaster waits for, and it keeps the mutex.\<close>

definition broadcast_stuck :: "nat \<Rightarrow> win_cond_system \<Rightarrow> bool" where
  "broadcast_stuck u s \<longleftrightarrow> wy_signals s = {u} \<and> wy_mutex s = Some u \<and> wy_waits s u = None \<and> \<not> cv_done (wy_cond s) \<and>
     (\<forall>t p. wy_waits s t = Some p \<longrightarrow> (\<exists>r. p = Relocking r))"

lemma broadcast_stuck_step: "win_cond_step timeouts s s' \<Longrightarrow> broadcast_stuck u s \<Longrightarrow> broadcast_stuck u s'"
  by (induction rule: win_cond_step.induct) (auto simp: broadcast_stuck_def)

lemma broadcast_stuck_steps: "(win_cond_step timeouts)\<^sup>*\<^sup>* s s' \<Longrightarrow> broadcast_stuck u s \<Longrightarrow> broadcast_stuck u s'"
  by (induction rule: rtranclp_induct) (auto intro: broadcast_stuck_step)

text \<open>Thread 1 waits, its wait expires, and before it has left thread 2 broadcasts.\<close>

lemma timed_out_run:
  "(win_cond_step True)\<^sup>*\<^sup>* win_cond_start
    \<lparr>wy_cond = \<lparr>cv_broadcast = True, cv_waiters = 0, cv_sema = 1, cv_done = False\<rparr>,
     wy_waits = [1 \<mapsto> Relocking False], wy_signals = {2}, wy_mutex = Some 2\<rparr>"
proof -
  let ?S = "\<lambda>c f sig m. \<lparr>wy_cond = c, wy_waits = f, wy_signals = sig, wy_mutex = m\<rparr>"
  let ?c1 = "\<lparr>cv_broadcast = False, cv_waiters = 1, cv_sema = 0, cv_done = False\<rparr>"
  let ?c2 = "\<lparr>cv_broadcast = True, cv_waiters = 1, cv_sema = 1, cv_done = False\<rparr>"
  let ?c3 = "\<lparr>cv_broadcast = True, cv_waiters = 0, cv_sema = 1, cv_done = False\<rparr>"
  have 1: "win_cond_step True win_cond_start (?S win_WaitCondition Map.empty {} (Some 1))"
    using win_cond_step.take_mutex [of win_cond_start 1 True] by (simp add: win_cond_start_def)
  have "win_wait_enter win_WaitCondition = ?c1" by (simp add: win_wait_enter_def win_WaitCondition_def)
  then have 2: "win_cond_step True (?S win_WaitCondition Map.empty {} (Some 1)) (?S ?c1 [1 \<mapsto> Entered] {} (Some 1))"
    using win_cond_step.enters [of "?S win_WaitCondition Map.empty {} (Some 1)" 1 True] by simp
  have 3: "win_cond_step True (?S ?c1 [1 \<mapsto> Entered] {} (Some 1)) (?S ?c1 [1 \<mapsto> Blocked] {} None)"
    using win_cond_step.blocks [of "?S ?c1 [1 \<mapsto> Entered] {} (Some 1)" 1 True] by simp
  have 4: "win_cond_step True (?S ?c1 [1 \<mapsto> Blocked] {} None) (?S ?c1 [1 \<mapsto> Expired] {} None)"
    using win_cond_step.expires [of True "?S ?c1 [1 \<mapsto> Blocked] {} None" 1] by simp
  have 5: "win_cond_step True (?S ?c1 [1 \<mapsto> Expired] {} None) (?S ?c1 [1 \<mapsto> Expired] {} (Some 2))"
    using win_cond_step.take_mutex [of "?S ?c1 [1 \<mapsto> Expired] {} None" 2 True] by simp
  have "win_signal_all_begin ?c1 = (True, ?c2)" by (simp add: win_signal_all_begin_def release_semaphore_def SEMA_MAX_def)
  then have 6: "win_cond_step True (?S ?c1 [1 \<mapsto> Expired] {} (Some 2)) (?S ?c2 [1 \<mapsto> Expired] {2} (Some 2))"
    using win_cond_step.signals_all [of "?S ?c1 [1 \<mapsto> Expired] {} (Some 2)" 2 True ?c2 True] by simp
  have "win_wait_expired ?c2 = ?c3" by (simp add: win_wait_expired_def)
  then have 7: "win_cond_step True (?S ?c2 [1 \<mapsto> Expired] {2} (Some 2)) (?S ?c3 [1 \<mapsto> Relocking False] {2} (Some 2))"
    using win_cond_step.leaves_expired [of "?S ?c2 [1 \<mapsto> Expired] {2} (Some 2)" 1 True] by simp
  note into = rtranclp.rtrancl_into_rtrancl [of "win_cond_step True"]
  note one = r_into_rtranclp [of "win_cond_step True"]
  show ?thesis by (rule into [OF into [OF into [OF into [OF into [OF into [OF one [OF 1] 2] 3] 4] 5] 6] 7])
qed

text \<open>C39: When a wait times out while another thread begins to broadcast, the thread that has timed out takes
  itself from the count but does not set \<open>waiters_done_\<close>: a state can be reached in which \<open>signal_all\<close> waits
  with the mutex held, and from which no step of any thread ever lets it go on.\<close>

theorem broadcast_hangs:
  "\<exists>s. (win_cond_step True)\<^sup>*\<^sup>* win_cond_start s \<and> wy_signals s = {2} \<and>
     {s'. (win_cond_step True)\<^sup>*\<^sup>* s s'} \<subseteq> {s'. wy_signals s' = {2} \<and> wy_mutex s' = Some 2}"
proof -
  let ?s = "\<lparr>wy_cond = \<lparr>cv_broadcast = True, cv_waiters = 0, cv_sema = 1, cv_done = False\<rparr>,
     wy_waits = [1 \<mapsto> Relocking False], wy_signals = {2}, wy_mutex = Some 2\<rparr>"
  have stuck: "broadcast_stuck 2 ?s" by (auto simp: broadcast_stuck_def)
  have "{s'. (win_cond_step True)\<^sup>*\<^sup>* ?s s'} \<subseteq> {s'. wy_signals s' = {2} \<and> wy_mutex s' = Some 2}"
    using broadcast_stuck_steps [OF _ stuck] unfolding broadcast_stuck_def by blast
  with timed_out_run show ?thesis by (intro exI [of _ ?s]) simp
qed

section \<open>Thread\<close>

text \<open>Handles are numbers, 0 for none; \<^verbatim>\<open>GetCurrentThread\<close> answers a constant that stands for the caller.\<close>

definition CURRENT_THREAD :: int where "CURRENT_THREAD = -2"

record win_thread_object =
  wt_thread :: int
  wt_start_event :: bool   \<comment> \<open>reset by a wait for it\<close>
  wt_running :: bool
  wt_done :: win_condition

definition win_Thread :: win_thread_object where
  "win_Thread = \<lparr>wt_thread = 0, wt_start_event = False, wt_running = False, wt_done = win_WaitCondition\<rparr>"

text \<open>\<open>start\<close>, up to the wait for the event (\<open>Inl\<close>: an answer before it), and after it.\<close>

definition win_thread_start_begin :: "int \<Rightarrow> win_thread_object \<Rightarrow> bool \<times> win_thread_object + win_thread_object" where
  "win_thread_start_begin created t =
     (if wt_running t then Inl (False, t)
      else let t' = t\<lparr>wt_thread := created\<rparr> in if created = 0 then Inl (False, t') else Inr t')"

definition win_thread_start_end :: "win_thread_object \<Rightarrow> bool \<times> win_thread_object" where
  "win_thread_start_end t = (True, t\<lparr>wt_start_event := False, wt_running := True\<rparr>)"

text \<open>The entry point: before \<open>run\<close>, and after it up to the wait in \<open>signal_all\<close> and on.\<close>

definition win_native_begin :: "win_thread_object \<Rightarrow> win_thread_object" where
  "win_native_begin t = t\<lparr>wt_start_event := True\<rparr>"

definition win_native_signal :: "win_thread_object \<Rightarrow> bool \<times> win_thread_object" where
  "win_native_signal t = (case win_signal_all_begin (wt_done t) of (waits, c) \<Rightarrow> (waits, t\<lparr>wt_done := c\<rparr>))"

definition win_native_end :: "bool \<Rightarrow> win_thread_object \<Rightarrow> win_thread_object" where
  "win_native_end waited t = t\<lparr>wt_done := (if waited then win_signal_all_end (wt_done t) else wt_done t), wt_running := False\<rparr>"

definition win_thread_wait_begin :: "win_thread_object \<Rightarrow> bool + win_thread_object" where
  "win_thread_wait_begin t =
     (if wt_thread t = CURRENT_THREAD then Inl False
      else if \<not> wt_running t then Inl False
      else Inr (t\<lparr>wt_done := win_wait_enter (wt_done t)\<rparr>))"

definition win_thread_wait_end :: "bool \<Rightarrow> win_thread_object \<Rightarrow> bool \<times> win_thread_object" where
  "win_thread_wait_end expired t =
     (\<not> expired, t\<lparr>wt_done := (if expired then win_wait_expired (wt_done t) else snd (win_wait_woken (wt_done t)))\<rparr>)"

text \<open>\<open>kill\<close> tells the waits what the terminated thread no longer can.\<close>

definition win_thread_kill_begin :: "bool \<Rightarrow> win_thread_object \<Rightarrow> bool + bool \<times> win_thread_object" where
  "win_thread_kill_begin terminated t =
     (if \<not> wt_running t then Inl False
      else if \<not> terminated then Inl False
      else Inr (win_native_signal t))"

definition win_thread_kill_end :: "bool \<Rightarrow> win_thread_object \<Rightarrow> bool \<times> win_thread_object" where
  "win_thread_kill_end waited t = (True, win_native_end waited t)"

definition win_thread_running :: "win_thread_object \<Rightarrow> bool" where
  "win_thread_running t = wt_running t"

text \<open>The test against waiting on itself never holds, as no thread has the constant for its handle: a thread
  that waits on itself blocks.\<close>

lemma win_self_wait_blocks:
  "wt_thread t \<noteq> CURRENT_THREAD \<Longrightarrow> win_thread_running t \<Longrightarrow> \<exists>t'. win_thread_wait_begin t = Inr t'"
  by (simp add: win_thread_wait_begin_def win_thread_running_def)

lemma win_thread_life:
  assumes "win_thread_start_begin h t = Inr t1" "win_thread_start_end (win_native_begin t1) = (ok, t2)"
    and "win_native_signal t2 = (waits, t3)"
  shows "ok \<and> win_thread_running t2 \<and> \<not> win_thread_running (win_native_end waits t3)"
  using assms by (auto simp: win_thread_start_end_def win_thread_running_def win_native_end_def)

section \<open>The functions of the namespace\<close>

definition win_ideal_count :: "u32 \<Rightarrow> u32" where
  "win_ideal_count processors = processors"

definition win_sleep :: "(u32 \<Rightarrow> 'w \<Rightarrow> 'w) \<Rightarrow> u32 \<Rightarrow> 'w \<Rightarrow> bool \<times> 'w" where
  "win_sleep sleep milliseconds w = (True, sleep milliseconds w)"

definition win_thread_create :: "int \<Rightarrow> ('p \<Rightarrow> 'r) \<Rightarrow> 'p \<Rightarrow> bool \<times> (unit \<Rightarrow> 'r) option" where
  "win_thread_create created func param = (if created = 0 then (False, None) else (True, Some (\<lambda>_. func param)))"

end
