(* ===== verification/Windows_Process.thy ===== *)
theory Windows_Process
  imports Unix_Process
begin

text \<open>
  The class \<open>Process\<close> of \<^verbatim>\<open>src/windows/process.cc\<close>. As on Unix a thread listens to the output of the
  child; there is one pipe for both outputs, and the end of the child is a wait for its handle. The
  calls of the system are parameters; a handle is a number, 0 for none. The splitting into blocks is
  the same code as on Unix, and so is its model. What a thread does with \<open>mutex_\<close> held is one step,
  and \<open>win_proc_step\<close> interleaves the steps of the user of the object and of the listening thread.
\<close>

section \<open>The calls of the system\<close>

record 'w winproc_os =
  wp_pipe :: "'w \<Rightarrow> (int \<times> int) option \<times> 'w"   \<comment> \<open>the end to read from, the end to write to\<close>
  wp_duplicate :: "int \<Rightarrow> bool \<Rightarrow> 'w \<Rightarrow> int option \<times> 'w"   \<comment> \<open>whether it can be inherited\<close>
  wp_close :: "int \<Rightarrow> 'w \<Rightarrow> 'w"
  wp_create_process :: "string \<Rightarrow> int \<Rightarrow> int \<Rightarrow> int \<Rightarrow> 'w \<Rightarrow> (int \<times> int) option \<times> 'w"   \<comment> \<open>the handles of the process and its thread\<close>
  wp_create_thread :: "'w \<Rightarrow> int \<times> 'w"
  wp_exit_code :: "int \<Rightarrow> 'w \<Rightarrow> u32 option \<times> 'w"   \<comment> \<open>waits for the end of the child\<close>
  wp_terminate :: "int \<Rightarrow> 'w \<Rightarrow> bool \<times> 'w"
  wp_peek :: "int \<Rightarrow> 'w \<Rightarrow> u32 option \<times> 'w"   \<comment> \<open>the bytes that can be read\<close>
  wp_read :: "int \<Rightarrow> u32 \<Rightarrow> 'w \<Rightarrow> byte list option \<times> 'w"
  wp_write :: "int \<Rightarrow> byte list \<Rightarrow> 'w \<Rightarrow> u32 \<times> 'w"   \<comment> \<open>the bytes written, 0 when it fails\<close>

section \<open>The object\<close>

record win_process =
  wr_invalid_inheritor :: bool
  wr_stdin :: int
  wr_output :: int
  wr_process :: int
  wr_thread :: int
  wr_start_event :: bool
  wr_stop_event :: bool
  wr_state :: proc_mode
  wr_exit_code :: u32
  wr_delims :: "char set"
  wr_block :: string
  wr_events :: "proc_event list"   \<comment> \<open>the calls of the virtual functions so far\<close>

record 'w winproc_state =
  wq_proc :: win_process
  wq_world :: 'w

definition win_Process :: win_process where
  "win_Process = \<lparr>wr_invalid_inheritor = False, wr_stdin = 0, wr_output = 0, wr_process = 0, wr_thread = 0,
     wr_start_event = False, wr_stop_event = False, wr_state = STATE_STOPPED, wr_exit_code = 0,
     wr_delims = {CHR 10, CHR 13}, wr_block = [], wr_events = []\<rparr>"

definition win_close_handle :: "'w winproc_os \<Rightarrow> int \<Rightarrow> 'w \<Rightarrow> 'w" where
  "win_close_handle U h w = (if h \<noteq> 0 then wp_close U h w else w)"

text \<open>
  \<open>close\<close>, of the listening thread itself (\<open>listener\<close>) or of another one; that one waits until the
  listening thread has ended, and blocks (\<open>Fuel\<close>) when it has not.
\<close>

definition win_process_close :: "'w winproc_os \<Rightarrow> bool \<Rightarrow> bool \<Rightarrow> 'w winproc_state \<Rightarrow> 'w winproc_state outcome" where
  "win_process_close U listener thread_ended s = (let p = wq_proc s in
     if wr_thread p \<noteq> 0 \<and> \<not> listener \<and> \<not> thread_ended then Fuel
     else let w3 = fold (win_close_handle U) [wr_thread p, wr_stdin p, wr_output p] (wq_world s) in
       case (if wr_process p \<noteq> 0 then
               case wp_exit_code U (wr_process p) w3 of (code, w4) \<Rightarrow>
                 (case code of None \<Rightarrow> -1 | Some c \<Rightarrow> c, wp_close U (wr_process p) w4)
             else (wr_exit_code p, w3)) of (code, w5) \<Rightarrow>
         Ret (s\<lparr>wq_world := w5,
           wq_proc := p\<lparr>wr_thread := 0, wr_stdin := 0, wr_output := 0, wr_process := 0, wr_exit_code := code,
                       wr_start_event := False, wr_stop_event := False, wr_state := STATE_STOPPED\<rparr>\<rparr>))"

definition win_running :: "'w winproc_state \<Rightarrow> bool" where
  "win_running s \<longleftrightarrow> wr_state (wq_proc s) = STATE_RUNNING"

section \<open>The listening thread\<close>

text \<open>\<open>read_output\<close> reads what there is, 127 bytes at a time; it answers whether the pipe is still open.\<close>

definition deliver_output :: "byte list \<Rightarrow> win_process \<Rightarrow> win_process" where
  "deliver_output bs p = (case split_blocks (wr_delims p) (wr_block p) (chars_of bs) of (blocks, buf) \<Rightarrow>
     p\<lparr>wr_block := buf, wr_events := wr_events p @ (if wr_invalid_inheritor p then [] else map Event_output blocks)\<rparr>)"

fun read_output :: "'w winproc_os \<Rightarrow> nat \<Rightarrow> int \<Rightarrow> 'w winproc_state \<Rightarrow> (bool \<times> 'w winproc_state) outcome" where
  "read_output U 0 h s = Fuel"
| "read_output U (Suc n) h s = (case wp_peek U h (wq_world s) of
       (None, w1) \<Rightarrow> Ret (False, s\<lparr>wq_world := w1\<rparr>)
     | (Some avail, w1) \<Rightarrow>
         if avail = 0 then Ret (True, s\<lparr>wq_world := w1\<rparr>)
         else case wp_read U h (min avail (of_nat (READ_BUFFER_SIZE - 1))) w1 of
             (None, w2) \<Rightarrow> Ret (False, s\<lparr>wq_world := w2\<rparr>)
           | (Some bs, w2) \<Rightarrow>
               if bs = [] then Ret (False, s\<lparr>wq_world := w2\<rparr>)
               else read_output U n h (s\<lparr>wq_world := w2, wq_proc := deliver_output bs (wq_proc s)\<rparr>))"

definition win_listen_start :: "'w winproc_state \<Rightarrow> 'w winproc_state" where
  "win_listen_start s = s\<lparr>wq_proc := (wq_proc s)\<lparr>wr_start_event := True, wr_block := []\<rparr>\<rparr>"

text \<open>What \<^verbatim>\<open>WaitForMultipleObjects\<close> answers: the end of the child, the stop event, anything else.\<close>

datatype win_wait_result = Child_ended | Stop_requested | Nothing_yet

definition win_listen_round :: "'w winproc_os \<Rightarrow> nat \<Rightarrow> win_wait_result \<Rightarrow> 'w winproc_state \<Rightarrow> (bool \<times> 'w winproc_state) outcome" where
  "win_listen_round U fuel res s = obind (read_output U fuel (wr_output (wq_proc s)) s) (\<lambda>(alive, s1).
     if \<not> alive then Ret (False, s1)
     else case res of
         Child_ended \<Rightarrow> obind (read_output U fuel (wr_output (wq_proc s1)) s1) (\<lambda>(_, s2). Ret (False, s2))
       | Stop_requested \<Rightarrow> Ret (False, s1)
       | Nothing_yet \<Rightarrow> Ret (True, s1))"

text \<open>The thread calls \<open>close\<close>, releases \<open>mutex_exec_\<close>, and only then reports the end.\<close>

definition win_listen_notify :: "'w winproc_state \<Rightarrow> 'w winproc_state" where
  "win_listen_notify s = (if wr_invalid_inheritor (wq_proc s) then s
     else s\<lparr>wq_proc := (wq_proc s)\<lparr>wr_events := wr_events (wq_proc s) @ [Event_finished]\<rparr>\<rparr>)"

section \<open>Creating a process\<close>

definition close_all :: "'w winproc_os \<Rightarrow> int list \<Rightarrow> 'w \<Rightarrow> 'w" where
  "close_all U hs w = fold (wp_close U) hs w"

text \<open>
  The pipes: the handles for the child (input, output, error), or nothing when a call fails. The ends
  of the object are set as soon as they are there.
\<close>

definition win_open_pipes :: "'w winproc_os \<Rightarrow> 'w winproc_state \<Rightarrow> (int \<times> int \<times> int) option \<times> 'w winproc_state" where
  "win_open_pipes U s =
     (case wp_pipe U (wq_world s) of (None, w1) \<Rightarrow> (None, s\<lparr>wq_world := w1\<rparr>)
     | (Some (out_read, out_write), w1) \<Rightarrow>
     (case wp_duplicate U out_write True w1 of
        (None, w2) \<Rightarrow> (None, s\<lparr>wq_world := close_all U [out_read, out_write] w2\<rparr>)
     | (Some err_write, w2) \<Rightarrow>
     (case wp_pipe U w2 of
        (None, w3) \<Rightarrow> (None, s\<lparr>wq_world := close_all U [out_read, out_write, err_write] w3\<rparr>)
     | (Some (in_read, in_write), w3) \<Rightarrow>
     (case wp_duplicate U out_read False w3 of
        (None, w4) \<Rightarrow> (None, s\<lparr>wq_world := close_all U [out_read, out_write, err_write, in_write, in_read] w4\<rparr>)
     | (Some outp, w4) \<Rightarrow> (let s4 = s\<lparr>wq_proc := (wq_proc s)\<lparr>wr_output := outp\<rparr>\<rparr> in
          case wp_duplicate U in_write False w4 of
            (None, w5) \<Rightarrow> (None,
              s4\<lparr>wq_world := close_all U [out_read, out_write, err_write, in_write, in_read, outp] w5\<rparr>)
          | (Some inp, w5) \<Rightarrow> (Some (in_read, out_write, err_write),
              s4\<lparr>wq_proc := (wq_proc s4)\<lparr>wr_stdin := inp\<rparr>, wq_world := close_all U [out_read, in_write] w5\<rparr>))))))"

text \<open>
  The child. When \<^verbatim>\<open>CreateProcess\<close> fails, the two handles are read from a structure that was never
  initialised.
\<close>

definition win_spawn :: "'w winproc_os \<Rightarrow> string \<Rightarrow> int \<times> int \<times> int \<Rightarrow> 'w winproc_state \<Rightarrow> 'w winproc_state outcome" where
  "win_spawn U cmd_line ends s = (case ends of (in_read, out_write, err_write) \<Rightarrow>
     case wp_create_process U cmd_line in_read out_write err_write (wq_world s) of
       (None, w1) \<Rightarrow> Undef
     | (Some (process, thread), w1) \<Rightarrow> Ret (s\<lparr>wq_proc := (wq_proc s)\<lparr>wr_process := process\<rparr>,
         wq_world := close_all U [in_read, out_write, err_write] (win_close_handle U thread w1)\<rparr>))"

text \<open>
  \<open>create\<close> up to the new thread, which can run from then on: its handle, or nothing when \<open>create\<close> has
  answered false.
\<close>

definition win_create_begin :: "'w winproc_os \<Rightarrow> bool \<Rightarrow> string \<Rightarrow> 'w winproc_state \<Rightarrow> (int option \<times> 'w winproc_state) outcome" where
  "win_create_begin U thread_ended cmd_line s =
     (if win_running s then Ret (None, s)
      else obind (win_process_close U False thread_ended s) (\<lambda>s1. case win_open_pipes U s1 of
          (None, s2) \<Rightarrow> Ret (None, s2)
        | (Some ends, s2) \<Rightarrow> obind (win_spawn U cmd_line ends s2) (\<lambda>s3.
            case wp_create_thread U (wq_world s3) of (thread, w4) \<Rightarrow>
              let s4 = s3\<lparr>wq_world := w4\<rparr> in
              if thread = 0 then
                obind (win_process_close U False thread_ended (s4\<lparr>wq_proc := (wq_proc s4)\<lparr>wr_thread := 0\<rparr>\<rparr>))
                  (\<lambda>s5. Ret (None, s5))
              else Ret (Some thread, s4))))"

text \<open>The two assignments that follow, before the wait for the start event.\<close>

definition win_create_assign :: "int \<Rightarrow> 'w winproc_state \<Rightarrow> 'w winproc_state" where
  "win_create_assign thread s = s\<lparr>wq_proc := (wq_proc s)\<lparr>wr_thread := thread\<rparr>\<rparr>"

definition win_create_running :: "'w winproc_state \<Rightarrow> 'w winproc_state" where
  "win_create_running s = s\<lparr>wq_proc := (wq_proc s)\<lparr>wr_state := STATE_RUNNING\<rparr>\<rparr>"

section \<open>The other operations\<close>

text \<open>
  \<open>wait\<close>: whether there is a thread to wait for, and, with what the wait for it has answered, the rest,
  which sleeps as long as the process counts as running.
\<close>

definition win_process_wait :: "'w winproc_state \<Rightarrow> bool" where
  "win_process_wait s \<longleftrightarrow> wr_thread (wq_proc s) \<noteq> 0 \<and> win_running s"

definition win_process_waited :: "bool \<Rightarrow> 'w winproc_state \<Rightarrow> bool outcome" where
  "win_process_waited failed s =
     (if failed then Ret False else if wr_state (wq_proc s) = STATE_STOPPED then Ret True else Fuel)"

definition win_kill :: "'w winproc_os \<Rightarrow> 'w winproc_state \<Rightarrow> bool \<times> 'w winproc_state" where
  "win_kill U s =
     (if wr_process (wq_proc s) = 0 \<or> \<not> win_running s then (False, s)
      else case wp_terminate U (wr_process (wq_proc s)) (wq_world s) of (ok, w') \<Rightarrow> (ok, s\<lparr>wq_world := w'\<rparr>))"

definition win_add_block_delim :: "char \<Rightarrow> win_process \<Rightarrow> win_process" where
  "win_add_block_delim delim p = p\<lparr>wr_delims := insert delim (wr_delims p)\<rparr>"

definition win_remove_block_delim :: "char \<Rightarrow> win_process \<Rightarrow> win_process" where
  "win_remove_block_delim delim p = p\<lparr>wr_delims := wr_delims p - {delim}\<rparr>"

text \<open>\<open>write\<close> sleeps until the process is running.\<close>

definition win_process_write :: "'w winproc_os \<Rightarrow> byte list \<Rightarrow> 'w winproc_state \<Rightarrow> (int \<times> 'w winproc_state) outcome" where
  "win_process_write U bs s =
     (if \<not> win_running s then Fuel
      else case wp_write U (wr_stdin (wq_proc s)) bs (wq_world s) of (written, w') \<Rightarrow> Ret (uint written, s\<lparr>wq_world := w'\<rparr>))"

definition win_exit_code :: "'w winproc_state \<Rightarrow> u32 option" where
  "win_exit_code s = (if win_running s then None else Some (wr_exit_code (wq_proc s)))"

text \<open>The destructor waits for \<open>mutex_exec_\<close>, which the listening thread holds while it listens.\<close>

definition win_process_destroy :: "'w winproc_os \<Rightarrow> bool \<Rightarrow> bool \<Rightarrow> 'w winproc_state \<Rightarrow> 'w winproc_state outcome" where
  "win_process_destroy U listening thread_ended s =
     (if listening then Fuel else win_process_close U False thread_ended s)"

section \<open>Executions\<close>

datatype win_main_pc = Wmain_idle | Wmain_created int | Wmain_assigned | Wmain_waiting | Wmain_destroyed

datatype win_listen_pc = Wlisten_none | Wlisten_new | Wlisten_loop | Wlisten_finish | Wlisten_notify

type_synonym 'w win_proc_run = "'w winproc_state \<times> win_main_pc \<times> win_listen_pc"

abbreviation win_listening :: "win_listen_pc \<Rightarrow> bool" where
  "win_listening l \<equiv> l = Wlisten_loop \<or> l = Wlisten_finish"

text \<open>
  A \<open>create\<close> that gets to a second thread while the first is still reporting its end is left out. The
  stop event is only ever set inside \<open>close\<close>, so the thread does not see it.
\<close>

inductive win_proc_step :: "'w winproc_os \<Rightarrow> 'w win_proc_run \<Rightarrow> 'w win_proc_run \<Rightarrow> bool" for U where
  win_create_fails: "win_create_begin U (l = Wlisten_none) cmd s = Ret (None, s') \<Longrightarrow>
    win_proc_step U (s, Wmain_idle, l) (s', Wmain_idle, l)"
| win_create_starts: "win_create_begin U True cmd s = Ret (Some h, s') \<Longrightarrow>
    win_proc_step U (s, Wmain_idle, Wlisten_none) (s', Wmain_created h, Wlisten_new)"
| win_create_assigns: "win_proc_step U (s, Wmain_created h, l) (win_create_assign h s, Wmain_assigned, l)"
| win_create_runs: "win_proc_step U (s, Wmain_assigned, l) (win_create_running s, Wmain_waiting, l)"
| win_create_returns: "wr_start_event (wq_proc s) \<Longrightarrow> win_proc_step U (s, Wmain_waiting, l) (s, Wmain_idle, l)"
| win_listen_starts: "win_proc_step U (s, m, Wlisten_new) (win_listen_start s, m, Wlisten_loop)"
| win_listen_rounds: "win_listen_round U fuel res s = Ret (go_on, s') \<Longrightarrow> res \<noteq> Stop_requested \<Longrightarrow>
    win_proc_step U (s, m, Wlisten_loop) (s', m, if go_on then Wlisten_loop else Wlisten_finish)"
| win_listen_closes: "win_process_close U True False s = Ret s' \<Longrightarrow>
    win_proc_step U (s, m, Wlisten_finish) (s', m, Wlisten_notify)"
| win_listen_notifies: "m \<noteq> Wmain_destroyed \<Longrightarrow>
    win_proc_step U (s, m, Wlisten_notify) (win_listen_notify s, m, Wlisten_none)"
| win_kills: "win_kill U s = (r, s') \<Longrightarrow> win_proc_step U (s, Wmain_idle, l) (s', Wmain_idle, l)"
| win_writes: "win_process_write U bs s = Ret (r, s') \<Longrightarrow> win_proc_step U (s, Wmain_idle, l) (s', Wmain_idle, l)"
| win_destroys: "win_process_destroy U (win_listening l) (l = Wlisten_none) s = Ret s' \<Longrightarrow>
    win_proc_step U (s, Wmain_idle, l) (s', Wmain_destroyed, l)"

inductive_cases win_proc_stepE: "win_proc_step U r r'"

section \<open>Handles\<close>

text \<open>
  \<open>H w\<close> are the handles that are open. A call that succeeds opens new ones, different from each other
  and from 0; one that fails opens none.
\<close>

definition win_fresh :: "int set \<Rightarrow> int list \<Rightarrow> int set \<Rightarrow> bool" where
  "win_fresh A hs B \<longleftrightarrow> distinct hs \<and> 0 \<notin> set hs \<and> set hs \<inter> A = {} \<and> B = A \<union> set hs"

definition win_handles :: "'w winproc_os \<Rightarrow> ('w \<Rightarrow> int set) \<Rightarrow> bool" where
  "win_handles U H \<longleftrightarrow>
     (\<forall>w h. H (wp_close U h w) = H w - {h}) \<and>
     (\<forall>w. case wp_pipe U w of (None, w') \<Rightarrow> H w' = H w | (Some (a, b), w') \<Rightarrow> win_fresh (H w) [a, b] (H w')) \<and>
     (\<forall>w h i. case wp_duplicate U h i w of (None, w') \<Rightarrow> H w' = H w | (Some a, w') \<Rightarrow> win_fresh (H w) [a] (H w')) \<and>
     (\<forall>w c a b d p t w'. wp_create_process U c a b d w = (Some (p, t), w') \<longrightarrow> win_fresh (H w) [p, t] (H w')) \<and>
     (\<forall>w. case wp_create_thread U w of (t, w') \<Rightarrow> if t = 0 then H w' = H w else win_fresh (H w) [t] (H w')) \<and>
     (\<forall>w h. H (snd (wp_exit_code U h w)) = H w)"

definition owned_handles :: "win_process \<Rightarrow> int set" where
  "owned_handles p = {wr_thread p, wr_stdin p, wr_output p, wr_process p} - {0}"

lemma win_handlesD:
  assumes "win_handles U H"
  shows "H (wp_close U h w) = H w - {h}"
    and "wp_pipe U w = (None, w') \<Longrightarrow> H w' = H w"
    and "wp_pipe U w = (Some (a, b), w') \<Longrightarrow> win_fresh (H w) [a, b] (H w')"
    and "wp_duplicate U h i w = (None, w') \<Longrightarrow> H w' = H w"
    and "wp_duplicate U h i w = (Some a, w') \<Longrightarrow> win_fresh (H w) [a] (H w')"
    and "wp_create_process U c a b d w = (Some (p, t), w') \<Longrightarrow> win_fresh (H w) [p, t] (H w')"
    and "wp_create_thread U w = (0, w') \<Longrightarrow> H w' = H w"
    and "wp_create_thread U w = (t, w') \<Longrightarrow> t \<noteq> 0 \<Longrightarrow> win_fresh (H w) [t] (H w')"
    and "wp_exit_code U h w = (code, w') \<Longrightarrow> H w' = H w"
proof -
  show "H (wp_close U h w) = H w - {h}" using assms by (simp add: win_handles_def)
  have "case wp_pipe U w of (None, w') \<Rightarrow> H w' = H w | (Some (a, b), w') \<Rightarrow> win_fresh (H w) [a, b] (H w')"
    using assms by (simp add: win_handles_def)
  then show "wp_pipe U w = (None, w') \<Longrightarrow> H w' = H w" "wp_pipe U w = (Some (a, b), w') \<Longrightarrow> win_fresh (H w) [a, b] (H w')"
    by simp_all
  have "case wp_duplicate U h i w of (None, w') \<Rightarrow> H w' = H w | (Some a, w') \<Rightarrow> win_fresh (H w) [a] (H w')"
    using assms by (simp add: win_handles_def)
  then show "wp_duplicate U h i w = (None, w') \<Longrightarrow> H w' = H w" "wp_duplicate U h i w = (Some a, w') \<Longrightarrow> win_fresh (H w) [a] (H w')"
    by simp_all
  show "wp_create_process U c a b d w = (Some (p, t), w') \<Longrightarrow> win_fresh (H w) [p, t] (H w')"
    using assms by (simp add: win_handles_def)
  have "case wp_create_thread U w of (t, w') \<Rightarrow> if t = 0 then H w' = H w else win_fresh (H w) [t] (H w')"
    using assms by (simp add: win_handles_def)
  then show "wp_create_thread U w = (0, w') \<Longrightarrow> H w' = H w" "wp_create_thread U w = (t, w') \<Longrightarrow> t \<noteq> 0 \<Longrightarrow> win_fresh (H w) [t] (H w')"
    by simp_all
  have "H (snd (wp_exit_code U h w)) = H w" using assms by (simp add: win_handles_def)
  then show "wp_exit_code U h w = (code, w') \<Longrightarrow> H w' = H w" by simp
qed

lemma close_handle_handles: "win_handles U H \<Longrightarrow> H (win_close_handle U h w) = H w - ({h} - {0})"
  by (auto simp: win_close_handle_def win_handlesD(1))

lemma close_all_handles: "win_handles U H \<Longrightarrow> H (close_all U hs w) = H w - set hs"
  by (induction hs arbitrary: w) (auto simp: close_all_def win_handlesD(1))

lemma win_process_close_handles:
  assumes "win_handles U H" "win_process_close U listener thread_ended s = Ret s'"
  shows "H (wq_world s') = H (wq_world s) - owned_handles (wq_proc s)" "owned_handles (wq_proc s') = {}"
    "wr_thread (wq_proc s') = 0" "\<not> win_running s'"
proof -
  define p where "p = wq_proc s"
  define w3 where "w3 = fold (win_close_handle U) [wr_thread p, wr_stdin p, wr_output p] (wq_world s)"
  have w3: "H w3 = H (wq_world s) - ({wr_thread p, wr_stdin p, wr_output p} - {0})"
    using assms(1) by (auto simp: w3_def close_handle_handles)
  obtain code w5 where w5: "(if wr_process p \<noteq> 0 then
               case wp_exit_code U (wr_process p) w3 of (code, w4) \<Rightarrow>
                 (case code of None \<Rightarrow> -1 | Some c \<Rightarrow> c, wp_close U (wr_process p) w4)
             else (wr_exit_code p, w3)) = (code, w5)" by fastforce
  have H5: "H w5 = H w3 - ({wr_process p} - {0})"
    using w5 by (auto simp: win_handlesD(1) [OF assms(1)] split: if_splits prod.splits dest: win_handlesD(9) [OF assms(1)])
  have s': "s' = s\<lparr>wq_world := w5,
           wq_proc := p\<lparr>wr_thread := 0, wr_stdin := 0, wr_output := 0, wr_process := 0, wr_exit_code := code,
                       wr_start_event := False, wr_stop_event := False, wr_state := STATE_STOPPED\<rparr>\<rparr>"
    using assms(2) w5 unfolding win_process_close_def Let_def p_def [symmetric] w3_def [symmetric]
    by (simp split: if_splits)
  show "H (wq_world s') = H (wq_world s) - owned_handles (wq_proc s)"
    by (auto simp: s' H5 w3 owned_handles_def p_def)
  show "owned_handles (wq_proc s') = {}" "wr_thread (wq_proc s') = 0" "\<not> win_running s'"
    by (simp_all add: s' owned_handles_def win_running_def)
qed

lemma win_fresh_drop: "win_fresh A (xs @ ys) B \<Longrightarrow> win_fresh A ys (B - set xs)"
  by (auto simp: win_fresh_def)

lemma win_fresh_append: "win_fresh A xs B \<Longrightarrow> win_fresh B ys C \<Longrightarrow> win_fresh A (xs @ ys) C"
  by (auto simp: win_fresh_def)

lemma fresh_closed: "win_fresh A xs B \<Longrightarrow> set hs = set xs \<Longrightarrow> B - set hs = A"
  by (auto simp: win_fresh_def)

lemma fresh_close_some:
  "win_fresh A xs B \<Longrightarrow> set xs = set hs \<union> set keep \<Longrightarrow> set hs \<inter> set keep = {} \<Longrightarrow> distinct keep \<Longrightarrow> win_fresh A keep (B - set hs)"
  by (auto simp: win_fresh_def)

text \<open>The ways through \<open>win_open_pipes\<close>: each of its five calls can fail. Six handles can be open after it, three of
  them for the child only.\<close>

lemma win_open_pipes_cases:
  assumes "win_open_pipes U s = (ends, s')"
  obtains (pipe1) w1 where "wp_pipe U (wq_world s) = (None, w1)" "ends = None" "wq_world s' = w1"
  | (error) a b w1 w2 where "wp_pipe U (wq_world s) = (Some (a, b), w1)" "wp_duplicate U b True w1 = (None, w2)"
      "ends = None" "wq_world s' = close_all U [a, b] w2"
  | (pipe2) a b w1 c w2 w3 where "wp_pipe U (wq_world s) = (Some (a, b), w1)" "wp_duplicate U b True w1 = (Some c, w2)"
      "wp_pipe U w2 = (None, w3)" "ends = None" "wq_world s' = close_all U [a, b, c] w3"
  | (outp) a b w1 c w2 d e w3 w4 where "wp_pipe U (wq_world s) = (Some (a, b), w1)" "wp_duplicate U b True w1 = (Some c, w2)"
      "wp_pipe U w2 = (Some (d, e), w3)" "wp_duplicate U a False w3 = (None, w4)"
      "ends = None" "wq_world s' = close_all U [a, b, c, e, d] w4"
  | (inp) a b w1 c w2 d e w3 x w4 w5 where "wp_pipe U (wq_world s) = (Some (a, b), w1)" "wp_duplicate U b True w1 = (Some c, w2)"
      "wp_pipe U w2 = (Some (d, e), w3)" "wp_duplicate U a False w3 = (Some x, w4)" "wp_duplicate U e False w4 = (None, w5)"
      "ends = None" "wq_world s' = close_all U [a, b, c, e, d, x] w5"
  | (ok) a b w1 c w2 d e w3 x w4 y w5 where "wp_pipe U (wq_world s) = (Some (a, b), w1)" "wp_duplicate U b True w1 = (Some c, w2)"
      "wp_pipe U w2 = (Some (d, e), w3)" "wp_duplicate U a False w3 = (Some x, w4)" "wp_duplicate U e False w4 = (Some y, w5)"
      "ends = Some (d, b, c)" "wq_world s' = close_all U [a, e] w5" "wr_output (wq_proc s') = x" "wr_stdin (wq_proc s') = y"
  using assms unfolding win_open_pipes_def Let_def
  by (auto split: prod.splits option.splits intro: that)

lemma win_open_pipes_keeps:
  "win_open_pipes U s = (ends, s') \<Longrightarrow> wr_thread (wq_proc s') = wr_thread (wq_proc s)"
  "win_open_pipes U s = (ends, s') \<Longrightarrow> wr_process (wq_proc s') = wr_process (wq_proc s)"
  by (auto simp: win_open_pipes_def Let_def split: prod.splits option.splits)

lemma win_open_pipes_handles:
  assumes "win_handles U H" "win_open_pipes U s = (ends, s')"
  shows "ends = None \<Longrightarrow> H (wq_world s') = H (wq_world s)"
    and "ends = Some (i, out, err) \<Longrightarrow>
      win_fresh (H (wq_world s)) [i, out, err, wr_output (wq_proc s'), wr_stdin (wq_proc s')] (H (wq_world s'))"
proof -
  note D = win_handlesD [OF assms(1)] and C = close_all_handles [OF assms(1)]
  let ?A = "H (wq_world s)"
  have "(ends = None \<longrightarrow> H (wq_world s') = ?A) \<and> (\<forall>i out err. ends = Some (i, out, err) \<longrightarrow>
      win_fresh ?A [i, out, err, wr_output (wq_proc s'), wr_stdin (wq_proc s')] (H (wq_world s')))"
    using assms(2)
  proof (cases rule: win_open_pipes_cases)
    case (pipe1 w1)
    then show ?thesis using D(2) by simp
  next
    case (error a b w1 w2)
    have "H w2 = H w1" "win_fresh ?A [a, b] (H w1)" using D(3,4) error by blast+
    then show ?thesis using fresh_closed [of ?A "[a, b]" "H w1" "[a, b]"] error by (simp add: C)
  next
    case (pipe2 a b w1 c w2 w3)
    have "win_fresh ?A [a, b, c] (H w2)"
      using win_fresh_append [OF D(3) [OF pipe2(1)] D(5) [OF pipe2(2)]] by simp
    moreover have "H w3 = H w2" using D(2) pipe2 by blast
    ultimately show ?thesis using fresh_closed [of ?A "[a, b, c]" "H w2" "[a, b, c]"] pipe2 by (auto simp: C)
  next
    case (outp a b w1 c w2 d e w3 w4)
    have "win_fresh ?A [a, b, c, d, e] (H w3)"
      using win_fresh_append [OF win_fresh_append [OF D(3) [OF outp(1)] D(5) [OF outp(2)]] D(3) [OF outp(3)]] by simp
    moreover have "H w4 = H w3" using D(4) outp by blast
    ultimately show ?thesis using fresh_closed [of ?A "[a, b, c, d, e]" "H w3" "[a, b, c, e, d]"] outp by (auto simp: C)
  next
    case (inp a b w1 c w2 d e w3 x w4 w5)
    have "win_fresh ?A [a, b, c, d, e, x] (H w4)"
      using win_fresh_append [OF win_fresh_append [OF win_fresh_append [OF D(3) [OF inp(1)] D(5) [OF inp(2)]] D(3) [OF inp(3)]] D(5) [OF inp(4)]] by simp
    moreover have "H w5 = H w4" using D(4) inp by blast
    ultimately show ?thesis using fresh_closed [of ?A "[a, b, c, d, e, x]" "H w4" "[a, b, c, e, d, x]"] inp by (auto simp: C)
  next
    case (ok a b w1 c w2 d e w3 x w4 y w5)
    have f: "win_fresh ?A [a, b, c, d, e, x, y] (H w5)"
      using win_fresh_append [OF win_fresh_append [OF win_fresh_append [OF win_fresh_append [OF D(3) [OF ok(1)] D(5) [OF ok(2)]] D(3) [OF ok(3)]]
        D(5) [OF ok(4)]] D(5) [OF ok(5)]] by simp
    then have "distinct [a, b, c, d, e, x, y]" by (simp only: win_fresh_def)
    then have "set [a, e] \<inter> set [d, b, c, x, y] = {}" "distinct [d, b, c, x, y]" by auto
    from fresh_close_some [OF f _ this] show ?thesis using ok by (auto simp: C)
  qed
  then show "ends = None \<Longrightarrow> H (wq_world s') = H (wq_world s)"
    "ends = Some (i, out, err) \<Longrightarrow>
      win_fresh (H (wq_world s)) [i, out, err, wr_output (wq_proc s'), wr_stdin (wq_proc s')] (H (wq_world s'))"
    by simp_all
qed

lemma win_spawn_handles:
  assumes "win_handles U H" "win_spawn U cmd (i, out, err) s = Ret s'" "{i, out, err} \<subseteq> H (wq_world s)"
  shows "wr_process (wq_proc s') \<notin> H (wq_world s)" "wr_process (wq_proc s') \<noteq> 0"
    "H (wq_world s') = insert (wr_process (wq_proc s')) (H (wq_world s) - {i, out, err})"
    "wr_thread (wq_proc s') = wr_thread (wq_proc s)" "wr_stdin (wq_proc s') = wr_stdin (wq_proc s)"
    "wr_output (wq_proc s') = wr_output (wq_proc s)"
proof -
  obtain pr t w1 where c: "wp_create_process U cmd i out err (wq_world s) = (Some (pr, t), w1)"
    and s': "s' = s\<lparr>wq_proc := (wq_proc s)\<lparr>wr_process := pr\<rparr>,
         wq_world := close_all U [i, out, err] (win_close_handle U t w1)\<rparr>"
    using assms(2) by (auto simp: win_spawn_def split: prod.splits option.splits)
  have f: "win_fresh (H (wq_world s)) [pr, t] (H w1)" using c by (rule win_handlesD(6) [OF assms(1)])
  show "wr_process (wq_proc s') \<notin> H (wq_world s)" "wr_process (wq_proc s') \<noteq> 0"
    using f by (auto simp: s' win_fresh_def)
  show "H (wq_world s') = insert (wr_process (wq_proc s')) (H (wq_world s) - {i, out, err})"
    using f assms(3) by (auto simp: s' win_fresh_def close_all_handles [OF assms(1)] close_handle_handles [OF assms(1)])
  show "wr_thread (wq_proc s') = wr_thread (wq_proc s)" "wr_stdin (wq_proc s') = wr_stdin (wq_proc s)"
    "wr_output (wq_proc s') = wr_output (wq_proc s)" by (simp_all add: s')
qed

lemma win_create_begin_handles:
  assumes U: "win_handles U H" and c: "win_create_begin U e cmd s = Ret (r, s')" and n: "\<not> win_running s"
  defines "A \<equiv> H (wq_world s) - owned_handles (wq_proc s)"
  shows "case r of None \<Rightarrow> H (wq_world s') = A
    | Some h \<Rightarrow> wr_thread (wq_proc s') = 0 \<and>
        win_fresh A [wr_output (wq_proc s'), wr_stdin (wq_proc s'), wr_process (wq_proc s'), h] (H (wq_world s'))"
proof -
  obtain s1 where s1: "win_process_close U False e s = Ret s1"
    using c n by (auto simp: win_create_begin_def obind_Ret_eq)
  have A: "H (wq_world s1) = A" "owned_handles (wq_proc s1) = {}" "wr_thread (wq_proc s1) = 0"
    using win_process_close_handles [OF U s1] by (simp_all add: A_def)
  obtain ends s2 where o: "win_open_pipes U s1 = (ends, s2)" by fastforce
  note O = win_open_pipes_handles [OF U o]
  show ?thesis
  proof (cases ends)
    case None
    then have "r = None" "s' = s2" using c n s1 o by (simp_all add: win_create_begin_def)
    then show ?thesis using O(1) None A(1) by simp
  next
    case (Some x)
    obtain i out err where x: "x = (i, out, err)" by (cases x) auto
    have f: "win_fresh A [i, out, err, wr_output (wq_proc s2), wr_stdin (wq_proc s2)] (H (wq_world s2))"
      using O(2) Some x A(1) by simp
    then have child: "{i, out, err} \<subseteq> H (wq_world s2)" by (auto simp: win_fresh_def)
    obtain s3 where s3: "win_spawn U cmd (i, out, err) s2 = Ret s3"
      using c n s1 o Some x by (auto simp: win_create_begin_def obind_Ret_eq)
    note S = win_spawn_handles [OF U s3 child]
    have "win_fresh A [wr_output (wq_proc s3), wr_stdin (wq_proc s3)] (H (wq_world s2) - {i, out, err})"
      using win_fresh_drop [of A "[i, out, err]" "[wr_output (wq_proc s2), wr_stdin (wq_proc s2)]"] f S(5,6) by simp
    moreover have "win_fresh (H (wq_world s2) - {i, out, err}) [wr_process (wq_proc s3)] (H (wq_world s3))"
      using S(1,2,3) by (auto simp: win_fresh_def)
    ultimately have f3: "win_fresh A [wr_output (wq_proc s3), wr_stdin (wq_proc s3), wr_process (wq_proc s3)] (H (wq_world s3))"
      by (auto dest: win_fresh_append)
    have t3: "wr_thread (wq_proc s3) = 0" using S(4) win_open_pipes_keeps(1) [OF o] A(3) by simp
    obtain h w4 where t: "wp_create_thread U (wq_world s3) = (h, w4)" by fastforce
    show ?thesis
    proof (cases "h = 0")
      case True
      let ?s4 = "s3\<lparr>wq_world := w4, wq_proc := (wq_proc s3)\<lparr>wr_thread := 0\<rparr>\<rparr>"
      obtain s5 where s5: "win_process_close U False e ?s4 = Ret s5" and r: "r = None" "s' = s5"
        using c n s1 o Some x s3 t True by (auto simp: win_create_begin_def obind_Ret_eq)
      have "H w4 = H (wq_world s3)" using t True win_handlesD(7) [OF U] by simp
      then show ?thesis using win_process_close_handles(1) [OF U s5] f3 r
        by (auto simp: owned_handles_def win_fresh_def)
    next
      case False
      then have "r = Some h" "s' = s3\<lparr>wq_world := w4\<rparr>"
        using c n s1 o Some x s3 t by (auto simp: win_create_begin_def Let_def)
      moreover have "win_fresh (H (wq_world s3)) [h] (H w4)" using t False by (rule win_handlesD(8) [OF U])
      ultimately show ?thesis using win_fresh_append [OF f3] t3 by fastforce
    qed
  qed
qed


text \<open>A system for the examples: its state are the open handles; every call succeeds, but the pipe of a child that has
  ended cannot be read.\<close>

definition new_handle :: "int list \<Rightarrow> int" where
  "new_handle hs = 1 + sum_list (map abs hs)"

lemma new_handle: "0 < new_handle hs" "h \<in> set hs \<Longrightarrow> h < new_handle hs"
proof -
  have n: "0 \<le> sum_list (map abs hs)" for hs :: "int list" by (induction hs) auto
  then show "0 < new_handle hs" by (simp add: new_handle_def add_pos_nonneg)
  have "h \<in> set hs \<Longrightarrow> h \<le> sum_list (map abs hs)"
  proof (induction hs)
    case (Cons x hs)
    then show ?case using n [of hs] by auto
  qed simp
  then show "h \<in> set hs \<Longrightarrow> h < new_handle hs" by (simp add: new_handle_def)
qed

definition handle_os :: "int list winproc_os" where
  "handle_os = \<lparr>wp_pipe = (\<lambda>hs. let h = new_handle hs in (Some (h, h + 1), (h + 1) # h # hs)),
     wp_duplicate = (\<lambda>h i hs. (Some (new_handle hs), new_handle hs # hs)),
     wp_close = (\<lambda>h hs. removeAll h hs),
     wp_create_process = (\<lambda>c i out err hs. let h = new_handle hs in (Some (h, h + 1), (h + 1) # h # hs)),
     wp_create_thread = (\<lambda>hs. (new_handle hs, new_handle hs # hs)),
     wp_exit_code = (\<lambda>h hs. (Some 7, hs)), wp_terminate = (\<lambda>h hs. (True, hs)),
     wp_peek = (\<lambda>h hs. (None, hs)), wp_read = (\<lambda>h n hs. (None, hs)), wp_write = (\<lambda>h bs hs. (0, hs))\<rparr>"

lemma handle_os_handles: "win_handles handle_os set"
proof -
  have f: "win_fresh (set hs) [new_handle hs] (set (new_handle hs # hs))"
    "win_fresh (set hs) [new_handle hs, new_handle hs + 1] (set ((new_handle hs + 1) # new_handle hs # hs))" for hs
    using new_handle(2) [of _ hs] new_handle(1) [of hs] by (force simp: win_fresh_def)+
  show ?thesis
    using f new_handle(1) [THEN less_imp_neq] by (auto simp: win_handles_def handle_os_def Let_def)
qed


definition fresh_process :: "int list winproc_state" where
  "fresh_process = \<lparr>wq_proc = win_Process, wq_world = []\<rparr>"

lemma fresh_process_create:
  "case win_create_begin handle_os True ''a'' fresh_process of Ret (r, s') \<Rightarrow> r = Some 166 \<and>
     wq_world s' = [166, 90, 50, 25] \<and> wr_output (wq_proc s') = 25 | _ \<Rightarrow> False"
  by code_simp

lemma fresh_process_created:
  obtains s' where "win_create_begin handle_os True ''a'' fresh_process = Ret (Some 166, s')"
    "wq_world s' = [166, 90, 50, 25]"
  using fresh_process_create by (auto split: outcome.splits prod.splits)


text \<open>When the second end of the pipes cannot be duplicated, the object keeps the number of the handle of the first
  one, which is closed: the next \<open>close\<close> closes it again.\<close>

lemma win_create_dangling:
  assumes "wp_pipe U w = (Some (a, b), w1)" "wp_duplicate U b True w1 = (Some c, w2)"
    "wp_pipe U w2 = (Some (d, e), w3)" "wp_duplicate U a False w3 = (Some h, w4)"
    "wp_duplicate U e False w4 = (None, w5)" "win_handles U H" "wq_world s = w"
  shows "\<exists>s'. win_open_pipes U s = (None, s') \<and> wr_output (wq_proc s') = h \<and> h \<noteq> 0 \<and> h \<notin> H (wq_world s')"
  using assms(1-5,7) win_handlesD(5) [OF assms(6,4)]
  by (simp add: win_open_pipes_def close_all_handles [OF assms(6)] win_fresh_def)

section \<open>Invariants of the executions\<close>

text \<open>What the operations do to the state of the object, its thread and the start event.\<close>

abbreviation win_phase :: "win_process \<Rightarrow> proc_mode \<times> int \<times> bool" where
  "win_phase p \<equiv> (wr_state p, wr_thread p, wr_start_event p)"

lemma read_output_phase:
  "read_output U n h s = Ret (alive, s') \<Longrightarrow> win_phase (wq_proc s') = win_phase (wq_proc s)"
proof (induction U n h s rule: read_output.induct)
  case (2 U n h s)
  then show ?case
    by (auto simp: deliver_output_def split: prod.splits option.splits if_splits)
qed simp

lemma win_listen_round_phase:
  "win_listen_round U fuel res s = Ret (go_on, s') \<Longrightarrow> win_phase (wq_proc s') = win_phase (wq_proc s)"
  by (auto simp: win_listen_round_def obind_Ret_eq split: if_splits win_wait_result.splits dest!: read_output_phase)

lemma win_process_close_phase:
  "win_process_close U listener thread_ended s = Ret s' \<Longrightarrow> win_phase (wq_proc s') = (STATE_STOPPED, 0, False)"
  by (auto simp: win_process_close_def Let_def split: if_splits prod.splits)

lemma win_process_close_returns:
  "wr_thread (wq_proc s) = 0 \<Longrightarrow> \<exists>s'. win_process_close U listener thread_ended s = Ret s'"
  by (auto simp: win_process_close_def Let_def split: prod.splits)

lemma win_listener_closes: "\<exists>s'. win_process_close U True thread_ended s = Ret s'"
  by (auto simp: win_process_close_def Let_def split: prod.splits)

lemma win_open_pipes_phase:
  "win_open_pipes U s = (ends, s') \<Longrightarrow> win_phase (wq_proc s') = win_phase (wq_proc s)"
  by (auto simp: win_open_pipes_def Let_def split: prod.splits option.splits)

lemma win_spawn_phase:
  "win_spawn U cmd ends s = Ret s' \<Longrightarrow> win_phase (wq_proc s') = win_phase (wq_proc s)"
  by (auto simp: win_spawn_def split: prod.splits option.splits)

lemma win_create_begin_phase:
  assumes "win_create_begin U e cmd s = Ret (r, s')" "\<not> win_running s"
  shows "win_phase (wq_proc s') = (STATE_STOPPED, 0, False)"
proof -
  obtain s1 where s1: "win_process_close U False e s = Ret s1"
    using assms by (auto simp: win_create_begin_def obind_Ret_eq)
  have p1: "win_phase (wq_proc s1) = (STATE_STOPPED, 0, False)" using win_process_close_phase [OF s1] .
  obtain ends s2 where o: "win_open_pipes U s1 = (ends, s2)" by fastforce
  have p2: "win_phase (wq_proc s2) = (STATE_STOPPED, 0, False)" using win_open_pipes_phase [OF o] p1 by simp
  show ?thesis
  proof (cases ends)
    case None
    then show ?thesis using assms s1 o p2 by (simp add: win_create_begin_def)
  next
    case (Some x)
    obtain s3 where s3: "win_spawn U cmd x s2 = Ret s3"
      using assms s1 o Some by (auto simp: win_create_begin_def obind_Ret_eq)
    have p3: "win_phase (wq_proc s3) = (STATE_STOPPED, 0, False)" using win_spawn_phase [OF s3] p2 by simp
    obtain h w4 where t: "wp_create_thread U (wq_world s3) = (h, w4)" by fastforce
    show ?thesis
    proof (cases "h = 0")
      case True
      then have "win_process_close U False e (s3\<lparr>wq_world := w4, wq_proc := (wq_proc s3)\<lparr>wr_thread := 0\<rparr>\<rparr>) = Ret s'"
        using assms s1 o Some s3 t by (auto simp: win_create_begin_def obind_Ret_eq)
      then show ?thesis by (rule win_process_close_phase)
    next
      case False
      then have "s' = s3\<lparr>wq_world := w4\<rparr>"
        using assms s1 o Some s3 t by (simp add: win_create_begin_def Let_def)
      then show ?thesis using p3 by simp
    qed
  qed
qed

text \<open>The invariant: between two calls of the user the object counts as running exactly while its thread listens.\<close>

definition win_run_inv :: "'w win_proc_run \<Rightarrow> bool" where
  "win_run_inv r = (case r of (s, m, l) \<Rightarrow>
     (case win_phase (wq_proc s) of (st, thread, started) \<Rightarrow>
       (started \<longleftrightarrow> win_listening l) \<and>
       (case m of
          Wmain_idle \<Rightarrow> (if win_listening l then st = STATE_RUNNING else st = STATE_STOPPED \<and> thread = 0 \<and> l \<noteq> Wlisten_new)
        | Wmain_waiting \<Rightarrow> win_listening l \<or> l = Wlisten_new \<longrightarrow> st = STATE_RUNNING
        | Wmain_destroyed \<Rightarrow> l = Wlisten_none \<or> l = Wlisten_notify
        | _ \<Rightarrow> True)))"

lemma win_run_inv_step: "win_proc_step U r r' \<Longrightarrow> win_run_inv r \<Longrightarrow> win_run_inv r'"
proof (induction rule: win_proc_step.induct)
  case (win_create_fails l cmd s s')
  show ?case
  proof (cases "win_running s")
    case True
    then have "s' = s" using win_create_fails(1) by (simp add: win_create_begin_def)
    with win_create_fails show ?thesis by simp
  next
    case False
    then show ?thesis using win_create_begin_phase [OF win_create_fails(1)] win_create_fails(2)
      by (auto simp: win_run_inv_def win_running_def split: if_splits)
  qed
next
  case (win_create_starts cmd s h s')
  then have "\<not> win_running s" by (auto simp: win_create_begin_def)
  then show ?case using win_create_begin_phase [OF win_create_starts(1)] by (simp add: win_run_inv_def)
next
  case (win_create_assigns s h l)
  then show ?case by (simp add: win_run_inv_def win_create_assign_def)
next
  case (win_create_runs s l)
  then show ?case by (simp add: win_run_inv_def win_create_running_def)
next
  case (win_create_returns s l)
  then show ?case by (auto simp: win_run_inv_def)
next
  case (win_listen_starts s m)
  then show ?case by (auto simp: win_run_inv_def win_listen_start_def split: win_main_pc.splits)
next
  case (win_listen_rounds fuel res s go_on s' m)
  then show ?case using win_listen_round_phase [OF win_listen_rounds(1)]
    by (auto simp: win_run_inv_def split: win_main_pc.splits)
next
  case (win_listen_closes s s' m)
  then show ?case using win_process_close_phase [OF win_listen_closes(1)]
    by (auto simp: win_run_inv_def split: win_main_pc.splits)
next
  case (win_listen_notifies m s)
  then show ?case by (auto simp: win_run_inv_def win_listen_notify_def split: win_main_pc.splits)
next
  case (win_kills s r s' l)
  then show ?case by (auto simp: win_run_inv_def win_kill_def split: if_splits prod.splits)
next
  case (win_writes bs s r s' l)
  then show ?case by (auto simp: win_run_inv_def win_process_write_def split: if_splits prod.splits)
next
  case (win_destroys l s s')
  then have "win_process_close U False (l = Wlisten_none) s = Ret s'"
    by (simp add: win_process_destroy_def split: if_splits)
  from win_process_close_phase [OF this] win_destroys show ?case
    by (cases l) (simp_all add: win_run_inv_def win_process_destroy_def)
qed

lemma win_run_inv_reachable:
  "(win_proc_step U)\<^sup>*\<^sup>* r r' \<Longrightarrow> win_run_inv r \<Longrightarrow> win_run_inv r'"
  by (induction rule: rtranclp_induct) (blast intro: win_run_inv_step)+

lemma win_idle_inv:
  assumes "(win_proc_step U)\<^sup>*\<^sup>* (s, Wmain_idle, Wlisten_none) (s', Wmain_idle, l)" "wq_proc s = win_Process"
  shows "win_run_inv (s', Wmain_idle, l)"
proof -
  have "win_run_inv (s, Wmain_idle, Wlisten_none)" using assms(2) by (simp add: win_run_inv_def win_Process_def)
  with assms(1) show ?thesis by (rule win_run_inv_reachable)
qed

text \<open>C27: Between two calls of its user a process object counts as running exactly while its thread listens to the
  child. So \<open>create\<close> never waits in \<open>close\<close> for a thread that in turn waits for \<open>mutex_\<close>, and the destructor
  waits exactly while the thread listens.\<close>

theorem win_close_never_waits:
  assumes "(win_proc_step U)\<^sup>*\<^sup>* (s, Wmain_idle, Wlisten_none) (s', Wmain_idle, l)" "wq_proc s = win_Process"
  shows "(win_running s' \<longleftrightarrow> win_listening l) \<and> win_create_begin U (l = Wlisten_none) cmd s' \<noteq> Fuel \<and>
    (win_process_destroy U (win_listening l) (l = Wlisten_none) s' = Fuel \<longleftrightarrow> win_listening l)"
proof -
  have i: "win_run_inv (s', Wmain_idle, l)" using assms by (rule win_idle_inv)
  show ?thesis
  proof (cases "win_listening l")
    case True
    with i show ?thesis by (auto simp: win_run_inv_def win_running_def win_create_begin_def win_process_destroy_def)
  next
    case False
    then have t: "wr_thread (wq_proc s') = 0" "\<not> win_running s'"
      using i by (auto simp: win_run_inv_def win_running_def split: if_splits)
    obtain s1 where s1: "win_process_close U False (l = Wlisten_none) s' = Ret s1"
      using win_process_close_returns [OF t(1)] by blast
    have "win_process_close U False e x \<noteq> Fuel" if "wr_thread (wq_proc x) = 0" for e x
      using win_process_close_returns [OF that, of U False e] by auto
    then have "win_create_begin U (l = Wlisten_none) cmd s' \<noteq> Fuel"
      using s1 t(2) by (auto simp: win_create_begin_def obind_Fuel_eq win_spawn_def Let_def
          split: prod.splits option.splits if_splits)
    then show ?thesis using False t(2) s1 by (simp add: win_process_destroy_def)
  qed
qed

text \<open>The thread reports the end of the process when the lock that protects the object is free again: a destructor
  that has waited for it may come first.\<close>

lemma win_event_after_destroy:
  assumes "(win_proc_step U)\<^sup>*\<^sup>* (s, Wmain_idle, Wlisten_none) (s', Wmain_idle, Wlisten_notify)" "wq_proc s = win_Process"
  shows "\<exists>s''. win_proc_step U (s', Wmain_idle, Wlisten_notify) (s'', Wmain_destroyed, Wlisten_notify)"
proof -
  have "wr_thread (wq_proc s') = 0" using win_idle_inv [OF assms] by (simp add: win_run_inv_def)
  then obtain s'' where "win_process_close U False False s' = Ret s''" using win_process_close_returns by blast
  then show ?thesis by (intro exI [of _ s''] win_destroys) (simp add: win_process_destroy_def)
qed

theorem win_close_never_waits_witness:
  "\<exists>s'. (win_proc_step handle_os)\<^sup>*\<^sup>* (fresh_process, Wmain_idle, Wlisten_none) (s', Wmain_idle, Wlisten_loop) \<and>
    win_running s' \<and> win_process_destroy handle_os True False s' = Fuel"
proof -
  let ?U = handle_os
  obtain s1 where s1: "win_create_begin ?U True ''a'' fresh_process = Ret (Some 166, s1)"
    by (rule fresh_process_created)
  define s4 where "s4 = win_listen_start (win_create_running (win_create_assign 166 s1))"
  have "(win_proc_step ?U)\<^sup>*\<^sup>* (fresh_process, Wmain_idle, Wlisten_none) (s1, Wmain_created 166, Wlisten_new)"
    using win_create_starts [OF s1] by (rule r_into_rtranclp)
  also have "win_proc_step ?U (s1, Wmain_created 166, Wlisten_new) (win_create_assign 166 s1, Wmain_assigned, Wlisten_new)"
    by (rule win_create_assigns)
  also have "win_proc_step ?U (win_create_assign 166 s1, Wmain_assigned, Wlisten_new)
      (win_create_running (win_create_assign 166 s1), Wmain_waiting, Wlisten_new)"
    by (rule win_create_runs)
  also have "win_proc_step ?U (win_create_running (win_create_assign 166 s1), Wmain_waiting, Wlisten_new) (s4, Wmain_waiting, Wlisten_loop)"
    unfolding s4_def by (rule win_listen_starts)
  also have "win_proc_step ?U (s4, Wmain_waiting, Wlisten_loop) (s4, Wmain_idle, Wlisten_loop)"
    by (rule win_create_returns) (simp add: s4_def win_listen_start_def)
  finally have r: "(win_proc_step ?U)\<^sup>*\<^sup>* (fresh_process, Wmain_idle, Wlisten_none) (s4, Wmain_idle, Wlisten_loop)" .
  have "wq_proc fresh_process = win_Process" by (simp add: fresh_process_def)
  from win_close_never_waits [OF r this, of "''b''"] r show ?thesis by auto
qed

section \<open>Races\<close>

text \<open>\<open>create\<close> may never return, as on Unix: when the child has ended before the listening thread looks at the
  pipe for the first time, the thread can announce its start, close everything, which takes the
  announcement back, and end, before \<open>create\<close> stores the handle of the thread and waits for the
  announcement. The caller then waits for ever, and the object counts as running without a thread.\<close>

theorem win_create_lost_wakeup:
  assumes "win_create_begin U True cmd s = Ret (Some h, s1)"
    and "fst (wp_peek U (wr_output (wq_proc s1)) (wq_world s1)) = None"
  shows "\<exists>s'. (win_proc_step U)\<^sup>*\<^sup>* (s, Wmain_idle, Wlisten_none) (s', Wmain_waiting, Wlisten_none) \<and>
    (\<forall>r. (win_proc_step U)\<^sup>*\<^sup>* (s', Wmain_waiting, Wlisten_none) r \<longrightarrow> fst (snd r) = Wmain_waiting \<and> win_running (fst r))"
proof -
  obtain w2 where w2: "wp_peek U (wr_output (wq_proc s1)) (wq_world s1) = (None, w2)"
    using assms(2) by (metis prod.collapse)
  define s2 where "s2 = win_listen_start s1"
  define s3 where "s3 = s2\<lparr>wq_world := w2\<rparr>"
  have round: "win_listen_round U 1 Nothing_yet s2 = Ret (False, s3)"
    using w2 by (simp add: win_listen_round_def s2_def s3_def win_listen_start_def)
  obtain s4 where s4: "win_process_close U True False s3 = Ret s4"
    using win_listener_closes by blast
  define s5 where "s5 = win_listen_notify s4"
  define s6 where "s6 = win_create_running (win_create_assign h s5)"
  have "(win_proc_step U)\<^sup>*\<^sup>* (s, Wmain_idle, Wlisten_none) (s1, Wmain_created h, Wlisten_new)"
    using win_create_starts [OF assms(1)] by (rule r_into_rtranclp)
  also have "win_proc_step U (s1, Wmain_created h, Wlisten_new) (s2, Wmain_created h, Wlisten_loop)"
    unfolding s2_def by (rule win_listen_starts)
  also have "win_proc_step U (s2, Wmain_created h, Wlisten_loop) (s3, Wmain_created h, Wlisten_finish)"
    using win_listen_rounds [OF round] by simp
  also have "win_proc_step U (s3, Wmain_created h, Wlisten_finish) (s4, Wmain_created h, Wlisten_notify)"
    using s4 by (rule win_listen_closes)
  also have "win_proc_step U (s4, Wmain_created h, Wlisten_notify) (s5, Wmain_created h, Wlisten_none)"
    unfolding s5_def by (rule win_listen_notifies) simp
  also have "win_proc_step U (s5, Wmain_created h, Wlisten_none) (win_create_assign h s5, Wmain_assigned, Wlisten_none)"
    by (rule win_create_assigns)
  also have "win_proc_step U (win_create_assign h s5, Wmain_assigned, Wlisten_none) (s6, Wmain_waiting, Wlisten_none)"
    unfolding s6_def by (rule win_create_runs)
  finally have reach: "(win_proc_step U)\<^sup>*\<^sup>* (s, Wmain_idle, Wlisten_none) (s6, Wmain_waiting, Wlisten_none)" .
  have s6: "\<not> wr_start_event (wq_proc s6)" "win_running s6"
    using win_process_close_phase [OF s4]
    by (simp_all add: s6_def s5_def win_create_running_def win_create_assign_def win_listen_notify_def win_running_def)
  have "r = (s6, Wmain_waiting, Wlisten_none)"
    if "(win_proc_step U)\<^sup>*\<^sup>* (s6, Wmain_waiting, Wlisten_none) r" for r
    using that by (induction rule: rtranclp_induct) (use s6(1) in \<open>auto elim!: win_proc_stepE\<close>)
  then show ?thesis using reach s6(2) by (intro exI [of _ s6]) auto
qed

theorem win_create_lost_wakeup_witness:
  "\<exists>s'. (win_proc_step handle_os)\<^sup>*\<^sup>* (fresh_process, Wmain_idle, Wlisten_none) (s', Wmain_waiting, Wlisten_none) \<and>
    (\<forall>r. (win_proc_step handle_os)\<^sup>*\<^sup>* (s', Wmain_waiting, Wlisten_none) r \<longrightarrow>
      fst (snd r) = Wmain_waiting \<and> win_running (fst r))"
proof -
  obtain s1 where "win_create_begin handle_os True ''a'' fresh_process = Ret (Some 166, s1)"
    by (rule fresh_process_created)
  then show ?thesis by (rule win_create_lost_wakeup) (simp add: handle_os_def)
qed

end
