(* ===== verification/Windows_Text.thy ===== *)
theory Windows_Text
  imports Exceptions
begin

text \<open>
  The branches of \<^verbatim>\<open>src/string.cc\<close>, \<^verbatim>\<open>string.hh\<close>, \<^verbatim>\<open>src/convert.cc\<close> and \<^verbatim>\<open>src/exception.cc\<close> that a Windows
  build with \<^verbatim>\<open>_UNICODE\<close> compiles: \<^verbatim>\<open>tchar\<close> is a 16 bit \<open>wchar_t\<close>, an \<open>Exception2\<close> keeps its message in
  UTF-8, and the conversions go through \<^verbatim>\<open>MultiByteToWideChar\<close> and \<^verbatim>\<open>WideCharToMultiByte\<close>, which are
  parameters. A call that writes into a buffer is given the buffer and the size it is told, and answers
  its result and the buffer after it.
\<close>

section \<open>The calls of the system\<close>

datatype code_page = CP_ACP | CP_OEMCP | CP_UTF8

type_synonym ('a, 'b) convert_call = "'a list \<Rightarrow> 'b list \<Rightarrow> int \<Rightarrow> int \<times> 'b list"

record nls =
  AreFileApisANSI :: bool
  MultiByteToWideChar :: "code_page \<Rightarrow> (char, u16) convert_call"
  WideCharToMultiByte :: "code_page \<Rightarrow> (u16, char) convert_call"

text \<open>A size that is larger than the object is against the contract of the calls.\<close>

definition into :: "('a, 'b) convert_call \<Rightarrow> 'a list \<Rightarrow> 'b list \<Rightarrow> int \<Rightarrow> (int \<times> 'b list) outcome" where
  "into f src buf n = (if 0 \<le> n \<and> nat n \<le> length buf then Ret (f src buf n) else Undef)"

text \<open>
  The documentation of both: with a size of 0 the answer is the number of elements needed and
  nothing is written; when they fit, they are written and counted; when they do not fit, or the text
  cannot be converted, the answer is 0, and nothing is said of what has been written.
\<close>

definition converts :: "('a, 'b) convert_call \<Rightarrow> ('a list \<Rightarrow> 'b list option) \<Rightarrow> bool" where
  "converts f conv \<longleftrightarrow> (\<forall>src buf n. 0 \<le> n \<longrightarrow> (case conv src of
       None \<Rightarrow> fst (f src buf n) = 0 \<and> length (snd (f src buf n)) = length buf
     | Some out \<Rightarrow>
         if n = 0 then f src buf n = (int (length out), buf)
         else if length out \<le> nat n then f src buf n = (int (length out), out @ drop (length out) buf)
         else fst (f src buf n) = 0 \<and> length (snd (f src buf n)) = length buf))"

definition file_code_page :: "nls \<Rightarrow> code_page" where
  "file_code_page w = (if AreFileApisANSI w then CP_ACP else CP_OEMCP)"

text \<open>The constructor of a string from a pointer needs a null character.\<close>

definition wide_text :: "u16 list \<Rightarrow> u16 list" where
  "wide_text buf = takeWhile (\<lambda>c. c \<noteq> 0) buf"

definition wide_string :: "u16 list \<Rightarrow> u16 list outcome" where
  "wide_string buf = (if 0 \<in> set buf then Ret (wide_text buf) else Undef)"

definition narrow_string :: "string \<Rightarrow> string outcome" where
  "narrow_string buf = (if terminated buf then Ret (cstr buf) else Undef)"

section \<open>Wrappers of the C string functions\<close>

text \<open>\<^verbatim>\<open>wcscmp\<close> compares the characters as numbers; \<^verbatim>\<open>_wcsicmp\<close> first folds them, as the locale of the
  program says (\<open>low\<close>). Only the sign of the result is specified, and -1, 0 and 1 stand for it.\<close>

fun wide_cmp :: "u16 list \<Rightarrow> u16 list \<Rightarrow> int" where
  "wide_cmp [] [] = 0"
| "wide_cmp [] (b # bs) = -1"
| "wide_cmp (a # as) [] = 1"
| "wide_cmp (a # as) (b # bs) = (if a < b then -1 else if b < a then 1 else wide_cmp as bs)"

definition win_astrcmp :: "u16 list \<Rightarrow> u16 list \<Rightarrow> int" where
  "win_astrcmp str1 str2 = wide_cmp (wide_text str1) (wide_text str2)"

definition win_astrncmp :: "u16 list \<Rightarrow> u16 list \<Rightarrow> nat \<Rightarrow> int" where
  "win_astrncmp str1 str2 n = wide_cmp (take n (wide_text str1)) (take n (wide_text str2))"

definition win_astrcmpi :: "(u16 \<Rightarrow> u16) \<Rightarrow> u16 list \<Rightarrow> u16 list \<Rightarrow> int" where
  "win_astrcmpi low str1 str2 = wide_cmp (map low (wide_text str1)) (map low (wide_text str2))"

definition win_astrncmpi :: "(u16 \<Rightarrow> u16) \<Rightarrow> u16 list \<Rightarrow> u16 list \<Rightarrow> nat \<Rightarrow> int" where
  "win_astrncmpi low str1 str2 n = wide_cmp (map low (take n (wide_text str1))) (map low (take n (wide_text str2)))"

definition win_astrlen :: "u16 list \<Rightarrow> nat outcome" where
  "win_astrlen str = (if 0 \<in> set str then Ret (length (wide_text str)) else Undef)"

definition win_astrcpy :: "u16 list \<Rightarrow> u16 list \<Rightarrow> u16 list outcome" where
  "win_astrcpy str1 str2 = (let s = wide_text str2 @ [0]
     in if 0 \<in> set str2 \<and> length s \<le> length str1 then Ret (s @ drop (length s) str1) else Undef)"

definition win_astrncpy :: "u16 list \<Rightarrow> u16 list \<Rightarrow> nat \<Rightarrow> u16 list outcome" where
  "win_astrncpy str1 str2 n = (if n \<le> length str1
     then Ret (take n (wide_text str2) @ replicate (n - length (wide_text str2)) 0 @ drop n str1) else Undef)"

lemma wide_cmp_eq_0: "wide_cmp a b = 0 \<longleftrightarrow> a = b"
  by (induction a b rule: wide_cmp.induct) auto

lemma wide_cmp_swap: "wide_cmp b a = - wide_cmp a b"
  by (induction a b rule: wide_cmp.induct) auto

lemma wide_text_terminated: "wide_text (wide_text a @ 0 # rest) = wide_text a"
  unfolding wide_text_def by (induction a) auto

text \<open>A copy compares equal to its source; the copy of at most \<open>n\<close> characters has no null character when there
  are \<open>n\<close> or more.\<close>

lemma win_astrcpy_equal: "win_astrcpy str1 str2 = Ret res \<Longrightarrow> win_astrcmp res str2 = 0"
  by (auto simp: win_astrcpy_def win_astrcmp_def wide_cmp_eq_0 wide_text_terminated Let_def split: if_splits)

lemma win_astrncpy_unterminated:
  assumes "n \<le> length (wide_text str2)" "length str1 = n"
  shows "win_astrncpy str1 str2 n = Ret (take n (wide_text str2))" "win_astrlen (take n (wide_text str2)) = Undef"
proof -
  have "0 \<notin> set (wide_text str2)" unfolding wide_text_def using set_takeWhileD by fastforce
  then have "0 \<notin> set (take n (wide_text str2))" by (meson in_set_takeD)
  then show "win_astrncpy str1 str2 n = Ret (take n (wide_text str2))" "win_astrlen (take n (wide_text str2)) = Undef"
    using assms by (simp_all add: win_astrncpy_def win_astrlen_def)
qed

section \<open>Conversions between narrow and wide text\<close>

text \<open>The truncation compares with the size of the buffer, which is also the answer for a text that fills it exactly.\<close>

definition win_ansi_to_utf16 :: "nls \<Rightarrow> string \<Rightarrow> u16 list \<Rightarrow> int \<Rightarrow> u16 list outcome" where
  "win_ansi_to_utf16 w ansi utf utf_len = obind (narrow_string ansi) (\<lambda>s.
     obind (into (MultiByteToWideChar w (file_code_page w)) (s @ [NUL]) utf utf_len) (\<lambda>(converted, utf).
       if converted = utf_len
       then (if utf_len = 0 then Undef else Ret (utf[nat utf_len - 1 := 0]))
       else Ret utf))"

definition win_utf16_to_ansi :: "nls \<Rightarrow> u16 list \<Rightarrow> string \<Rightarrow> int \<Rightarrow> string outcome" where
  "win_utf16_to_ansi w utf ansi ansi_len = obind (wide_string utf) (\<lambda>s.
     obind (into (WideCharToMultiByte w (file_code_page w)) (s @ [0]) ansi ansi_len) (\<lambda>(converted, ansi).
       if converted = ansi_len
       then (if ansi_len = 0 then Undef else Ret (ansi[nat ansi_len - 1 := NUL]))
       else Ret ansi))"

definition win_ansi_to_auto :: "nls \<Rightarrow> string \<Rightarrow> u16 list \<Rightarrow> int \<Rightarrow> u16 list outcome" where
  "win_ansi_to_auto w ansi out out_len = win_ansi_to_utf16 w ansi out out_len"

text \<open>
  The storage of a string of \<open>n\<close> characters has \<open>n + 1\<close>, the last one its terminator; the second call
  writes into it through \<^verbatim>\<open>c_str()\<close>.
\<close>

definition win_to_auto :: "nls \<Rightarrow> string \<Rightarrow> u16 list outcome" where
  "win_to_auto w str = obind (narrow_string str) (\<lambda>s.
     let M = MultiByteToWideChar w (file_code_page w); needed = fst (M (s @ [NUL]) [] 0) in
     if needed = 0 then Ret []
     else let res = replicate (nat (needed - 1)) 0x20 in
       obind (into M (s @ [NUL]) (res @ [0]) needed) (\<lambda>(converted, buf).
         if converted = 0 then Ret [] else Ret (take (nat (needed - 1)) buf)))"

text \<open>The templates; \<open>stack\<close> is what is in the local array of \<open>S\<close> elements before the call.\<close>

definition win_ansi_to_auto_tmpl :: "nls \<Rightarrow> u16 list \<Rightarrow> string \<Rightarrow> u16 list outcome" where
  "win_ansi_to_auto_tmpl w stack str = obind (win_ansi_to_utf16 w str stack (int (length stack))) wide_string"

definition win_auto_to_ansi_tmpl :: "nls \<Rightarrow> string \<Rightarrow> u16 list \<Rightarrow> string outcome" where
  "win_auto_to_ansi_tmpl w stack str = obind (win_utf16_to_ansi w str stack (int (length stack))) narrow_string"

definition win_utf16_to_auto_tmpl :: "u16 list \<Rightarrow> u16 list outcome" where
  "win_utf16_to_auto_tmpl str = wide_string str"

section \<open>Formatted text\<close>

text \<open>
  \<^verbatim>\<open>_vstprintf_p(buf,n,...)\<close> writes a text that fits with its terminator. \<open>res\<close> is resized to one character more
  than the text, its storage has one more again.
\<close>

definition vstprintf_p :: "u16 list \<Rightarrow> nat \<Rightarrow> u16 list \<Rightarrow> u16 list outcome" where
  "vstprintf_p buf n txt = (if length txt < n \<and> n \<le> length buf
     then Ret (txt @ 0 # drop (Suc (length txt)) buf) else Undef)"

definition win_vformatstr :: "('f \<Rightarrow> 'a \<Rightarrow> u16 list option) \<Rightarrow> 'f \<Rightarrow> 'a \<Rightarrow> u16 list outcome" where
  "win_vformatstr printf fmt args = (case printf fmt args of
       None \<Rightarrow> Undef
     | Some txt \<Rightarrow>
         let char_cnt = length txt in
         if char_cnt = 0 then Ret []
         else obind (vstprintf_p (replicate (char_cnt + 1) 0 @ [0]) (char_cnt + 1) txt) (\<lambda>res.
           Ret (take char_cnt res)))"

lemma win_vformatstr_eq: "printf fmt args = Some txt \<Longrightarrow> win_vformatstr printf fmt args = Ret txt"
  by (simp add: win_vformatstr_def vstprintf_p_def Let_def)

section \<open>Exceptions\<close>

text \<open>Both constructors convert the text and its terminator, and keep both in \<open>err_msg_\<close>.\<close>

definition utf8_message :: "nls \<Rightarrow> u16 list \<Rightarrow> string outcome" where
  "utf8_message w src = (let W = WideCharToMultiByte w CP_UTF8; utf8_size = fst (W src [] 0) in
     obind (into W src (replicate (nat utf8_size) NUL @ [NUL]) utf8_size) (\<lambda>(_, buf).
       Ret (take (nat utf8_size) buf)))"

definition win_Exception2_cstr :: "nls \<Rightarrow> u16 list \<Rightarrow> cxx_exception outcome" where
  "win_Exception2_cstr w err_msg = obind (wide_string err_msg) (\<lambda>s.
     obind (utf8_message w (s @ [0])) (\<lambda>m. Ret (Exception2_of m)))"

definition win_Exception2 :: "nls \<Rightarrow> u16 list \<Rightarrow> cxx_exception outcome" where
  "win_Exception2 w err_msg = obind (utf8_message w (err_msg @ [0])) (\<lambda>m. Ret (Exception2_of m))"

definition win_message :: "nls \<Rightarrow> string \<Rightarrow> u16 list outcome" where
  "win_message w err_msg =
     (let M = MultiByteToWideChar w CP_UTF8; utf16_size = fst (M (err_msg @ [NUL]) [] 0) in
      obind (into M (err_msg @ [NUL]) (replicate (nat utf16_size + 1) 0 @ [0]) utf16_size) (\<lambda>(_, buf).
        Ret (take (nat utf16_size + 1) buf)))"

definition win_get_except_msg :: "nls \<Rightarrow> u16 list \<Rightarrow> cxx_exception \<Rightarrow> u16 list outcome" where
  "win_get_except_msg w stack e = (case e of
       Exception2_of m \<Rightarrow> win_message w m
     | std_exception_of t \<Rightarrow> win_ansi_to_auto_tmpl w stack (t @ [NUL]))"

text \<open>
  \<open>printf\<close> is what a format and its arguments expand to, if they are right; \<open>rethrow_with_pfx\<close> gives the
  exception it throws.
\<close>

definition win_rethrow_with_pfx :: "nls \<Rightarrow> ('f \<Rightarrow> 'a \<Rightarrow> u16 list option) \<Rightarrow> u16 list \<Rightarrow> cxx_exception \<Rightarrow> 'f \<Rightarrow> 'a
    \<Rightarrow> cxx_exception outcome" where
  "win_rethrow_with_pfx w printf stack e fmt args = obind (win_vformatstr printf fmt args) (\<lambda>msg.
     obind (win_get_except_msg w stack e) (\<lambda>err_msg. win_Exception2 w (msg @ err_msg)))"

fun win_unwind :: "nls \<Rightarrow> ('f \<Rightarrow> 'a \<Rightarrow> u16 list option) \<Rightarrow> u16 list \<Rightarrow> ('f \<times> 'a) list \<Rightarrow> cxx_exception
    \<Rightarrow> cxx_exception outcome" where
  "win_unwind w printf stack [] e = Ret e"
| "win_unwind w printf stack ((fmt, args) # outer) e =
     obind (win_rethrow_with_pfx w printf stack e fmt args) (win_unwind w printf stack outer)"

section \<open>sprintf\<close>

text \<open>
  \<^verbatim>\<open>_vsnprintf_s(buffer,n,count,...)\<close> writes at most \<open>count\<close> characters of the text and a null character;
  a text that with them does not fit into \<open>n\<close> is handed to the handler of invalid parameters, which
  ends the program. The size is in bytes, a wide character has two.
\<close>

definition vsnprintf_s :: "'a \<Rightarrow> 'a list \<Rightarrow> nat \<Rightarrow> nat \<Rightarrow> 'a list \<Rightarrow> 'a list outcome" where
  "vsnprintf_s zero buf n count txt =
     (let out = take count txt @ [zero] in
      if length out \<le> n \<and> n \<le> length buf then Ret (out @ drop (length out) buf) else Undef)"

definition win_convert_sprintf :: "string \<Rightarrow> u64 \<Rightarrow> string \<Rightarrow> string outcome" where
  "win_convert_sprintf buf sz txt = vsnprintf_s NUL buf (unat sz) (unat (sz - 1)) txt"

definition win_convert_sprintf_wide :: "u16 list \<Rightarrow> u64 \<Rightarrow> u16 list \<Rightarrow> u16 list outcome" where
  "win_convert_sprintf_wide buf sz txt = vsnprintf_s 0 buf (unat (sz div 2)) (unat (sz div 2 - 1)) txt"

section \<open>Lemmas on the conversions\<close>

lemma converts_needed: "converts f conv \<Longrightarrow> conv src = Some out \<Longrightarrow> f src buf 0 = (int (length out), buf)"
  by (auto simp: converts_def split: option.splits)

lemma converts_fits:
  assumes "converts f conv" "conv src = Some out" "out \<noteq> []" "length out \<le> n" "n \<le> length buf"
  shows "into f src buf (int n) = Ret (int (length out), out @ drop (length out) buf)"
proof -
  from assms(3,4) have "n \<noteq> 0" by (cases out) auto
  then have n: "length out \<le> nat (int n)" "0 \<le> int n" "int n \<noteq> 0" using assms(4) by auto
  from assms(1) n(2) have "case conv src of None \<Rightarrow> True
     | Some out \<Rightarrow> int n \<noteq> 0 \<longrightarrow> length out \<le> nat (int n) \<longrightarrow>
         f src buf (int n) = (int (length out), out @ drop (length out) buf)"
    unfolding converts_def by (auto split: option.splits)
  with assms(2,5) n show ?thesis by (simp add: into_def)
qed

lemma converts_too_small:
  assumes "converts f conv" "conv src = Some out" "0 < n" "n < length out"
  shows "fst (f src buf (int n)) = 0"
proof -
  have n: "\<not> length out \<le> nat (int n)" "0 \<le> int n" "int n \<noteq> 0" using assms(3,4) by auto
  from assms(1) n(2) have "case conv src of None \<Rightarrow> True
     | Some out \<Rightarrow> int n \<noteq> 0 \<longrightarrow> \<not> length out \<le> nat (int n) \<longrightarrow> fst (f src buf (int n)) = 0"
    unfolding converts_def by (auto split: option.splits)
  with assms(2) n show ?thesis by simp
qed

lemma cstr_of_plain: "NUL \<notin> set s \<Longrightarrow> cstr (s @ [NUL]) = s"
  by (rule cstr_prefix)

lemma wide_text_prefix: "0 \<notin> set m \<Longrightarrow> wide_text (m @ 0 # rest) = m"
  by (induction m) (auto simp: wide_text_def)

section \<open>Narrow text to wide text\<close>

text \<open>
  A text that fits with its terminator is converted. One that does not is left as the failed
  call leaves the buffer: the answer is then 0 and the truncation is skipped.
\<close>

lemma win_ansi_to_utf16_eq:
  assumes "converts (MultiByteToWideChar w (file_code_page w)) conv"
    and "terminated ansi" "conv (cstr ansi @ [NUL]) = Some (t @ [0])" "utf \<noteq> []"
  shows "win_ansi_to_utf16 w ansi utf (int (length utf)) =
    (if length t < length utf then Ret (t @ 0 # drop (Suc (length t)) utf)
     else Ret (snd (MultiByteToWideChar w (file_code_page w) (cstr ansi @ [NUL]) utf (int (length utf)))))"
proof (cases "length t < length utf")
  case True
  let ?f = "MultiByteToWideChar w (file_code_page w)"
  have "into ?f (cstr ansi @ [NUL]) utf (int (length utf)) =
      Ret (int (length (t @ [0])), (t @ [0]) @ drop (length (t @ [0])) utf)"
    using True by (intro converts_fits [OF assms(1,3)]) auto
  moreover have "((t @ [0]) @ drop (length (t @ [0])) utf)[length utf - 1 := 0] = (t @ [0]) @ drop (length (t @ [0])) utf"
    if "Suc (length t) = length utf"
  proof -
    have "length utf - 1 = length t" "drop (length (t @ [0])) utf = []" using that by auto
    then show ?thesis by (simp add: list_update_append)
  qed
  ultimately show ?thesis using True assms(2,4)
    by (auto simp: win_ansi_to_utf16_def narrow_string_def)
next
  case False
  let ?f = "MultiByteToWideChar w (file_code_page w)"
  have "fst (?f (cstr ansi @ [NUL]) utf (int (length utf))) = 0"
    using False assms(4) by (intro converts_too_small [OF assms(1,3)]) auto
  then show ?thesis using False assms(2,4)
    by (cases "?f (cstr ansi @ [NUL]) utf (int (length utf))") (auto simp: win_ansi_to_utf16_def narrow_string_def into_def)
qed

text \<open>\<open>to_auto\<close> asks for the size first and converts texts of any length.\<close>

lemma win_to_auto_eq:
  assumes "converts (MultiByteToWideChar w (file_code_page w)) conv"
    and "terminated str" "conv (cstr str @ [NUL]) = Some (t @ [0])"
  shows "win_to_auto w str = Ret t"
proof -
  let ?f = "MultiByteToWideChar w (file_code_page w)"
  let ?res = "replicate (length t) 0x20 @ [0] :: u16 list"
  have "fst (?f (cstr str @ [NUL]) [] 0) = int (length t) + 1"
    using converts_needed [OF assms(1,3)] by simp
  moreover have "into ?f (cstr str @ [NUL]) ?res (int (Suc (length t))) =
      Ret (int (length (t @ [0])), (t @ [0]) @ drop (length (t @ [0])) ?res)"
    by (intro converts_fits [OF assms(1,3)]) auto
  ultimately show ?thesis using assms(2)
    by (simp add: win_to_auto_def narrow_string_def Let_def add.commute)
qed

text \<open>The template with the fixed buffer: without a null character in what is left, the string is read past its end.\<close>

lemma win_ansi_to_auto_tmpl_eq:
  assumes "converts (MultiByteToWideChar w (file_code_page w)) conv"
    and "terminated str" "conv (cstr str @ [NUL]) = Some (t @ [0])" "0 \<notin> set t" "stack \<noteq> []"
  shows "win_ansi_to_auto_tmpl w stack str = (if length t < length stack then Ret t
     else wide_string (snd (MultiByteToWideChar w (file_code_page w) (cstr str @ [NUL]) stack (int (length stack)))))"
  unfolding win_ansi_to_auto_tmpl_def win_ansi_to_utf16_eq [OF assms(1,2,3,5)]
  using assms(4) by (simp add: wide_string_def wide_text_prefix)

section \<open>Messages of exceptions\<close>

text \<open>
  What is relied on of UTF-8, for texts over the code units \<open>V\<close>: decoding undoes encoding, and only the
  null character is encoded with a null character.
\<close>

definition utf8_codec :: "u16 set \<Rightarrow> (u16 list \<Rightarrow> string) \<Rightarrow> (string \<Rightarrow> u16 list option) \<Rightarrow> bool" where
  "utf8_codec V enc dec \<longleftrightarrow> 0 \<in> V \<and> (\<forall>u. set u \<subseteq> V \<longrightarrow> dec (enc u) = Some u) \<and>
     (\<forall>u. set u \<subseteq> V \<longrightarrow> enc (u @ [0]) = enc u @ [NUL]) \<and>
     (\<forall>u. set u \<subseteq> V \<longrightarrow> 0 \<notin> set u \<longrightarrow> NUL \<notin> set (enc u))"

definition utf8_calls :: "nls \<Rightarrow> (u16 list \<Rightarrow> string) \<Rightarrow> (string \<Rightarrow> u16 list option) \<Rightarrow> bool" where
  "utf8_calls w enc dec \<longleftrightarrow> converts (WideCharToMultiByte w CP_UTF8) (\<lambda>u. Some (enc u)) \<and>
     converts (MultiByteToWideChar w CP_UTF8) dec"

lemma utf8_message_eq:
  assumes "converts (WideCharToMultiByte w CP_UTF8) (\<lambda>u. Some (enc u))" "enc src = out" "out \<noteq> []"
  shows "utf8_message w src = Ret out"
proof -
  let ?f = "WideCharToMultiByte w CP_UTF8"
  let ?buf = "replicate (length out) NUL @ [NUL]"
  have "fst (?f src [] 0) = int (length out)"
    using converts_needed [where src = src and out = out, OF assms(1)] assms(2) by simp
  moreover have "into ?f src ?buf (int (length out)) = Ret (int (length out), out @ drop (length out) ?buf)"
    using assms(2,3) by (intro converts_fits [OF assms(1)]) auto
  ultimately show ?thesis by (simp add: utf8_message_def Let_def)
qed

lemma win_message_eq:
  assumes "converts (MultiByteToWideChar w CP_UTF8) dec" "dec (m @ [NUL]) = Some out" "out \<noteq> []"
  shows "win_message w m = Ret (out @ [0])"
proof -
  let ?f = "MultiByteToWideChar w CP_UTF8"
  let ?buf = "replicate (length out + 1) 0 @ [0] :: u16 list"
  have "fst (?f (m @ [NUL]) [] 0) = int (length out)" using converts_needed [OF assms(1,2)] by simp
  moreover have "into ?f (m @ [NUL]) ?buf (int (length out)) = Ret (int (length out), out @ drop (length out) ?buf)"
    using assms(3) by (intro converts_fits [OF assms(1,2)]) auto
  moreover have "drop (length out) (replicate (length out + 1) 0) = [0 :: u16]"
    by (simp only: drop_replicate diff_add_inverse) simp
  then have "take (length out + 1) (out @ drop (length out) ?buf) = out @ [0]" by (simp only: drop_append) simp
  ultimately show ?thesis by (simp add: win_message_def Let_def)
qed

text \<open>Every construction adds one null character to the text, every \<open>message()\<close> two.\<close>

lemma enc_zeros:
  assumes "utf8_codec V enc dec" "set m \<subseteq> V"
  shows "enc (m @ replicate k 0) = enc m @ replicate k NUL"
proof (induction k)
  case (Suc k)
  have "set (m @ replicate k 0) \<subseteq> V" using assms by (auto simp: utf8_codec_def)
  then have "enc ((m @ replicate k 0) @ [0]) = enc (m @ replicate k 0) @ [NUL]"
    using assms(1) unfolding utf8_codec_def by blast
  with Suc show ?case by (simp add: replicate_append_same [symmetric])
qed simp

lemma win_Exception2_eq:
  assumes "utf8_codec V enc dec" "utf8_calls w enc dec" "set m \<subseteq> V"
  shows "win_Exception2 w (m @ replicate k 0) = Ret (Exception2_of (enc m @ replicate (k + 1) NUL))"
proof -
  have "enc ((m @ replicate k 0) @ [0]) = enc m @ replicate (k + 1) NUL"
    using enc_zeros [OF assms(1,3), of "k + 1"] by (simp add: replicate_append_same)
  then have "utf8_message w ((m @ replicate k 0) @ [0]) = Ret (enc m @ replicate (k + 1) NUL)"
    using assms(2) unfolding utf8_calls_def by (intro utf8_message_eq [where enc = enc]) auto
  then show ?thesis by (simp add: win_Exception2_def)
qed

lemma win_message_of:
  assumes "utf8_codec V enc dec" "utf8_calls w enc dec" "set m \<subseteq> V"
  shows "win_message w (enc m @ replicate k NUL) = Ret (m @ replicate (k + 2) 0)"
proof -
  have "set (m @ replicate (k + 1) 0) \<subseteq> V" using assms by (auto simp: utf8_codec_def)
  then have "dec (enc (m @ replicate (k + 1) 0)) = Some (m @ replicate (k + 1) 0)"
    using assms(1) unfolding utf8_codec_def by blast
  then have d: "dec ((enc m @ replicate k NUL) @ [NUL]) = Some (m @ replicate (k + 1) 0)"
    using enc_zeros [OF assms(1,3), of "k + 1"] by (simp add: replicate_append_same)
  have "converts (MultiByteToWideChar w CP_UTF8) dec" using assms(2) by (simp add: utf8_calls_def)
  from win_message_eq [OF this d] show ?thesis by (simp add: replicate_append_same)
qed

text \<open>The prefixes of the callers, the outermost first.\<close>

definition formats_in :: "u16 set \<Rightarrow> ('f \<Rightarrow> 'a \<Rightarrow> u16 list option) \<Rightarrow> 'f \<times> 'a \<Rightarrow> bool" where
  "formats_in V printf p \<longleftrightarrow> (case printf (fst p) (snd p) of None \<Rightarrow> False | Some t \<Rightarrow> set t \<subseteq> V)"

definition prefixes :: "('f \<Rightarrow> 'a \<Rightarrow> u16 list option) \<Rightarrow> ('f \<times> 'a) list \<Rightarrow> u16 list" where
  "prefixes printf ps = concat (rev (map (\<lambda>p. the (printf (fst p) (snd p))) ps))"

lemma prefixes_in: "\<forall>p\<in>set ps. formats_in V printf p \<Longrightarrow> set (prefixes printf ps) \<subseteq> V"
  by (fastforce simp: prefixes_def formats_in_def split: option.splits)

lemma win_unwind_eq:
  assumes "utf8_codec V enc dec" "utf8_calls w enc dec" "set m \<subseteq> V" "\<forall>p\<in>set ps. formats_in V printf p"
  shows "win_unwind w printf stack ps (Exception2_of (enc m @ replicate (k + 1) NUL)) =
    Ret (Exception2_of (enc (prefixes printf ps @ m) @ replicate (k + 3 * length ps + 1) NUL))"
  using assms(3,4)
proof (induction ps arbitrary: m k)
  case (Cons p ps)
  obtain fmt args where p: "p = (fmt, args)" by fastforce
  from Cons.prems p obtain t where t: "printf fmt args = Some t" "set t \<subseteq> V"
    by (auto simp: formats_in_def split: option.splits)
  have V: "set (t @ m) \<subseteq> V" using Cons.prems t by auto
  have "win_rethrow_with_pfx w printf stack (Exception2_of (enc m @ replicate (k + 1) NUL)) fmt args =
      Ret (Exception2_of (enc (t @ m) @ replicate (k + 3 + 1) NUL))"
    using win_Exception2_eq [OF assms(1,2) V, of "k + 3"]
    unfolding win_rethrow_with_pfx_def win_vformatstr_eq [where printf = printf, OF t(1)] win_get_except_msg_def cxx_exception.case
      win_message_of [OF assms(1,2) Cons.prems(1)] by (simp add: eval_nat_numeral)
  moreover have "\<forall>p\<in>set ps. formats_in V printf p" using Cons.prems(2) by simp
  note Cons.IH [OF V this, of "k + 3"]
  ultimately show ?case using t p by (simp add: ac_simps prefixes_def)
qed (simp add: prefixes_def)

text \<open>C36: An exception that unwinds through callers that each put a prefix in front of the message: the text
  read as a C string has all the prefixes and the message, the outermost first, and \<open>what()\<close> is its encoding. But
  \<open>message()\<close> has three null characters behind it for every time it was thrown, so it never equals the text.\<close>

theorem win_unwind_message:
  assumes "utf8_codec V enc dec" "utf8_calls w enc dec" "set m \<subseteq> V"
    and "\<forall>p\<in>set ps. formats_in V printf p"
  shows "\<exists>e0 b. win_Exception2 w m = Ret e0 \<and> win_unwind w printf stack ps e0 = Ret (Exception2_of b) \<and>
    win_message w b = Ret (prefixes printf ps @ m @ replicate (3 * (length ps + 1)) 0)"
proof -
  note 1 = win_unwind_eq [OF assms, of stack 0]
  have V: "set (prefixes printf ps @ m) \<subseteq> V" using assms(3) prefixes_in [OF assms(4)] by simp
  have "win_Exception2 w m = Ret (Exception2_of (enc m @ replicate (0 + 1) NUL))"
    using win_Exception2_eq [OF assms(1-3), of 0] by simp
  moreover have "win_message w (enc (prefixes printf ps @ m) @ replicate (0 + 3 * length ps + 1) NUL) =
      Ret (prefixes printf ps @ m @ replicate (3 * (length ps + 1)) 0)"
    using win_message_of [OF assms(1,2) V, of "0 + 3 * length ps + 1"] by (simp add: eval_nat_numeral)
  ultimately show ?thesis using 1 by blast
qed

text \<open>A system that converts ASCII, and fills the buffer with what fits when a text does not.\<close>

definition filling_call :: "('a list \<Rightarrow> 'b list option) \<Rightarrow> ('a, 'b) convert_call" where
  "filling_call conv src buf n = (case conv src of
       None \<Rightarrow> (0, buf)
     | Some out \<Rightarrow> if n = 0 then (int (length out), buf)
         else if length out \<le> nat n then (int (length out), out @ drop (length out) buf)
         else (0, take (length buf) (take (nat n) out @ drop (nat n) buf)))"

lemma converts_filling: "converts (filling_call conv) conv"
  by (auto simp: converts_def filling_call_def split: option.splits)

definition ascii_enc :: "u16 list \<Rightarrow> string" where
  "ascii_enc u = map (\<lambda>c. char_of (unat c)) u"

definition ascii_dec :: "string \<Rightarrow> u16 list option" where
  "ascii_dec s = Some (map of_char s)"

definition ascii_nls :: nls where
  "ascii_nls = \<lparr>AreFileApisANSI = True, MultiByteToWideChar = (\<lambda>_. filling_call ascii_dec),
     WideCharToMultiByte = (\<lambda>_. filling_call (\<lambda>u. Some (ascii_enc u)))\<rparr>"

lemma ascii_calls: "utf8_calls ascii_nls ascii_enc ascii_dec"
  by (simp add: utf8_calls_def ascii_nls_def converts_filling)

lemma ascii_codec: "utf8_codec {c. c < 128} ascii_enc ascii_dec"
proof -
  have u: "unat c < 128" if "c < 128" for c :: u16
    using that by (simp add: word_less_nat_alt)
  have "of_char (char_of (unat c) :: char) = c" if "c < 128" for c :: u16
  proof -
    have "(of_char (char_of (unat c) :: char) :: nat) = unat c" using u [OF that] by simp
    then have "(of_nat (of_char (char_of (unat c) :: char)) :: u16) = of_nat (unat c)" by simp
    then show ?thesis by (simp only: of_nat_of_char of_nat_unat ucast_id)
  qed
  then have "dec (ascii_enc v) = Some v" if "set v \<subseteq> {c. c < 128}" "dec = ascii_dec" for v dec
    using that by (auto simp: ascii_dec_def ascii_enc_def intro!: map_idI)
  moreover have "NUL \<notin> set (ascii_enc v)" if "set v \<subseteq> {c. c < 128}" "0 \<notin> set v" for v
  proof
    assume "NUL \<in> set (ascii_enc v)"
    then obtain c where c: "c \<in> set v" "char_of (unat c) = NUL" by (auto simp: ascii_enc_def)
    then have "unat c < 128" using that u by auto
    then have "unat c = of_char (char_of (unat c) :: char)" by simp
    also have "\<dots> = 0" unfolding c(2) by (simp add: NUL_def)
    finally have "c = 0" by (simp add: unat_eq_0)
    with c(1) that(2) show False by simp
  qed
  moreover have "ascii_enc (v @ [0]) = ascii_enc v @ [NUL]" for v
    by (simp add: ascii_enc_def) code_simp
  ultimately show ?thesis unfolding utf8_codec_def by simp
qed

text \<open>The wide forms of ``seek: '' and ``no''; the formats are texts without directives.\<close>

theorem win_unwind_message_witness:
  "\<exists>e0 b. win_Exception2 ascii_nls [110, 111] = Ret e0 \<and>
    win_unwind ascii_nls (\<lambda>fmt (). Some fmt) [] [([115, 101, 101, 107, 58, 32], ())] e0 = Ret (Exception2_of b) \<and>
    win_message ascii_nls b = Ret (prefixes (\<lambda>fmt (). Some fmt) [([115, 101, 101, 107, 58, 32], ())] @ [110, 111] @
      replicate (3 * (length [([115 :: u16, 101, 101, 107, 58, 32], ())] + 1)) 0)"
  by (rule win_unwind_message [OF ascii_codec ascii_calls]) (simp_all add: formats_in_def)

text \<open>A \<^verbatim>\<open>what()\<close> of 1024 characters or more is not truncated to the buffer of \<open>get_except_msg\<close>: on such a system the
  string is read past the end of the buffer. \<open>stack\<close> is the buffer of 1024 elements.\<close>

lemma long_what_undefined:
  assumes "NUL \<notin> set txt" "\<forall>c\<in>set txt. (of_char c :: u16) \<noteq> 0" "length stack = n" "0 < n" "n \<le> length txt"
  shows "win_get_except_msg ascii_nls stack (std_exception_of txt) = Undef"
proof -
  let ?f = "MultiByteToWideChar ascii_nls (file_code_page ascii_nls)"
  have f: "?f = filling_call ascii_dec" by (simp add: ascii_nls_def)
  have f': "converts ?f ascii_dec" unfolding f by (rule converts_filling)
  have c: "cstr (txt @ [NUL]) = txt" by (rule cstr_of_plain [OF assms(1)])
  have t: "terminated (txt @ [NUL])" by (simp add: terminated_def)
  have d: "ascii_dec (cstr (txt @ [NUL]) @ [NUL]) = Some (map of_char txt @ [0])"
    unfolding c by (simp add: ascii_dec_def NUL_def)
  have z: "0 \<notin> set (map of_char txt :: u16 list)" using assms(2) by auto
  have s: "stack \<noteq> []" using assms(3,4) by auto
  have b: "snd (?f (cstr (txt @ [NUL]) @ [NUL]) stack (int (length stack))) = take n (map of_char txt)"
    using assms(3,4,5) d unfolding f c by (simp add: filling_call_def)
  have "0 \<notin> set (take n (map of_char txt) :: u16 list)" using z by (meson in_set_takeD)
  then have "wide_string (take n (map of_char txt)) = Undef" by (simp add: wide_string_def)
  then have "win_ansi_to_auto_tmpl ascii_nls stack (txt @ [NUL]) = Undef"
    using win_ansi_to_auto_tmpl_eq [where w = ascii_nls and conv = ascii_dec and stack = stack, OF f' t d z s]
      assms(3,5) b by simp
  then show ?thesis by (simp add: win_get_except_msg_def)
qed

section \<open>sprintf on the platforms\<close>

text \<open>On Windows a buffer of \<open>n\<close> characters holds \<open>n - 1\<close> of the text, as documented.\<close>

lemma win_convert_sprintf_eq:
  assumes "0 < unat sz" "unat sz \<le> length buf"
  shows "win_convert_sprintf buf sz txt =
    Ret (take (unat sz - 1) txt @ NUL # drop (Suc (min (length txt) (unat sz - 1))) buf)"
proof -
  have "unat (sz - 1) = unat sz - 1" using assms(1) by (intro unat_minus_one) auto
  with assms show ?thesis by (simp add: win_convert_sprintf_def vsnprintf_s_def Let_def)
qed

text \<open>The Unix form is a Windows form with one character less.\<close>

lemma sprintf_platforms:
  assumes "2 \<le> unat sz" "unat sz \<le> length buf"
  shows "convert_sprintf buf sz txt = win_convert_sprintf buf sz (take (unat sz - 2) txt)"
proof -
  obtain k where k: "unat sz = Suc (Suc k)" using assms(1) by (metis add_2_eq_Suc le_Suc_ex)
  have u: "unat (sz - 1) = Suc k" using k by (subst unat_minus_one) auto
  then have "sz - 1 \<noteq> 0" by (metis Zero_not_Suc unat_0)
  then have "convert_sprintf buf sz txt = (let out = take k txt @ [NUL] in Ret (out @ drop (length out) buf))"
    using assms k u by (simp add: convert_sprintf_def vsnprintf_def Let_def)
  moreover have "win_convert_sprintf buf sz (take k txt) = (let out = take k txt @ [NUL] in Ret (out @ drop (length out) buf))"
    using assms k u by (simp add: win_convert_sprintf_def vsnprintf_s_def Let_def min_def)
  ultimately show ?thesis using k by simp
qed

end
