(* ===== verification/Console.thy ===== *)
theory Console
  imports Strings
begin

text \<open>
  \<^verbatim>\<open>src/log.cc\<close> and \<^verbatim>\<open>src/assert.cc\<close>: the default functions that print a message, and the ones for messages
  of a debug build, which format into a buffer of 1024 characters on the stack. The state is what has
  been written to standard output, to standard error and to the debugger.
\<close>

record console =
  con_out :: string
  con_err :: string
  con_debug :: string

section \<open>The log\<close>

definition vprintf :: "string \<Rightarrow> fmt_arg list \<Rightarrow> console \<Rightarrow> console outcome" where
  "vprintf format args con = (case expand format args of
       None \<Rightarrow> Undef
     | Some t \<Rightarrow> Ret (con\<lparr>con_out := con_out con @ t\<rparr>))"

definition def_print :: "string \<Rightarrow> fmt_arg list \<Rightarrow> console \<Rightarrow> console outcome" where
  "def_print format args con = vprintf format args con"

definition def_print_line :: "string \<Rightarrow> fmt_arg list \<Rightarrow> console \<Rightarrow> console outcome" where
  "def_print_line format args con = obind (vprintf format args con) (vprintf [CHR 0x0a] [])"

text \<open>The two pointers through which the library prints; an application may change them.\<close>

record log_functions =
  log_print :: "string \<Rightarrow> fmt_arg list \<Rightarrow> console \<Rightarrow> console outcome"
  log_print_line :: "string \<Rightarrow> fmt_arg list \<Rightarrow> console \<Rightarrow> console outcome"

definition default_log :: log_functions where
  "default_log = \<lparr>log_print = def_print, log_print_line = def_print_line\<rparr>"

section \<open>Messages of a debug build\<close>

definition ckDBG_PRINT_BUF_SIZE :: nat where
  "ckDBG_PRINT_BUF_SIZE = 1024"

text \<open>
  \<open>stack\<close> is what is in the buffer before the call. On Unix \<^verbatim>\<open>vsnprintf\<close> always terminates the text, and
  only answers a negative number for a text that cannot be encoded, which a narrow one can.
\<close>

definition dbg_printf :: "string \<Rightarrow> string \<Rightarrow> fmt_arg list \<Rightarrow> console \<Rightarrow> console outcome" where
  "dbg_printf stack format args con = (case expand format args of
       None \<Rightarrow> Undef
     | Some t \<Rightarrow> obind (vsnprintf stack (of_nat (ckDBG_PRINT_BUF_SIZE - 1)) t) (\<lambda>buffer.
         if terminated buffer then Ret (con\<lparr>con_err := con_err con @ cstr buffer\<rparr>) else Undef))"

text \<open>
  \<^verbatim>\<open>_vsnprintf\<close> with a bound of \<open>n\<close> writes at most \<open>n\<close> characters. It puts a null character behind a text of
  less, none behind a text of \<open>n\<close>, and answers -1 for a longer one.
\<close>

definition underscore_vsnprintf :: "string \<Rightarrow> nat \<Rightarrow> string \<Rightarrow> int \<times> string" where
  "underscore_vsnprintf buf n txt =
     (if length txt < n then (int (length txt), txt @ NUL # drop (Suc (length txt)) buf)
      else (if length txt = n then int n else -1, take n txt @ drop n buf))"

definition win_dbg_printf :: "string \<Rightarrow> string \<Rightarrow> fmt_arg list \<Rightarrow> console \<Rightarrow> console outcome" where
  "win_dbg_printf stack format args con = (case expand format args of
       None \<Rightarrow> Undef
     | Some t \<Rightarrow> (case underscore_vsnprintf stack (ckDBG_PRINT_BUF_SIZE - 1) t of (r, buffer) \<Rightarrow>
         let buffer = (if r < 0 then buffer[ckDBG_PRINT_BUF_SIZE - 1 := NUL] else buffer) in
         if terminated buffer then Ret (con\<lparr>con_debug := con_debug con @ cstr buffer\<rparr>) else Undef))"

text \<open>The place of the message is put in front of its format.\<close>

definition trace_format :: "string \<Rightarrow> nat \<Rightarrow> string \<Rightarrow> string" where
  "trace_format file line format = ''['' @ file @ '':'' @ decimal line @ ''] '' @ format"

definition dbg_trace_printf :: "string \<Rightarrow> string \<Rightarrow> nat \<Rightarrow> string \<Rightarrow> fmt_arg list \<Rightarrow> console \<Rightarrow> console outcome" where
  "dbg_trace_printf stack file line format args con = dbg_printf stack (trace_format file line format) args con"

definition win_dbg_trace_printf :: "string \<Rightarrow> string \<Rightarrow> nat \<Rightarrow> string \<Rightarrow> fmt_arg list \<Rightarrow> console \<Rightarrow> console outcome" where
  "win_dbg_trace_printf stack file line format args con = win_dbg_printf stack (trace_format file line format) args con"

section \<open>What is printed\<close>

text \<open>A line is the message and the end of the line.\<close>

lemma def_print_line_eq:
  "expand format args = Some t \<Longrightarrow>
    def_print_line format args con = Ret (con\<lparr>con_out := con_out con @ t @ [CHR 0x0a]\<rparr>)"
  by (simp add: def_print_line_def vprintf_def)

lemma no_NUL_take: "NUL \<notin> set t \<Longrightarrow> NUL \<notin> set (take n t)"
  by (meson in_set_takeD)

text \<open>On Unix the first 1022 characters are printed: the size already counts the terminator.\<close>

lemma dbg_printf_eq:
  assumes "expand format args = Some t" "NUL \<notin> set t" "length stack = ckDBG_PRINT_BUF_SIZE"
  shows "dbg_printf stack format args con = Ret (con\<lparr>con_err := con_err con @ take 1022 t\<rparr>)"
proof -
  have "vsnprintf stack (of_nat (ckDBG_PRINT_BUF_SIZE - 1)) t =
      Ret (take 1022 t @ NUL # drop (Suc (min (length t) 1022)) stack)"
    using assms(3) by (simp add: vsnprintf_def ckDBG_PRINT_BUF_SIZE_def Let_def)
  then show ?thesis using assms(1) cstr_prefix [OF no_NUL_take [OF assms(2)]]
    by (simp add: dbg_printf_def terminated_def)
qed

text \<open>On Windows 1023 are, but a message of exactly 1023 characters is not terminated.\<close>

lemma win_dbg_printf_eq:
  assumes "expand format args = Some t" "NUL \<notin> set t" "length stack = ckDBG_PRINT_BUF_SIZE"
  shows "win_dbg_printf stack format args con =
    (if length t = 1023 \<and> stack ! 1023 \<noteq> NUL then Undef
     else Ret (con\<lparr>con_debug := con_debug con @ take 1023 t\<rparr>))"
proof -
  define rest where "rest = take 1023 stack"
  have st: "stack = rest @ [stack ! 1023]" "length rest = 1023"
    using assms(3) take_Suc_conv_app_nth [of 1023 stack] by (simp_all add: rest_def ckDBG_PRINT_BUF_SIZE_def)
  then have d: "drop 1023 stack = [stack ! 1023]" by (metis append_eq_conv_conj)
  have nt: "NUL \<notin> set (take 1023 t)" by (rule no_NUL_take [OF assms(2)])
  consider "length t < 1023" | "length t = 1023" | "1023 < length t" by linarith
  then show ?thesis
  proof cases
    case 1
    then show ?thesis using assms cstr_prefix [OF assms(2)]
      by (simp add: win_dbg_printf_def underscore_vsnprintf_def ckDBG_PRINT_BUF_SIZE_def terminated_def Let_def)
  next
    case 2
    then have "win_dbg_printf stack format args con = (if terminated (t @ [stack ! 1023])
        then Ret (con\<lparr>con_debug := con_debug con @ cstr (t @ [stack ! 1023])\<rparr>) else Undef)"
      using assms(1) d by (simp add: win_dbg_printf_def underscore_vsnprintf_def ckDBG_PRINT_BUF_SIZE_def Let_def)
    moreover have "terminated (t @ [c]) \<longleftrightarrow> c = NUL" for c using assms(2) by (auto simp: terminated_def)
    ultimately show ?thesis using 2 cstr_prefix [OF assms(2), of "[]"] by simp
  next
    case 3
    then have "length (take 1023 t) = 1023" by simp
    then have u: "(take 1023 t @ [c])[1023 := NUL] = take 1023 t @ [NUL]" for c by (metis list_update_length)
    have "win_dbg_printf stack format args con = Ret (con\<lparr>con_debug := con_debug con @ cstr (take 1023 t @ [NUL])\<rparr>)"
      using 3 assms(1) d u by (simp add: win_dbg_printf_def underscore_vsnprintf_def ckDBG_PRINT_BUF_SIZE_def Let_def terminated_def)
    then show ?thesis using 3 cstr_prefix [OF nt, of "[]"] by simp
  qed
qed

text \<open>A trace message, when the name of the file has no percent sign.\<close>

lemma decimal_no_percent: "CHR ''%'' \<notin> set (decimal n)"
proof
  assume "CHR ''%'' \<in> set (decimal n)"
  then obtain d where d: "d < 10" "CHR ''%'' = char_of (48 + d :: nat)" using decimal_chars by blast
  then have "(of_char CHR ''%'' :: nat) = 48 + d" by (simp del: of_char_Char)
  then show False by simp
qed

lemma dbg_trace_printf_eq:
  assumes "CHR ''%'' \<notin> set file" "NUL \<notin> set file"
    and "expand format args = Some t" "NUL \<notin> set t" "length stack = ckDBG_PRINT_BUF_SIZE"
  shows "dbg_trace_printf stack file line format args con =
    Ret (con\<lparr>con_err := con_err con @ take 1022 (''['' @ file @ '':'' @ decimal line @ ''] '' @ t)\<rparr>)"
proof -
  let ?p = "''['' @ file @ '':'' @ decimal line @ ''] ''"
  have "CHR ''%'' \<notin> set ?p" using assms(1) decimal_no_percent by simp
  from expand_literal [OF this, of format args] assms(3)
  have e: "expand (trace_format file line format) args = Some (?p @ t)" by (simp add: trace_format_def)
  have "NUL \<notin> set (?p @ t)" using assms(2,4) decimal_no_NUL by (simp add: NUL_def)
  from dbg_printf_eq [OF e this assms(5)] show ?thesis by (simp add: dbg_trace_printf_def)
qed

text \<open>With one the name is part of the format: it takes the argument of the message.\<close>

lemma trace_percent_in_name:
  "dbg_trace_printf stack ''100%d.cc'' 7 ''%d'' [AInt 1] con = Undef"
proof -
  have "expand (trace_format ''100%d.cc'' 7 ''%d'') [AInt 1] = None" by code_simp
  then show ?thesis by (simp add: dbg_trace_printf_def dbg_printf_def)
qed

end
