(* ===== verification/Lexical_Cast.thy ===== *)
theory Lexical_Cast
  imports Strings
begin

text \<open>
  The template \<^verbatim>\<open>lexical_cast\<close> of \<^verbatim>\<open>cast.hh\<close>. The extraction from the string stream is an argument: it gives the
  value of the text at the front, or nothing when \<^verbatim>\<open>operator>>\<close> fails. Those of the standard library for \<open>int\<close> and for
  a string are written out. A string stream made from a string is never in a failed state.
\<close>

definition cast_failure :: "string \<Rightarrow> string \<Rightarrow> string" where
  "cast_failure type_name str =
     ''lexical cast failure, casting \"'' @ str @ ''\" to type '' @ type_name @ ''.''"

definition lexical_cast :: "(string \<Rightarrow> 'a option) \<Rightarrow> string \<Rightarrow> string \<Rightarrow> 'a outcome" where
  "lexical_cast extract type_name str = (case extract str of
       Some res \<Rightarrow> Ret res
     | None \<Rightarrow> Throw (cast_failure type_name str))"

section \<open>Extraction\<close>

definition is_space :: "char \<Rightarrow> bool" where
  "is_space c = (let n = of_char c :: nat in n = 32 \<or> 9 \<le> n \<and> n \<le> 13)"

definition is_digit :: "char \<Rightarrow> bool" where
  "is_digit c = (let n = of_char c :: nat in 48 \<le> n \<and> n \<le> 57)"

text \<open>Spaces are skipped, then a sign and digits are taken; a value that is not an \<open>int\<close> is a failure.\<close>

definition extract_unsigned :: "string \<Rightarrow> nat option" where
  "extract_unsigned s = (let ds = takeWhile is_digit s in if ds = [] then None else Some (parse_decimal ds))"

definition in_int32 :: "int \<Rightarrow> int option" where
  "in_int32 v = (if - (2 ^ 31) \<le> v \<and> v < 2 ^ 31 then Some v else None)"

definition extract_int :: "string \<Rightarrow> int option" where
  "extract_int s = (case dropWhile is_space s of
       [] \<Rightarrow> None
     | c # t \<Rightarrow>
         if c = CHR ''-'' then Option.bind (extract_unsigned t) (\<lambda>n. in_int32 (- int n))
         else if c = CHR ''+'' then Option.bind (extract_unsigned t) (\<lambda>n. in_int32 (int n))
         else Option.bind (extract_unsigned (c # t)) (\<lambda>n. in_int32 (int n)))"

definition extract_word :: "string \<Rightarrow> string option" where
  "extract_word s = (case takeWhile (\<lambda>c. \<not> is_space c) (dropWhile is_space s) of [] \<Rightarrow> None | w \<Rightarrow> Some w)"

section \<open>Numbers\<close>

definition int_text :: "int \<Rightarrow> string" where
  "int_text v = (if v < 0 then CHR ''-'' # decimal (nat (- v)) else decimal (nat v))"

lemma decimal_digits: "\<forall>c\<in>set (decimal n). is_digit c"
proof
  fix c assume "c \<in> set (decimal n)"
  then obtain d where "d < 10" "c = char_of (48 + d :: nat)" using decimal_chars by blast
  then show "is_digit c" by (simp add: is_digit_def Let_def)
qed

lemma extract_unsigned_decimal:
  "rest = [] \<or> \<not> is_digit (hd rest) \<Longrightarrow> extract_unsigned (decimal n @ rest) = Some n"
proof -
  assume r: "rest = [] \<or> \<not> is_digit (hd rest)"
  have "takeWhile is_digit (decimal n @ rest) = decimal n @ takeWhile is_digit rest"
    using decimal_digits by (intro takeWhile_append2) blast
  also have "takeWhile is_digit rest = []" using r by (cases rest) auto
  finally show ?thesis using decimal_nonempty by (simp add: extract_unsigned_def parse_decimal)
qed

lemma digit_first:
  assumes "is_digit c"
  shows "\<not> is_space c" "c \<noteq> CHR ''-''" "c \<noteq> CHR ''+''"
  using assms by (auto simp: is_digit_def is_space_def Let_def)

text \<open>The numeral of an \<open>int\<close> is cast to it, whatever follows: a cast does not look at the rest of the text.\<close>

lemma lexical_cast_int:
  assumes "- (2 ^ 31) \<le> v" "v < 2 ^ 31" "rest = [] \<or> \<not> is_digit (hd rest)"
  shows "lexical_cast extract_int type_name (int_text v @ rest) = Ret v"
proof (cases "v < 0")
  case True
  have "\<not> is_space CHR ''-''" by (simp add: is_space_def)
  with True assms extract_unsigned_decimal [OF assms(3)] show ?thesis
    by (simp add: lexical_cast_def extract_int_def int_text_def in_int32_def)
next
  case False
  obtain c t where ct: "decimal (nat v) = c # t" using decimal_nonempty by (cases "decimal (nat v)") auto
  with decimal_digits [of "nat v"] have "is_digit c" by simp
  note c = digit_first [OF this]
  have "extract_unsigned (c # t @ rest) = Some (nat v)"
    using extract_unsigned_decimal [OF assms(3), of "nat v"] ct by simp
  with False assms c ct show ?thesis
    by (simp add: lexical_cast_def extract_int_def int_text_def in_int32_def)
qed

text \<open>So the cast undoes \<^verbatim>\<open>formatstr("%d",v)\<close>.\<close>

lemma lexical_cast_format:
  assumes "- (2 ^ 31) \<le> v" "v < 2 ^ 31"
  shows "obind (formatstr ''%d'' [AInt v]) (lexical_cast extract_int type_name) = Ret v"
proof -
  have "expand ''%d'' [AInt v] = Some (int_text v)" by (simp add: int_text_def)
  moreover have "nat v < 10 ^ Suc 9" "nat (- v) < 10 ^ Suc 9" using assms by simp_all
  then have "length (decimal (nat v)) \<le> Suc 9" "length (decimal (nat (- v))) \<le> Suc 9" by (blast intro: decimal_length)+
  then have "length (int_text v) + 2 < 2 ^ 64" by (simp add: int_text_def)
  ultimately have "formatstr ''%d'' [AInt v] = Ret (int_text v)"
    unfolding formatstr_def by (intro vformatstr_expand)
  with lexical_cast_int [OF assms, of "[]"] show ?thesis by simp
qed

text \<open>A text without a numeral at its front, and a number that is too large, are errors.\<close>

lemma lexical_cast_int_error:
  "2 ^ 31 \<le> v \<Longrightarrow> lexical_cast extract_int ''i'' (int_text v) = Throw (cast_failure ''i'' (int_text v))"
proof -
  assume v: "2 ^ 31 \<le> v"
  obtain c t where ct: "decimal (nat v) = c # t" using decimal_nonempty by (cases "decimal (nat v)") auto
  with decimal_digits [of "nat v"] have "is_digit c" by simp
  note c = digit_first [OF this]
  have "extract_unsigned (c # t) = Some (nat v)" using extract_unsigned_decimal [of "[]" "nat v"] ct by simp
  with v c ct show ?thesis by (simp add: lexical_cast_def extract_int_def int_text_def in_int32_def)
qed

text \<open>Cast to a string, a text keeps its first word only.\<close>

lemma lexical_cast_first_word:
  "lexical_cast extract_word ''Ss'' ''two words'' = Ret ''two'' \<and>
   lexical_cast extract_word ''Ss'' [] = Throw (cast_failure ''Ss'' [])"
  by code_simp

end
