(* ===== verification/Thread_Life.thy ===== *)
theory Thread_Life
  imports Unix_Thread
begin

text \<open>
  The life of one \<open>Thread\<close> of \<^verbatim>\<open>src/unix/thread.cc\<close>: its native threads and the calls of
  \<open>start\<close>, \<open>wait\<close> and \<open>kill\<close> that other threads make on it interleave. The methods hold the mutex
  of the object from their beginning to the wait on \<open>thread_done_\<close>, which releases it, so a step is
  the code between two points where the mutex is free.
\<close>

section \<open>The steps\<close>

text \<open>A call that has not answered: in the wait of \<open>wait\<close> (with a time-out or for ever), in the one of
  \<open>kill\<close>, or behind it, on the way to the mutex of the object.\<close>

datatype thread_call = In_wait bool | In_kill | Kill_woken

record thread_system =
  ts_object :: thread_object
  ts_natives :: "nat set"   \<comment> \<open>the native threads that have not done the clean-up\<close>
  ts_calls :: "nat \<Rightarrow> thread_call option"

text \<open>
  \<open>calm\<close> says that no wait has a time-out and that the object is only started while no call is in
  progress. A native thread ends by itself or is cancelled, so its clean-up may come at any time; it
  makes no calls on its own object. The threads have identifiers below \<open>2 ^ 30\<close>.
\<close>

inductive thread_step :: "bool \<Rightarrow> thread_system \<Rightarrow> thread_system \<Rightarrow> bool" for calm where
  starts: "(calm \<longrightarrow> ts_calls s = Map.empty) \<Longrightarrow> h \<notin> ts_natives s \<Longrightarrow>
    thread_start (Some h) (ts_object s) = (ok, b) \<Longrightarrow>
    thread_step calm s (s\<lparr>ts_object := b, ts_natives := (if ok then insert h (ts_natives s) else ts_natives s)\<rparr>)"
| cleans: "h \<in> ts_natives s \<Longrightarrow>
    thread_step calm s (s\<lparr>ts_object := thread_cleanup (ts_object s), ts_natives := ts_natives s - {h}\<rparr>)"
| waits: "t \<notin> ts_natives s \<Longrightarrow> t < 2 ^ 30 \<Longrightarrow> ts_calls s t = None \<Longrightarrow> (calm \<longrightarrow> \<not> timed) \<Longrightarrow>
    thread_wait_begin t (ts_object s) = Inr b \<Longrightarrow>
    thread_step calm s (s\<lparr>ts_object := b, ts_calls := (ts_calls s)(t \<mapsto> In_wait timed)\<rparr>)"
| wait_ends: "ts_calls s t = Some (In_wait timed) \<Longrightarrow> res = 0 \<or> timed \<Longrightarrow> \<not> wait_again res (th_done (ts_object s)) \<Longrightarrow>
    thread_wait_end res (ts_object s) = (ok, b) \<Longrightarrow>
    thread_step calm s (s\<lparr>ts_object := b, ts_calls := (ts_calls s)(t := None)\<rparr>)"
| kills: "t \<notin> ts_natives s \<Longrightarrow> t < 2 ^ 30 \<Longrightarrow> ts_calls s t = None \<Longrightarrow>
    thread_kill_begin True (ts_object s) = Inr b \<Longrightarrow>
    thread_step calm s (s\<lparr>ts_object := b, ts_calls := (ts_calls s)(t \<mapsto> In_kill)\<rparr>)"
| kill_wakes: "ts_calls s t = Some In_kill \<Longrightarrow> \<not> wait_again 0 (th_done (ts_object s)) \<Longrightarrow>
    thread_step calm s (s\<lparr>ts_object := thread_kill_woken 0 (ts_object s), ts_calls := (ts_calls s)(t \<mapsto> Kill_woken)\<rparr>)"
| kill_ends: "ts_calls s t = Some Kill_woken \<Longrightarrow> thread_kill_end (ts_object s) = (ok, b) \<Longrightarrow>
    thread_step calm s (s\<lparr>ts_object := b, ts_calls := (ts_calls s)(t := None)\<rparr>)"

definition thread_life_start :: thread_system where
  "thread_life_start = \<lparr>ts_object = Thread, ts_natives = {}, ts_calls = Map.empty\<rparr>"

section \<open>The invariant\<close>

definition waiting :: "(nat \<Rightarrow> thread_call option) \<Rightarrow> nat set" where
  "waiting f = {t. \<exists>c. f t = Some c \<and> c \<noteq> Kill_woken}"

text \<open>The counter is that of the calls in the wait; the object has one native thread, the one it has started
  last, exactly while it counts as running, and only the end of that thread gives wake-ups, one for every
  call in the wait.\<close>

definition thread_life_ok :: "thread_system \<Rightarrow> bool" where
  "thread_life_ok s \<longleftrightarrow> (let b = ts_object s; c = th_done b; W = waiting (ts_calls s) in
     W \<subseteq> {..<2 ^ 30} \<and> wc_waiters c = of_nat (card W) \<and>
     (\<forall>t. ts_calls s t \<noteq> Some (In_wait True)) \<and>
     (if th_running b then ts_natives s = {th_thread b} \<and> wc_wakeups c = 0 \<and> (\<forall>t. ts_calls s t \<noteq> Some Kill_woken)
      else ts_natives s = {} \<and> wc_wakeups c = wc_waiters c))"

lemma waiting_upd [simp]:
  "waiting (f(t := None)) = waiting f - {t}"
  "waiting (f(t \<mapsto> Kill_woken)) = waiting f - {t}"
  "c \<noteq> Kill_woken \<Longrightarrow> waiting (f(t \<mapsto> c)) = insert t (waiting f)"
  by (auto simp: waiting_def)

lemma waiting_empty [simp]: "waiting Map.empty = {}"
  by (simp add: waiting_def)

lemma waiting_iff: "t \<in> waiting f \<longleftrightarrow> (\<exists>c. f t = Some c \<and> c \<noteq> Kill_woken)"
  by (simp add: waiting_def)

text \<open>The counter of the calls in the wait, when one of fewer than \<open>2 ^ 30\<close> threads comes or goes.\<close>

lemma waiters_insert:
  fixes W :: "nat set"
  assumes "W \<subseteq> {..<2 ^ 30}" "t \<notin> W" shows "(of_nat (card (insert t W)) :: u32) = of_nat (card W) + 1"
  using finite_subset [OF assms(1) finite_lessThan] assms(2) by simp

lemma waiters_remove:
  fixes W :: "nat set"
  assumes "W \<subseteq> {..<2 ^ 30}" "t \<in> W" shows "(of_nat (card (W - {t})) :: u32) = of_nat (card W) - 1"
proof -
  have f: "finite W" using assms(1) finite_lessThan by (rule finite_subset)
  then have "Suc 0 \<le> card W" using assms(2) by (auto simp: card_gt_0_iff Suc_le_eq)
  then show ?thesis using f assms(2) by (simp add: card_Diff_singleton of_nat_diff)
qed

lemma waiters_nonzero:
  fixes W :: "nat set"
  assumes "W \<subseteq> {..<2 ^ 30}" "t \<in> W" shows "(of_nat (card W) :: u32) \<noteq> 0"
proof -
  have "finite W" using assms(1) finite_lessThan by (rule finite_subset)
  then have "0 < card W" using assms(2) by (auto simp: card_gt_0_iff)
  moreover have "card W \<le> 2 ^ 30" using card_mono [OF finite_lessThan assms(1)] by simp
  ultimately show ?thesis by (simp add: word_unat_eq_iff unat_of_nat)
qed

lemmas thread_life_defs = thread_start_def thread_cleanup_def thread_wait_begin_def thread_wait_end_def
  thread_kill_begin_def thread_kill_woken_def thread_kill_end_def wait_enter_def wait_again_def wait_leave_def
  signal_all_def Let_def

lemma thread_step_ok: "thread_step True s s' \<Longrightarrow> thread_life_ok s \<Longrightarrow> thread_life_ok s'"
proof (induction rule: thread_step.induct)
  case (starts s h ok b)
  then show ?case by (auto simp: thread_life_ok_def thread_life_defs split: if_splits)
next
  case (cleans h s)
  then show ?case by (auto simp: thread_life_ok_def thread_life_defs split: if_splits)
next
  case (waits t s timed b)
  then have "t \<notin> waiting (ts_calls s)" by (simp add: waiting_def)
  with waits waiters_insert [of "waiting (ts_calls s)" t] show ?case
    by (auto simp: thread_life_ok_def thread_life_defs split: if_splits)
next
  case (wait_ends s t timed res ok b)
  then have "t \<in> waiting (ts_calls s)" by (simp add: waiting_def)
  with wait_ends waiters_remove [of "waiting (ts_calls s)" t] show ?case
    by (auto simp: thread_life_ok_def thread_life_defs split: if_splits)
next
  case (kills t s b)
  then have "t \<notin> waiting (ts_calls s)" by (simp add: waiting_def)
  with kills waiters_insert [of "waiting (ts_calls s)" t] show ?case
    by (auto simp: thread_life_ok_def thread_life_defs split: if_splits)
next
  case (kill_wakes s t)
  then have "t \<in> waiting (ts_calls s)" by (simp add: waiting_def)
  with kill_wakes waiters_remove [of "waiting (ts_calls s)" t] show ?case
    by (auto simp: thread_life_ok_def thread_life_defs split: if_splits)
next
  case (kill_ends s t ok b)
  then have "t \<notin> waiting (ts_calls s)" by (simp add: waiting_def)
  with kill_ends show ?case by (auto simp: thread_life_ok_def thread_life_defs split: if_splits)
qed

lemma thread_life_reachable: "(thread_step True)\<^sup>*\<^sup>* thread_life_start s \<Longrightarrow> thread_life_ok s"
proof (induction rule: rtranclp_induct)
  case base
  show ?case by (simp add: thread_life_ok_def thread_life_start_def Thread_def WaitCondition_def)
qed (rule thread_step_ok)

text \<open>C6: As long as no wait has a time-out and the object is only started between calls, the object has the one
  native thread it has started last while \<open>running\<close> answers true and none while it answers false; and a
  call of \<open>wait\<close> or \<open>kill\<close> goes on waiting exactly as long as that thread lives: none returns too early and
  none is left behind.\<close>

theorem thread_life:
  assumes "(thread_step True)\<^sup>*\<^sup>* thread_life_start s"
  shows "ts_natives s = (if thread_running (ts_object s) then {th_thread (ts_object s)} else {}) \<and>
    (waiting (ts_calls s) = {} \<or> wait_again 0 (th_done (ts_object s)) = thread_running (ts_object s))"
  using thread_life_reachable [OF assms] waiters_nonzero
  by (auto simp: thread_life_ok_def thread_running_def wait_again_def Let_def split: if_splits)

section \<open>Runs\<close>

text \<open>Thread 7 kills native thread 1; when that has done its clean-up the object is started again, with native
  thread 2, before 7 has the mutex again.\<close>

abbreviation "life_object h r w k \<equiv>
  \<lparr>th_thread = h, th_running = r, th_done = \<lparr>wc_waiters = w, wc_wakeups = k\<rparr>\<rparr>"

abbreviation "life_system h r w k ns cs \<equiv>
  \<lparr>ts_object = life_object h r w k, ts_natives = ns, ts_calls = cs\<rparr>"

lemma life_starts:
  "(calm \<longrightarrow> cs = Map.empty) \<Longrightarrow> h' \<notin> ns \<Longrightarrow>
    thread_step calm (life_system h False w k ns cs) (life_system h' True w k (insert h' ns) cs)"
  using thread_step.starts [of calm "life_system h False w k ns cs" h'] by (simp add: thread_life_defs)

lemma life_cleans:
  "h' \<in> ns \<Longrightarrow> thread_step calm (life_system h r w k ns cs) (life_system h False w w (ns - {h'}) cs)"
  using thread_step.cleans [of h' "life_system h r w k ns cs"] by (simp add: thread_life_defs)

lemma life_kills:
  "t \<notin> ns \<Longrightarrow> t < 2 ^ 30 \<Longrightarrow> cs t = None \<Longrightarrow>
    thread_step calm (life_system h True w k ns cs) (life_system h True (w + 1) k ns (cs(t \<mapsto> In_kill)))"
  using thread_step.kills [of t "life_system h True w k ns cs"] by (simp add: thread_life_defs)

lemma life_waits:
  "t \<notin> ns \<Longrightarrow> t < 2 ^ 30 \<Longrightarrow> t \<noteq> h \<Longrightarrow> cs t = None \<Longrightarrow> (calm \<longrightarrow> \<not> timed) \<Longrightarrow>
    thread_step calm (life_system h True w k ns cs) (life_system h True (w + 1) k ns (cs(t \<mapsto> In_wait timed)))"
  using thread_step.waits [of t "life_system h True w k ns cs" calm timed] by (simp add: thread_life_defs)

lemma life_expires:
  "cs t = Some (In_wait True) \<Longrightarrow>
    thread_step calm (life_system h r w k ns cs) (life_system h r (w - 1) k ns (cs(t := None)))"
  using thread_step.wait_ends [of "life_system h r w k ns cs" t True 1 False] by (simp add: thread_life_defs)

lemma life_kill_wakes:
  "cs t = Some In_kill \<Longrightarrow> k \<noteq> 0 \<Longrightarrow>
    thread_step calm (life_system h r w k ns cs) (life_system h r (w - 1) (k - 1) ns (cs(t \<mapsto> Kill_woken)))"
  using thread_step.kill_wakes [of "life_system h r w k ns cs" t] by (simp add: thread_life_defs)

lemma life_kill_ends:
  "cs t = Some Kill_woken \<Longrightarrow> thread_step calm (life_system h r w k ns cs) (life_system h False w k ns (cs(t := None)))"
  using thread_step.kill_ends [of "life_system h r w k ns cs" t] by (simp add: thread_life_defs)

lemma thread_life_start_system: "thread_life_start = life_system 0 False 0 0 {} Map.empty"
  by (simp add: thread_life_start_def Thread_def WaitCondition_def)

lemma life_begins: "(thread_step calm)\<^sup>*\<^sup>* thread_life_start (life_system 1 True 0 0 {1} Map.empty)"
  unfolding thread_life_start_system
  by (rule r_into_rtranclp [of "thread_step calm"], rule life_starts) simp_all

theorem thread_life_witness:
  defines "s \<equiv> life_system 1 True 1 0 {1} (Map.empty(7 \<mapsto> In_kill))"
  shows "ts_natives s = (if thread_running (ts_object s) then {th_thread (ts_object s)} else {}) \<and>
    (waiting (ts_calls s) = {} \<or> wait_again 0 (th_done (ts_object s)) = thread_running (ts_object s))"
proof (rule thread_life)
  have "thread_step True (life_system 1 True 0 0 {1} Map.empty) s"
    unfolding s_def using life_kills [of 7 "{1}" Map.empty True 1 0 0] by simp
  with life_begins show "(thread_step True)\<^sup>*\<^sup>* thread_life_start s" by (rule rtranclp.rtrancl_into_rtrancl)
qed

lemma killed_and_started: "(thread_step False)\<^sup>*\<^sup>* thread_life_start (life_system 2 False 0 0 {2} Map.empty)"
proof -
  let ?cs = "Map.empty(7 \<mapsto> In_kill)"
  note [trans] = rtranclp.rtrancl_into_rtrancl [of "thread_step False"]
  note life_begins [of False]
  also have "thread_step False (life_system 1 True 0 0 {1} Map.empty) (life_system 1 True 1 0 {1} ?cs)"
    using life_kills [of 7 "{1}" Map.empty False 1 0 0] by simp
  also have "thread_step False \<dots> (life_system 1 False 1 1 {} ?cs)"
    using life_cleans [of 1 "{1}" False 1 True 1 0 ?cs] by simp
  also have "thread_step False \<dots> (life_system 1 False 0 0 {} (Map.empty(7 \<mapsto> Kill_woken)))"
    using life_kill_wakes [of ?cs 7 1 False 1 False 1 "{}"] by simp
  also have "thread_step False \<dots> (life_system 2 True 0 0 {2} (Map.empty(7 \<mapsto> Kill_woken)))"
    using life_starts [of False _ 2 "{}" 1 0 0] by simp
  also have "thread_step False \<dots> (life_system 2 False 0 0 {2} Map.empty)"
    using life_kill_ends [of "Map.empty(7 \<mapsto> Kill_woken)" 7 False 2 True 0 0 "{2}"] by simp
  finally show ?thesis .
qed

text \<open>C38: When a thread object is started after the clean-up that a \<open>kill\<close> waits for and before the \<open>kill\<close> goes on, the
  \<open>kill\<close> marks the new thread as not running: without any call in progress a native thread executes that
  \<open>wait\<close> and \<open>kill\<close> (also the one of the destructor) refuse to know, and the next \<open>start\<close> gives the object
  two native threads.\<close>

theorem killed_and_started_again:
  shows "\<exists>s. (thread_step False)\<^sup>*\<^sup>* thread_life_start s \<and> ts_calls s = Map.empty \<and> ts_natives s = {2} \<and>
    thread_running (ts_object s) = False \<and> thread_kill_begin True (ts_object s) = Inl False \<and>
    thread_wait_begin 7 (ts_object s) = Inl False \<and>
    (\<exists>s'. thread_step False s s' \<and> ts_natives s' = {2, 3})"
proof (intro exI conjI)
  show "thread_step False (life_system 2 False 0 0 {2} Map.empty) (life_system 3 True 0 0 {3, 2} Map.empty)"
    using life_starts [of False Map.empty 3 "{2}" 2 0 0] by simp
qed (auto simp: killed_and_started thread_running_def thread_kill_begin_def thread_wait_begin_def)

text \<open>A wait that times out between the clean-up and its own return leaves the wake-up that was meant for it: the
  first wait for the next native thread may answer true while that thread runs.\<close>

lemma stale_wakeup:
  "(thread_step False)\<^sup>*\<^sup>* thread_life_start (life_system 2 True 1 1 {2} [7 \<mapsto> In_wait False])"
  "wait_again 0 (th_done (life_object 2 True 1 1)) = False"
  "thread_wait_end 0 (life_object 2 True 1 1) = (True, life_object 2 True 0 0)"
proof -
  note [trans] = rtranclp.rtrancl_into_rtrancl [of "thread_step False"]
  note life_begins [of False]
  also have "thread_step False (life_system 1 True 0 0 {1} Map.empty) (life_system 1 True 1 0 {1} [7 \<mapsto> In_wait True])"
    using life_waits [of 7 "{1}" 1 Map.empty False True 0 0] by simp
  also have "thread_step False \<dots> (life_system 1 False 1 1 {} [7 \<mapsto> In_wait True])"
    using life_cleans [of 1 "{1}" False 1 True 1 0 "[7 \<mapsto> In_wait True]"] by simp
  also have "thread_step False \<dots> (life_system 1 False 0 1 {} Map.empty)"
    using life_expires [of "[7 \<mapsto> In_wait True]" 7 False 1 False 1 1 "{}"] by simp
  also have "thread_step False \<dots> (life_system 2 True 0 1 {2} Map.empty)"
    using life_starts [of False Map.empty 2 "{}" 1 0 1] by simp
  also have "thread_step False \<dots> (life_system 2 True 1 1 {2} [7 \<mapsto> In_wait False])"
    using life_waits [of 7 "{2}" 2 Map.empty False False 0 1] by simp
  finally show "(thread_step False)\<^sup>*\<^sup>* thread_life_start (life_system 2 True 1 1 {2} [7 \<mapsto> In_wait False])" .
qed (simp_all add: thread_life_defs)

end
