(* ===== verification/Windows_Thread_Life.thy ===== *)
theory Windows_Thread_Life
  imports Windows_Thread
begin

text \<open>
  The life of one \<open>Thread\<close> of \<^verbatim>\<open>src/windows/thread.cc\<close>: its native threads and the calls of
  \<open>start\<close>, \<open>wait\<close> and \<open>kill\<close> that other threads make on it interleave. Unlike on Unix \<open>start\<close> and
  \<open>kill\<close> block with the mutex of the object held: \<open>start\<close> until the native thread sets the event, \<open>kill\<close> and
  the end of the native thread in \<open>signal_all\<close>. The steps of the wait condition that the object
  owns are those of \<open>win_cond_step\<close>.
\<close>

section \<open>The steps\<close>

text \<open>Who holds the mutex of the object between two steps; the last two say whether \<open>signal_all\<close> waits.\<close>

datatype mutex_holder = Nobody | Starting nat | Ending nat bool | Killing nat bool

record win_thread_system =
  wl_object :: win_thread_object
  wl_holder :: mutex_holder
  wl_natives :: "nat \<Rightarrow> bool option"   \<comment> \<open>the native threads that live; whether they have set the event\<close>
  wl_waits :: "nat \<Rightarrow> win_wait_pc option"

text \<open>
  The handle of a native thread is its identifier, which is not 0. A native thread makes no calls on its
  own object; \<open>timeouts\<close> says whether waits can expire. The blocking call of \<open>wait\<close> releases the mutex.
\<close>

inductive win_thread_step :: "bool \<Rightarrow> win_thread_system \<Rightarrow> win_thread_system \<Rightarrow> bool" for timeouts where
  start_fails: "wl_holder s = Nobody \<Longrightarrow> win_thread_start_begin 0 (wl_object s) = Inl (ok, b) \<Longrightarrow>
    win_thread_step timeouts s (s\<lparr>wl_object := b\<rparr>)"
| start_begins: "wl_holder s = Nobody \<Longrightarrow> wl_natives s t = None \<Longrightarrow> wl_waits s t = None \<Longrightarrow>
    wl_natives s h = None \<Longrightarrow> wl_waits s h = None \<Longrightarrow> h \<noteq> t \<Longrightarrow>
    win_thread_start_begin (int h) (wl_object s) = Inr b \<Longrightarrow>
    win_thread_step timeouts s (s\<lparr>wl_object := b, wl_holder := Starting t, wl_natives := (wl_natives s)(h \<mapsto> False)\<rparr>)"
| native_begins: "wl_natives s h = Some False \<Longrightarrow>
    win_thread_step timeouts s (s\<lparr>wl_object := win_native_begin (wl_object s), wl_natives := (wl_natives s)(h \<mapsto> True)\<rparr>)"
| start_ends: "wl_holder s = Starting t \<Longrightarrow> wt_start_event (wl_object s) \<Longrightarrow>
    win_thread_start_end (wl_object s) = (ok, b) \<Longrightarrow>
    win_thread_step timeouts s (s\<lparr>wl_object := b, wl_holder := Nobody\<rparr>)"
| native_signals: "wl_holder s = Nobody \<Longrightarrow> wl_natives s h = Some True \<Longrightarrow> win_native_signal (wl_object s) = (w, b) \<Longrightarrow>
    win_thread_step timeouts s (s\<lparr>wl_object := b, wl_holder := Ending h w\<rparr>)"
| native_ends: "wl_holder s = Ending h w \<Longrightarrow> (w \<longrightarrow> cv_done (wt_done (wl_object s))) \<Longrightarrow>
    win_thread_step timeouts s (s\<lparr>wl_object := win_native_end w (wl_object s), wl_holder := Nobody,
      wl_natives := (wl_natives s)(h := None)\<rparr>)"
| waits: "wl_holder s = Nobody \<Longrightarrow> wl_natives s t = None \<Longrightarrow> wl_waits s t = None \<Longrightarrow> t < 2 ^ 30 \<Longrightarrow>
    win_thread_wait_begin (wl_object s) = Inr b \<Longrightarrow>
    win_thread_step timeouts s (s\<lparr>wl_object := b, wl_waits := (wl_waits s)(t \<mapsto> Blocked)\<rparr>)"
| wait_acquires: "wl_waits s t = Some Blocked \<Longrightarrow> 0 < cv_sema (wt_done (wl_object s)) \<Longrightarrow>
    win_thread_step timeouts s (s\<lparr>wl_object := (wl_object s)\<lparr>wt_done :=
        (wt_done (wl_object s))\<lparr>cv_sema := cv_sema (wt_done (wl_object s)) - 1\<rparr>\<rparr>,
      wl_waits := (wl_waits s)(t \<mapsto> Woken)\<rparr>)"
| wait_woken: "wl_waits s t = Some Woken \<Longrightarrow> win_wait_woken (wt_done (wl_object s)) = (last_waiter, c) \<Longrightarrow>
    win_thread_wait_end False (wl_object s) = (ok, b) \<Longrightarrow>
    win_thread_step timeouts s (s\<lparr>wl_object := b,
      wl_waits := (wl_waits s)(t \<mapsto> (if last_waiter then Last_waiter else Relocking ok))\<rparr>)"
| wait_notifies: "wl_waits s t = Some Last_waiter \<Longrightarrow>
    win_thread_step timeouts s (s\<lparr>wl_object := (wl_object s)\<lparr>wt_done := (wt_done (wl_object s))\<lparr>cv_done := True\<rparr>\<rparr>,
      wl_waits := (wl_waits s)(t \<mapsto> Relocking True)\<rparr>)"
| wait_expires: "timeouts \<Longrightarrow> wl_waits s t = Some Blocked \<Longrightarrow>
    win_thread_step timeouts s (s\<lparr>wl_waits := (wl_waits s)(t \<mapsto> Expired)\<rparr>)"
| wait_expired: "wl_waits s t = Some Expired \<Longrightarrow> win_thread_wait_end True (wl_object s) = (ok, b) \<Longrightarrow>
    win_thread_step timeouts s (s\<lparr>wl_object := b, wl_waits := (wl_waits s)(t \<mapsto> Relocking ok)\<rparr>)"
| wait_ends: "wl_waits s t = Some (Relocking r) \<Longrightarrow> wl_holder s = Nobody \<Longrightarrow>
    win_thread_step timeouts s (s\<lparr>wl_waits := (wl_waits s)(t := None)\<rparr>)"
| kills: "wl_holder s = Nobody \<Longrightarrow> wl_natives s t = None \<Longrightarrow> wl_waits s t = None \<Longrightarrow>
    win_thread_kill_begin True (wl_object s) = Inr (w, b) \<Longrightarrow>
    win_thread_step timeouts s (s\<lparr>wl_object := b, wl_holder := Killing t w,
      wl_natives := (wl_natives s)(nat (wt_thread (wl_object s)) := None)\<rparr>)"
| kill_ends: "wl_holder s = Killing t w \<Longrightarrow> (w \<longrightarrow> cv_done (wt_done (wl_object s))) \<Longrightarrow>
    win_thread_kill_end w (wl_object s) = (ok, b) \<Longrightarrow>
    win_thread_step timeouts s (s\<lparr>wl_object := b, wl_holder := Nobody\<rparr>)"

definition win_life_start :: win_thread_system where
  "win_life_start = \<lparr>wl_object = win_Thread, wl_holder = Nobody, wl_natives = Map.empty, wl_waits = Map.empty\<rparr>"

section \<open>The invariant\<close>

definition holder_id :: "mutex_holder \<Rightarrow> nat option" where
  "holder_id x = (case x of Nobody \<Rightarrow> None | Starting t \<Rightarrow> Some t | Ending h w \<Rightarrow> Some h | Killing t w \<Rightarrow> Some t)"

text \<open>What the members say of the native threads, by the phase the mutex is held for.\<close>

definition natives_exact :: "win_thread_system \<Rightarrow> bool" where
  "natives_exact s \<longleftrightarrow> (let b = wl_object s; h = nat (wt_thread b) in
     case wl_holder s of
       Nobody \<Rightarrow> \<not> wt_start_event b \<and> wl_natives s = (if wt_running b then [h \<mapsto> True] else Map.empty)
     | Starting t \<Rightarrow> \<not> wt_running b \<and> wl_natives s = [h \<mapsto> wt_start_event b] \<and> t \<noteq> h
     | Ending u w \<Rightarrow> \<not> wt_start_event b \<and> wt_running b \<and> u = h \<and> wl_natives s = [h \<mapsto> True]
     | Killing t w \<Rightarrow> \<not> wt_start_event b \<and> wt_running b \<and> wl_natives s = Map.empty)"

text \<open>A thread that holds the mutex, and one that executes \<open>run\<close>, is in no wait of the object.\<close>

definition win_life_ok :: "win_thread_system \<Rightarrow> bool" where
  "win_life_ok s \<longleftrightarrow> natives_exact s \<and> (\<forall>t. holder_id (wl_holder s) = Some t \<longrightarrow> wl_waits s t = None) \<and>
     (\<forall>h. wl_natives s h \<noteq> None \<longrightarrow> wl_waits s h = None)"

lemmas win_life_defs = win_thread_start_begin_def win_thread_start_end_def win_native_begin_def win_native_signal_def
  win_native_end_def win_thread_wait_begin_def win_thread_wait_end_def win_thread_kill_begin_def win_thread_kill_end_def
  Let_def

lemma natives_exact_step: "win_thread_step timeouts s s' \<Longrightarrow> natives_exact s \<Longrightarrow> natives_exact s'"
  by (induction rule: win_thread_step.induct)
    (auto simp: natives_exact_def win_life_defs fun_upd_idem split: if_splits prod.splits mutex_holder.splits)

lemma win_life_step_ok:
  assumes "win_thread_step timeouts s s'" "win_life_ok s" shows "win_life_ok s'"
proof -
  have "natives_exact s'" using assms natives_exact_step by (simp add: win_life_ok_def)
  moreover have "(\<forall>t. holder_id (wl_holder s') = Some t \<longrightarrow> wl_waits s' t = None) \<and>
      (\<forall>h. wl_natives s' h \<noteq> None \<longrightarrow> wl_waits s' h = None)"
    using assms by (induction rule: win_thread_step.induct) (auto simp: win_life_ok_def holder_id_def)
  ultimately show ?thesis by (simp add: win_life_ok_def)
qed

lemma win_life_reachable: "(win_thread_step timeouts)\<^sup>*\<^sup>* win_life_start s \<Longrightarrow> win_life_ok s"
proof (induction rule: rtranclp_induct)
  case base
  show ?case by (simp add: win_life_ok_def natives_exact_def win_life_start_def win_Thread_def holder_id_def)
qed (rule win_life_step_ok)

text \<open>C24: Whatever calls are made on a \<open>Thread\<close>, also with time-outs, the object has at most one native thread, the
  one whose handle it has; whenever the mutex is free it executes \<open>run\<close> exactly while \<open>running\<close> answers
  true, and there is none while it answers false: the race of the Unix class between \<open>kill\<close> and \<open>start\<close> is
  not there.\<close>

theorem win_thread_natives:
  assumes "(win_thread_step timeouts)\<^sup>*\<^sup>* win_life_start s"
  shows "wl_natives s = (let b = wl_object s; h = nat (wt_thread b) in
    case wl_holder s of
      Nobody \<Rightarrow> if win_thread_running b then [h \<mapsto> True] else Map.empty
    | Starting t \<Rightarrow> [h \<mapsto> wt_start_event b]
    | Ending u w \<Rightarrow> [h \<mapsto> True]
    | Killing t w \<Rightarrow> Map.empty)"
  using win_life_reachable [OF assms]
  by (auto simp: win_life_ok_def natives_exact_def win_thread_running_def Let_def split: mutex_holder.splits)

section \<open>The wait condition of the object\<close>

text \<open>The view of the wait condition: its state, the threads in its \<open>wait\<close> and \<open>signal_all\<close>, and the mutex.\<close>

definition cond_view :: "win_thread_system \<Rightarrow> win_cond_system" where
  "cond_view s = \<lparr>wy_cond = wt_done (wl_object s), wy_waits = wl_waits s,
     wy_signals = (case wl_holder s of Ending h True \<Rightarrow> {h} | Killing t True \<Rightarrow> {t} | _ \<Rightarrow> {}),
     wy_mutex = holder_id (wl_holder s)\<rparr>"

lemma cond_lock: "wy_mutex s = None \<Longrightarrow> wy_waits s t = None \<Longrightarrow> s' = s\<lparr>wy_mutex := Some t\<rparr> \<Longrightarrow>
    (win_cond_step timeouts)\<^sup>*\<^sup>* s s'"
  using win_cond_step.take_mutex [of s t timeouts] by auto

lemma cond_unlock: "wy_mutex s = Some t \<Longrightarrow> wy_waits s t = None \<Longrightarrow> t \<notin> wy_signals s \<Longrightarrow> s' = s\<lparr>wy_mutex := None\<rparr> \<Longrightarrow>
    (win_cond_step timeouts)\<^sup>*\<^sup>* s s'"
  using win_cond_step.drop_mutex [of s t timeouts] by auto

text \<open>\<open>signal_all\<close> with the mutex that has just been locked, and its end with the one that is unlocked.\<close>

lemma cond_signal_all:
  assumes "wy_mutex s = None" "wy_waits s t = None" "wy_signals s = {}" "win_signal_all_begin (wy_cond s) = (w, c)"
    "s' = s\<lparr>wy_cond := c, wy_signals := (if w then {t} else {}), wy_mutex := Some t\<rparr>"
  shows "(win_cond_step timeouts)\<^sup>*\<^sup>* s s'"
proof -
  have "(win_cond_step timeouts)\<^sup>*\<^sup>* s (s\<lparr>wy_mutex := Some t\<rparr>)" using assms(1,2) by (rule cond_lock) simp
  moreover have "win_cond_step timeouts (s\<lparr>wy_mutex := Some t\<rparr>) s'"
    using win_cond_step.signals_all [of "s\<lparr>wy_mutex := Some t\<rparr>" t w c timeouts] assms by (cases s; cases w) simp_all
  ultimately show ?thesis by (rule rtranclp.rtrancl_into_rtrancl)
qed

lemma cond_signalled:
  assumes "wy_mutex s = Some t" "wy_waits s t = None" "wy_signals s = (if w then {t} else {})" "w \<longrightarrow> cv_done (wy_cond s)"
    "s' = s\<lparr>wy_cond := (if w then win_signal_all_end (wy_cond s) else wy_cond s), wy_signals := {}, wy_mutex := None\<rparr>"
  shows "(win_cond_step timeouts)\<^sup>*\<^sup>* s s'"
proof (cases w)
  case True
  let ?s = "s\<lparr>wy_cond := win_signal_all_end (wy_cond s), wy_signals := {}\<rparr>"
  have "win_cond_step timeouts s ?s"
    using win_cond_step.signalled [of t s timeouts] assms True by simp
  moreover have "(win_cond_step timeouts)\<^sup>*\<^sup>* ?s s'" using assms True by (intro cond_unlock [of _ t]) simp_all
  ultimately show ?thesis by (rule converse_rtranclp_into_rtranclp)
next
  case False
  then show ?thesis using assms by (intro cond_unlock [of _ t]) simp_all
qed

lemma cond_wait:
  assumes "wy_mutex s = None" "wy_waits s t = None" "t \<notin> wy_signals s" "t < 2 ^ 30"
    "s' = s\<lparr>wy_cond := win_wait_enter (wy_cond s), wy_waits := (wy_waits s)(t \<mapsto> Blocked)\<rparr>"
  shows "(win_cond_step timeouts)\<^sup>*\<^sup>* s s'"
proof -
  let ?s1 = "s\<lparr>wy_mutex := Some t\<rparr>"
  let ?s2 = "?s1\<lparr>wy_cond := win_wait_enter (wy_cond s), wy_waits := (wy_waits s)(t \<mapsto> Entered)\<rparr>"
  note [trans] = rtranclp.rtrancl_into_rtrancl [of "win_cond_step timeouts"]
  have "(win_cond_step timeouts)\<^sup>*\<^sup>* s ?s1" using assms(1,2) by (rule cond_lock) simp
  also have "win_cond_step timeouts ?s1 ?s2"
    using win_cond_step.enters [of ?s1 t timeouts] assms by simp
  also have "win_cond_step timeouts ?s2 s'"
    using win_cond_step.blocks [of ?s2 t timeouts] assms by (cases s) simp
  finally show ?thesis .
qed

text \<open>Every step of the object is made of steps of its wait condition, or does not touch it.\<close>

lemma cond_view_step:
  assumes "win_thread_step timeouts s s'" "win_life_ok s"
  shows "(win_cond_step timeouts)\<^sup>*\<^sup>* (cond_view s) (cond_view s')"
  using assms
proof (induction rule: win_thread_step.induct)
  case (start_fails s ok b)
  then have "cond_view (s\<lparr>wl_object := b\<rparr>) = cond_view s"
    by (auto simp: cond_view_def win_life_defs split: if_splits)
  then show ?case by simp
next
  case (start_begins s t h b)
  then show ?case
    by (intro cond_lock [of _ t]) (auto simp: cond_view_def holder_id_def win_life_defs split: if_splits)
next
  case (native_begins s h)
  then show ?case by (simp add: cond_view_def win_life_defs)
next
  case (start_ends s t ok b)
  then show ?case
    by (intro cond_unlock [of _ t]) (auto simp: cond_view_def holder_id_def win_life_ok_def win_life_defs)
next
  case (native_signals s h w b)
  then show ?case
    by (intro cond_signal_all [of _ h w "wt_done b"])
      (auto simp: cond_view_def holder_id_def win_life_ok_def win_life_defs split: prod.splits)
next
  case (native_ends s h w)
  then show ?case
    by (intro cond_signalled [of _ h w]) (auto simp: cond_view_def holder_id_def win_life_ok_def win_life_defs)
next
  case (waits s t b)
  then show ?case
    by (intro cond_wait [of _ t]) (auto simp: cond_view_def holder_id_def win_life_defs split: if_splits)
next
  case (wait_acquires s t)
  then show ?case
    using win_cond_step.acquires [of "cond_view s" t timeouts] by (simp add: cond_view_def r_into_rtranclp)
next
  case (wait_woken s t last_waiter c ok b)
  then show ?case
    using win_cond_step.leaves_woken [of "cond_view s" t last_waiter c timeouts]
    by (auto simp: cond_view_def win_life_defs)
next
  case (wait_notifies s t)
  then show ?case
    using win_cond_step.notifies [of "cond_view s" t timeouts] by (simp add: cond_view_def r_into_rtranclp)
next
  case (wait_expires s t)
  then show ?case
    using win_cond_step.expires [of timeouts "cond_view s" t] by (simp add: cond_view_def r_into_rtranclp)
next
  case (wait_expired s t ok b)
  then show ?case
    using win_cond_step.leaves_expired [of "cond_view s" t timeouts] by (auto simp: cond_view_def win_life_defs)
next
  case (wait_ends s t r)
  let ?v = "cond_view s" and ?v' = "cond_view (s\<lparr>wl_waits := (wl_waits s)(t := None)\<rparr>)"
  have "win_cond_step timeouts ?v (?v\<lparr>wy_waits := (wy_waits ?v)(t := None), wy_mutex := Some t\<rparr>)"
    using wait_ends win_cond_step.relocks [of ?v t r timeouts] by (simp add: cond_view_def holder_id_def)
  moreover have "(win_cond_step timeouts)\<^sup>*\<^sup>* (?v\<lparr>wy_waits := (wy_waits ?v)(t := None), wy_mutex := Some t\<rparr>) ?v'"
    using wait_ends by (intro cond_unlock [of _ t]) (simp_all add: cond_view_def holder_id_def)
  ultimately show ?case by (rule converse_rtranclp_into_rtranclp)
next
  case (kills s t w b)
  then show ?case
    by (intro cond_signal_all [of _ t w "wt_done b"])
      (auto simp: cond_view_def holder_id_def win_life_defs split: prod.splits if_splits)
next
  case (kill_ends s t w ok b)
  then show ?case
    by (intro cond_signalled [of _ t w]) (auto simp: cond_view_def holder_id_def win_life_ok_def win_life_defs)
qed

lemma cond_view_reachable:
  "(win_thread_step timeouts)\<^sup>*\<^sup>* win_life_start s \<Longrightarrow> (win_cond_step timeouts)\<^sup>*\<^sup>* win_cond_start (cond_view s)"
proof (induction rule: rtranclp_induct)
  case base
  have "cond_view win_life_start = win_cond_start"
    by (simp add: cond_view_def win_life_start_def win_cond_start_def win_Thread_def holder_id_def)
  then show ?case by simp
next
  case (step s s')
  then show ?case by (meson cond_view_step win_life_reachable rtranclp_trans)
qed

section \<open>The mutex is always released\<close>

text \<open>A step of the condition that brings a broadcast forward is a step of the thread that waits.\<close>

lemma cond_step_lifts:
  assumes "win_cond_step False (cond_view s) x" "broadcasting t (cond_view s)"
    "broadcast_work x < broadcast_work (cond_view s)"
  shows "\<exists>s'. win_thread_step False s s' \<and> cond_view s' = x \<and> wl_holder s' = wl_holder s"
  using assms
proof (cases rule: win_cond_step.cases)
  case (acquires u)
  then show ?thesis
    using win_thread_step.wait_acquires [of s u False] by (force simp: cond_view_def)
next
  case (leaves_woken u l c)
  obtain ok b where "win_thread_wait_end False (wl_object s) = (ok, b)" by fastforce
  with leaves_woken show ?thesis
    using win_thread_step.wait_woken [of s u l c ok b False] by (force simp: cond_view_def win_life_defs)
next
  case (notifies u)
  then show ?thesis
    using win_thread_step.wait_notifies [of s u False] by (force simp: cond_view_def)
qed (auto simp: broadcasting_def broadcast_work_def at_pcs_same card_insert_le [THEN leD])

lemma signal_all_completes:
  assumes "win_life_ok s" "win_cond_ok (cond_view s)" "broadcasting t (cond_view s)"
  shows "\<exists>s'. (win_thread_step False)\<^sup>*\<^sup>* s s' \<and> wl_holder s' = wl_holder s \<and> cv_done (wt_done (wl_object s'))"
  using assms
proof (induction "broadcast_work (cond_view s)" arbitrary: s rule: less_induct)
  case less
  show ?case
  proof (cases "cv_done (wy_cond (cond_view s))")
    case True
    then show ?thesis by (auto simp: cond_view_def)
  next
    case False
    with broadcast_progress [OF less.prems(2,3)] obtain x where
      x: "win_cond_step False (cond_view s) x" "broadcasting t x" "broadcast_work x < broadcast_work (cond_view s)"
      by blast
    with cond_step_lifts less.prems(3) obtain s1 where
      s1: "win_thread_step False s s1" "cond_view s1 = x" "wl_holder s1 = wl_holder s" by blast
    have "win_life_ok s1" "win_cond_ok x"
      using win_life_step_ok s1(1) win_cond_step_ok x(1) less.prems by blast+
    with less.hyps [of s1] x s1 obtain s' where
      "(win_thread_step False)\<^sup>*\<^sup>* s1 s'" "wl_holder s' = wl_holder s" "cv_done (wt_done (wl_object s'))" by auto
    with s1(1) show ?thesis by (meson converse_rtranclp_into_rtranclp)
  qed
qed

lemma signal_all_releases:
  assumes "(win_thread_step False)\<^sup>*\<^sup>* win_life_start s" "wl_holder s = Ending t w \<or> wl_holder s = Killing t w"
  shows "\<exists>s'. (win_thread_step False)\<^sup>*\<^sup>* s s' \<and> wl_holder s' = wl_holder s \<and> (w \<longrightarrow> cv_done (wt_done (wl_object s')))"
proof (cases w)
  case True
  have ok: "win_cond_ok (cond_view s) \<and> broadcast_ok (cond_view s)"
    using assms(1) by (intro win_cond_reachable cond_view_reachable)
  have "wy_signals (cond_view s) = {t}" using assms(2) True by (auto simp: cond_view_def)
  with ok have "broadcasting t (cond_view s)" by (auto simp: broadcast_ok_def broadcasting_def)
  with ok win_life_reachable [OF assms(1)] show ?thesis using signal_all_completes by blast
qed blast

lemma start_releases:
  assumes "win_life_ok s" "wl_holder s = Starting t"
  shows "\<exists>s'. (win_thread_step False)\<^sup>*\<^sup>* s s' \<and> wl_holder s' = Starting t \<and> wt_start_event (wl_object s')"
proof (cases "wt_start_event (wl_object s)")
  case False
  let ?h = "nat (wt_thread (wl_object s))"
  let ?s = "s\<lparr>wl_object := win_native_begin (wl_object s), wl_natives := (wl_natives s)(?h \<mapsto> True)\<rparr>"
  have "wl_natives s ?h = Some False" using assms False by (simp add: win_life_ok_def natives_exact_def Let_def)
  then have "win_thread_step False s ?s" by (rule win_thread_step.native_begins)
  then show ?thesis using assms(2) by (intro exI [of _ ?s]) (simp add: win_native_begin_def r_into_rtranclp)
qed (use assms(2) in blast)

text \<open>C25: As long as no wait has a time-out, \<open>start\<close>, \<open>kill\<close> and the end of the native thread, which block with the
  mutex of the object held, always get through: from every reachable state the threads can go on until
  the mutex is free.\<close>

theorem win_thread_mutex_released:
  assumes "(win_thread_step False)\<^sup>*\<^sup>* win_life_start s"
  shows "\<exists>s'. (win_thread_step False)\<^sup>*\<^sup>* s s' \<and> wl_holder s' = Nobody"
proof -
  note into = rtranclp.rtrancl_into_rtrancl [of "win_thread_step False" s]
  have life: "win_life_ok s" using assms by (rule win_life_reachable)
  show ?thesis
  proof (cases "wl_holder s")
    case (Starting t)
    with start_releases [OF life] obtain s' where
      s': "(win_thread_step False)\<^sup>*\<^sup>* s s'" "wl_holder s' = Starting t" "wt_start_event (wl_object s')" by blast
    obtain ok b where "win_thread_start_end (wl_object s') = (ok, b)" by fastforce
    from into [OF s'(1) win_thread_step.start_ends [OF s'(2,3) this]] show ?thesis by auto
  next
    case (Ending h w)
    with signal_all_releases [OF assms, of h w] obtain s' where
      s': "(win_thread_step False)\<^sup>*\<^sup>* s s'" "wl_holder s' = Ending h w" "w \<longrightarrow> cv_done (wt_done (wl_object s'))" by auto
    from into [OF s'(1) win_thread_step.native_ends [OF s'(2,3)]] show ?thesis by auto
  next
    case (Killing t w)
    with signal_all_releases [OF assms, of t w] obtain s' where
      s': "(win_thread_step False)\<^sup>*\<^sup>* s s'" "wl_holder s' = Killing t w" "w \<longrightarrow> cv_done (wt_done (wl_object s'))" by auto
    obtain ok b where "win_thread_kill_end w (wl_object s') = (ok, b)" by fastforce
    from into [OF s'(1) win_thread_step.kill_ends [OF s'(2,3) this]] show ?thesis by auto
  qed blast
qed

section \<open>A run\<close>

text \<open>Thread 7 starts native thread 1, which has not set the event yet.\<close>

definition win_life_started :: win_thread_system where
  "win_life_started = win_life_start\<lparr>wl_object := win_Thread\<lparr>wt_thread := 1\<rparr>, wl_holder := Starting 7, wl_natives := [1 \<mapsto> False]\<rparr>"

lemma win_life_started_reachable: "(win_thread_step timeouts)\<^sup>*\<^sup>* win_life_start win_life_started"
  using win_thread_step.start_begins [of win_life_start 7 1 "win_Thread\<lparr>wt_thread := 1\<rparr>" timeouts]
  by (simp add: win_life_started_def win_life_start_def win_Thread_def win_thread_start_begin_def r_into_rtranclp)

theorem win_thread_natives_witness:
  "wl_natives win_life_started = (let b = wl_object win_life_started; h = nat (wt_thread b) in
    case wl_holder win_life_started of
      Nobody \<Rightarrow> if win_thread_running b then [h \<mapsto> True] else Map.empty
    | Starting t \<Rightarrow> [h \<mapsto> wt_start_event b]
    | Ending u w \<Rightarrow> [h \<mapsto> True]
    | Killing t w \<Rightarrow> Map.empty)"
  by (rule win_thread_natives [OF win_life_started_reachable [of True]])

theorem win_thread_mutex_released_witness:
  "\<exists>s'. (win_thread_step False)\<^sup>*\<^sup>* win_life_started s' \<and> wl_holder s' = Nobody"
  by (rule win_thread_mutex_released [OF win_life_started_reachable])

end
