(* ===== verification/Stream_Stacks.thy ===== *)
theory Stream_Stacks
  imports Line_Reader Buffered_Stream File_Systems
begin

text \<open>
  Streams on top of each other, as a program uses them: a \<open>LineReader\<close> over a \<open>BufferedInStream\<close> over a
  \<open>FileInStream\<close>, and a \<open>BufferedOutStream\<close> over a \<open>FileOutStream\<close>, down to the calls of the system. The buffer
  is what makes the reader right: it asks the stream for four bytes at once to find a byte order mark,
  and a file may give fewer.
\<close>

section \<open>A buffer over a stream that can be rewound\<close>

lemma buffered_read_loop_size:
  "buffered_read_loop I n pos count out b = Ret (res, bs, b') \<Longrightarrow> bi_size b' = bi_size b"
proof (induction n arbitrary: pos count out b)
  case (Suc n)
  show ?case using Suc.prems
    by (auto simp: Let_def obind_Ret_eq split: if_splits dest!: Suc.IH)
qed simp

lemma buffered_read_size:
  "is_read (buffered_in_stream I fuel) c b = Ret (res, bs, b') \<Longrightarrow> bi_size b' = bi_size b"
  by (auto simp: buffered_in_stream_def buffered_in_read_def obind_Ret_eq split: if_splits dest: buffered_read_loop_size)

lemma buffered_seek_loop_size:
  "buffered_seek_loop I fuel n bsz d b = Ret (ok, b') \<Longrightarrow> bi_size b' = bi_size b"
proof (induction n arbitrary: d b)
  case (Suc n)
  have "buffered_in_read I fuel c b = Ret (res, bs, b1) \<Longrightarrow> bi_size b1 = bi_size b" for c res bs b1
    using buffered_read_size [of I fuel c b res bs b1] by (simp add: buffered_in_stream_def)
  with Suc show ?case by (auto simp: Let_def obind_Ret_eq split: if_splits)
qed simp

text \<open>The stream below can be moved to its beginning, where it holds \<open>whole\<close>.\<close>

locale buffered_text = buffered_in I rem inv cmax fuel
  for I :: "'s in_stream" and rem :: "'s \<Rightarrow> byte list" and inv :: "'s \<Rightarrow> bool" and cmax :: nat and fuel :: nat +
  fixes whole :: "byte list"
  assumes lower_rewind: "inv s \<Longrightarrow> \<exists>s'. is_seek I 0 ckSTREAM_BEGIN s = Ret (True, s') \<and> inv s' \<and> rem s' = whole"
    and cmax_four: "4 \<le> cmax"
begin

lemma buffered_rewind:
  assumes "buffered_inv inv cmax b" "bi_size b \<noteq> 0"
  shows "\<exists>b'. is_seek (buffered_in_stream I fuel) 0 ckSTREAM_BEGIN b = Ret (True, b') \<and>
    (buffered_inv inv cmax b' \<and> bi_size b' \<noteq> 0) \<and> buffered_rem rem b' = whole"
proof -
  have "inv (bi_stream b)" using assms(1) by (simp add: buffered_inv_def)
  then obtain s' where "is_seek I 0 ckSTREAM_BEGIN (bi_stream b) = Ret (True, s')" "inv s'" "rem s' = whole"
    using lower_rewind by blast
  with assms show ?thesis
    by (intro exI [of _ "b\<lparr>bi_stream := s', bi_pos := 0, bi_data := 0\<rparr>"])
      (simp add: buffered_in_stream_def buffered_in_seek_def buffered_inv_def buffered_rem_def slice_0)
qed

lemma buffered_skip:
  assumes "buffered_inv inv cmax b" "bi_size b \<noteq> 0" "unat d \<le> cmax" "unat d \<le> length (buffered_rem rem b)"
  shows "\<exists>b'. is_seek (buffered_in_stream I fuel) d ckSTREAM_CURRENT b = Ret (True, b') \<and>
    (buffered_inv inv cmax b' \<and> bi_size b' \<noteq> 0) \<and> buffered_rem rem b' = drop (unat d) (buffered_rem rem b)"
proof (cases "d = 0")
  case True
  with assms show ?thesis by (simp add: buffered_in_stream_def buffered_in_seek_def)
next
  case False
  have bsz: "0 < bi_size b" "unat (bi_size b) \<le> cmax" "unat d < fuel"
    using assms fuel_ok by (auto simp: buffered_inv_def word_neq_0_conv)
  obtain b' where "buffered_seek_loop I fuel fuel (bi_size b) d b = Ret (True, b')" "buffered_inv inv cmax b'"
    "buffered_rem rem b' = drop (unat d) (buffered_rem rem b)"
    using seek_loop_spec [OF assms(1) bsz assms(4)] by blast
  with False assms(2) buffered_seek_loop_size show ?thesis
    by (intro exI [of _ b']) (fastforce simp: buffered_in_stream_def buffered_in_seek_def)
qed

sublocale as_text: text_source "buffered_in_stream I fuel" "buffered_rem rem"
  "\<lambda>b. buffered_inv inv cmax b \<and> bi_size b \<noteq> 0" cmax whole
proof (intro text_source.intro text_source_axioms.intro)
  show "in_source (buffered_in_stream I fuel) (buffered_rem rem) (\<lambda>b. buffered_inv inv cmax b \<and> bi_size b \<noteq> 0) cmax"
    by (rule buffered.keeping) (use buffered_read_size in fastforce)
next
  fix b and c :: u32 assume a: "buffered_inv inv cmax b \<and> bi_size b \<noteq> 0" "unat c \<le> cmax"
  let ?k = "min (unat c) (length (buffered_rem rem b))"
  obtain b' where "buffered_in_read I fuel c b = Ret (int ?k, take ?k (buffered_rem rem b), b')"
    using buffered_read_eq [of b c] a by blast
  moreover have "take ?k (buffered_rem rem b) = take (unat c) (buffered_rem rem b)" by (simp add: min_def)
  ultimately show "\<exists>b'. is_read (buffered_in_stream I fuel) c b = Ret (int ?k, take (unat c) (buffered_rem rem b), b')"
    by (simp add: buffered_in_stream_def)
qed (use buffered_rewind buffered_skip cmax_four in blast)+

lemmas buffered_lines = as_text.line_reader_text

end

interpretation mem_buffered_text: buffered_text memory_in_stream memory_rem "memory_text data" 8192 8193 data for data
  by (intro buffered_text.intro buffered_in.intro buffered_in_axioms.intro buffered_text_axioms.intro
      mem_text.in_source_axioms mem_text.rewind_law) simp_all

section \<open>The lines of a file\<close>

definition file_holds :: "('f \<Rightarrow> (byte list \<times> nat) option) \<Rightarrow> byte list \<Rightarrow> 'f file_in \<Rightarrow> bool" where
  "file_holds view c s \<longleftrightarrow> (\<exists>p. view (fi_file s) = Some (c, p))"

context file_opening_read begin

lemma read_holds:
  assumes "file_inv view s" "file_holds view c s" "0 < unat n" "is_read (file_in_stream C) n s = Ret (res, bs, s')"
  shows "file_holds view c s'"
proof -
  obtain c' p where v: "view (fi_file s) = Some (c', p)" "fi_read s = int p" "length c' < 2 ^ 63" "p < 2 ^ 63"
    using assms(1) by (auto simp: file_inv_def split: option.splits)
  then have "c' = c" using assms(2) by (simp add: file_holds_def)
  then show ?thesis
    by (rule_tac in_read_cases [OF v assms(3)]) (use assms(4) in \<open>auto simp: file_in_stream_def file_holds_def\<close>)
qed

lemma file_buffered_text:
  assumes "0 < reach" "4 \<le> cmax" "cmax < fuel"
  shows "buffered_text (file_in_stream C) (file_rem view) (\<lambda>s. file_inv view s \<and> file_holds view c s) cmax fuel c"
proof (intro buffered_text.intro buffered_in.intro buffered_in_axioms.intro buffered_text_axioms.intro assms(2,3))
  show "in_source (file_in_stream C) (file_rem view) (\<lambda>s. file_inv view s \<and> file_holds view c s) cmax"
    by (rule in_source.keeping [OF file_source]) (rule read_holds)
next
  fix s assume a: "file_inv view s \<and> file_holds view c s"
  then obtain p where p: "view (fi_file s) = Some (c, p)" by (auto simp: file_holds_def)
  obtain s' where "is_seek (file_in_stream C) 0 ckSTREAM_BEGIN s = Ret (True, s')" "file_inv view s'"
    "file_rem view s' = c" "file_holds view c s'"
    using in_seek [OF _ p, of 0 ckSTREAM_BEGIN 0] a assms(1) by (auto simp: file_holds_def)
  then show "\<exists>s'. is_seek (file_in_stream C) 0 ckSTREAM_BEGIN s = Ret (True, s') \<and>
      (file_inv view s' \<and> file_holds view c s') \<and> file_rem view s' = c" by blast
qed

text \<open>From the closed file to its lines, with a buffer of the default size.\<close>

lemma open_and_read_lines:
  assumes "disk f = Some c" "length c < 2 ^ 63" "0 < reach" "find_bom bom_table c = (e, n)"
    and "no_double_cr (map unat (drop n c))" "length c < m"
  shows "\<exists>s0 s1 r. FileInStream C f = (Ret (), s0) \<and> file_in_open C s0 = (Ret True, s1) \<and>
    LineReader (buffered_in_stream (file_in_stream C) 8193) (BufferedInStream_default alloc_ok s1) = Ret r \<and>
    line_reader_encoding r = e \<and>
    read_lines (buffered_in_stream (file_in_stream C) 8193) 1 m m r = Ret (text_lines (map unat (drop n c)))"
proof -
  obtain s0 s1 where s1: "FileInStream C f = (Ret (), s0)" "file_in_open C s0 = (Ret True, s1)" "file_inv view s1"
    "view (fi_file s1) = Some (c, 0)"
    by (rule open_new [OF assms(1,2)])
  let ?inv = "\<lambda>s. file_inv view s \<and> file_holds view c s" and ?b = "BufferedInStream_default alloc_ok s1"
  have stack: "buffered_text (file_in_stream C) (file_rem view) ?inv 8192 8193 c"
    using assms(3) by (intro file_buffered_text) simp_all
  have b: "buffered_inv ?inv 8192 ?b \<and> bi_size ?b \<noteq> 0" "buffered_rem (file_rem view) ?b = c"
    using s1(3,4) by (simp_all add: BufferedInStream_default_def buffered_inv_def buffered_rem_def file_holds_def file_rem_def slice_0)
  with s1(1,2) buffered_text.buffered_lines [OF stack b assms(4-6)] show ?thesis by blast
qed

end

context file_writing begin

text \<open>Pieces that are written through a buffer, whatever its size, reach the file in order when it is destroyed.\<close>

lemma open_and_write_buffered:
  assumes "disk f = Some old" "length (concat pieces) \<le> 2 ^ 31" "unat k \<le> 2 ^ 30"
  defines "data \<equiv> concat pieces"
  shows "\<exists>o1 b o2. file_out_open C (FileOutStream f) = (Ret True, o1) \<and>
    write_all (buffered_out_stream (file_out_stream C)) pieces (BufferedOutStream alloc o1 k) =
      Ret (map (\<lambda>bs. int (length bs)) pieces, b) \<and>
    buffered_out_destroy (file_out_stream C) b = Ret o2 \<and>
    view (fo_file o2) = Some (data @ drop (length data) (opened old), length data)"
proof -
  obtain o1 where o: "file_out_open C (FileOutStream f) = (Ret True, o1)" "file_oinv view o1" "file_made view o1 = (opened old, 0)"
    by (rule open_out [OF assms(1)])
  have fits: "file_fits view o1 (length (concat pieces))" using o(3) assms(2) by (simp add: file_fits_def)
  have small: "unat (if k = 0 then 8192 else k) + length (concat pieces) < 2 ^ 32" using assms(2,3) by auto
  have "buffered_out (file_out_stream C) (file_made view) overwrite (file_fits view) (file_oinv view)"
    by (intro buffered_out.intro file_sink)
  from buffered_out.write_all_destroy [OF this o(2) fits small, of alloc] obtain b o2 where
    "write_all (buffered_out_stream (file_out_stream C)) pieces (BufferedOutStream alloc o1 k) =
      Ret (map (\<lambda>bs. int (length bs)) pieces, b)" "buffered_out_destroy (file_out_stream C) b = Ret o2"
    "file_oinv view o2" "file_made view o2 = overwrite (opened old, 0) data"
    using o(3) unfolding data_def by auto
  with o(1) made_view show ?thesis by blast
qed

end

context posix_reader begin

lemmas unix_read_lines = open_and_read_lines

end

context win_reader begin

lemmas windows_read_lines = open_and_read_lines

end

context posix_writer begin

lemmas unix_write_buffered = open_and_write_buffered

end

context win_writer begin

lemmas windows_write_buffered = open_and_write_buffered

end

section \<open>Theorems\<close>

text \<open>C15: On a Unix system that behaves as documented, a \<open>LineReader\<close> over a \<open>BufferedInStream\<close> over a \<open>FileInStream\<close>
  recognises the byte order mark of an existing file, and reading lines until the end gives exactly the lines
  of the text behind it, however short the single reads of the system are; the text has no two CR in a row.\<close>

theorem file_text_lines:
  assumes "posix_open U V D ckOPEN_READ" "posix_stat U D" "posix_lock U V False" "posix_read U V" "posix_lseek U V"
    and "D w path = Some c" "length c < 2 ^ 63" "find_bom bom_table c = (e, n)"
    and "no_double_cr (map unat (drop n c))" "length c < m"
  shows "\<exists>s0 s1 r. FileInStream (unix_file_class U) (File path w) = (Ret (), s0) \<and>
    file_in_open (unix_file_class U) s0 = (Ret True, s1) \<and>
    LineReader (buffered_in_stream (file_in_stream (unix_file_class U)) 8193) (BufferedInStream_default alloc_ok s1) = Ret r \<and>
    line_reader_encoding r = e \<and>
    read_lines (buffered_in_stream (file_in_stream (unix_file_class U)) 8193) 1 m m r =
      Ret (text_lines (map unat (drop n c)))"
proof -
  have r: "posix_reader U V D" using assms(1-5) by (intro posix_reader.intro)
  have d: "unix_disk D (File path w) = Some c"
    using assms(6) by (simp add: unix_disk_def File_def file_name_def path_name_def file_test_def)
  show ?thesis by (rule posix_reader.unix_read_lines [OF r d assms(7) _ assms(8-10)]) simp
qed

theorem file_text_lines_witness:
  "\<exists>s0 s1 r. FileInStream (unix_file_class one_file_os) (File ''/a'' ([0xef, 0xbb, 0xbf, 0x61, 13, 10, 0x62], 1)) = (Ret (), s0) \<and>
    file_in_open (unix_file_class one_file_os) s0 = (Ret True, s1) \<and>
    LineReader (buffered_in_stream (file_in_stream (unix_file_class one_file_os)) 8193) (BufferedInStream_default alloc_ok s1) = Ret r \<and>
    line_reader_encoding r = ckENCODING_UTF8 \<and>
    read_lines (buffered_in_stream (file_in_stream (unix_file_class one_file_os)) 8193) 1 8 8 r =
      Ret (text_lines (map unat (drop 3 [0xef, 0xbb, 0xbf, 0x61, 13, 10, 0x62 :: byte])))"
  by (rule file_text_lines [OF one_file_posix(2,3,4,1) one_file_posix_lseek])
    (simp_all add: one_file_dir_def bom_table_def)

text \<open>The same on Windows.\<close>

lemma win_file_text_lines:
  assumes "win_reader U V D" "D w path = Some c" "length c < 2 ^ 63" "find_bom bom_table c = (e, n)"
    and "no_double_cr (map unat (drop n c))" "length c < m"
  shows "\<exists>s0 s1 r. FileInStream (win_file_class U) (win_File path w) = (Ret (), s0) \<and>
    file_in_open (win_file_class U) s0 = (Ret True, s1) \<and>
    LineReader (buffered_in_stream (file_in_stream (win_file_class U)) 8193) (BufferedInStream_default alloc_ok s1) = Ret r \<and>
    line_reader_encoding r = e \<and>
    read_lines (buffered_in_stream (file_in_stream (win_file_class U)) 8193) 1 m m r =
      Ret (text_lines (map unat (drop n c)))"
proof -
  have f: "win_disk D (win_File path w) = Some c"
    using assms(2) by (simp add: win_disk_def win_File_def win_name_def path_name_def win_test_def)
  show ?thesis by (rule win_reader.windows_read_lines [OF assms(1) f assms(3) _ assms(4-6)]) simp
qed



end
